theory Spec2Isabelle
  imports Complex_Main "HOL-Library.List_Lexorder" "HOL-Library.AList"
begin


section \<open>Strings, keys and errors\<close>

text \<open>
  A Python \<open>str\<close> is a sequence of Unicode code points (0 .. 0x10FFFF), which do not fit
  the 8-bit characters of HOL: a string of the generator is a list of code points, and
  \<open>lit\<close> turns an ASCII literal of the source into one. A key (\<open>_KeyType\<close>, a tuple of
  strings) is a list of strings. The order on keys used by \<open>sorted\<close> is the lexicographic
  one of \<open>HOL-Library.List_Lexorder\<close>, which is how Python compares tuples and strings.
\<close>

type_synonym pystr = "nat list"

type_synonym key = "pystr list"

definition lit :: "string \<Rightarrow> pystr" where
  "lit s = map of_char s"

text \<open>\<open>sep.join(parts)\<close>.\<close>

fun join :: "pystr \<Rightarrow> pystr list \<Rightarrow> pystr" where
  "join sep [] = []"
| "join sep [p] = p"
| "join sep (p # q # ps) = p @ sep @ join sep (q # ps)"

text \<open>\<open>s in t\<close> for two strings: \<open>s\<close> occurs in \<open>t\<close> as a contiguous run.\<close>

fun str_in :: "pystr \<Rightarrow> pystr \<Rightarrow> bool" where
  "str_in s [] = (s = [])"
| "str_in s (c # cs) = (take (length s) (c # cs) = s \<or> str_in s cs)"

text \<open>
  The exceptions the generator can raise. \<open>StaleActiveTable\<close> is not a Python exception:
  the model keeps the active table as a path into the tree (see \<open>Context\<close> below), and
  this is the value of an operation whose path does not lead to a table.
\<close>

datatype error = AssertionError | IndexError | TypeError | StaleActiveTable

section \<open>The random source\<close>

text \<open>
  The generator draws all its randomness from a \<open>random.Random\<close> instance, which is not
  code of this repository. Its state is modelled by the sequence of raw outcomes it is
  going to deliver, one per primitive call; past the end of the sequence every outcome is
  0. A seed fixes one such sequence, so a statement about all sequences covers all seeds.
  \<open>random()\<close> returns a multiple of \<open>2^-53\<close> in \<open>[0, 1)\<close>, \<open>_randbelow(n)\<close> a number
  below \<open>n\<close> (\<open>n\<close> is positive at every call of the source).
  Floating-point arithmetic is idealised: a float is a real number and the operations are
  exact.
\<close>

type_synonym rng = "nat list"

fun next_raw :: "rng \<Rightarrow> nat \<times> rng" where
  "next_raw [] = (0, [])"
| "next_raw (x # xs) = (x, xs)"

definition rng_random :: "rng \<Rightarrow> real \<times> rng" where
  "rng_random g = (case next_raw g of (x, g') \<Rightarrow> (real (x mod 2 ^ 53) / 2 ^ 53, g'))"

definition randbelow :: "nat \<Rightarrow> rng \<Rightarrow> nat \<times> rng" where
  "randbelow n g = (case next_raw g of (x, g') \<Rightarrow> (x mod n, g'))"

definition randint :: "int \<Rightarrow> int \<Rightarrow> rng \<Rightarrow> int \<times> rng" where
  "randint a b g = (case randbelow (nat (b - a + 1)) g of (x, g') \<Rightarrow> (a + int x, g'))"

definition choice :: "'a list \<Rightarrow> rng \<Rightarrow> 'a \<times> rng" where
  "choice seq g = (case randbelow (length seq) g of (i, g') \<Rightarrow> (seq ! i, g'))"

definition uniform :: "real \<Rightarrow> real \<Rightarrow> rng \<Rightarrow> real \<times> rng" where
  "uniform a b g = (case rng_random g of (u, g') \<Rightarrow> (a + (b - a) * u, g'))"

text \<open>
  \<open>choices(population, weights, k=k)\<close>: \<open>k\<close> draws, each the element at
  \<open>bisect(cum_weights, random() * total, 0, n - 1)\<close>, the number of cumulative
  weights among the first \<open>n - 1\<close> that are at most the drawn value.
\<close>

fun accumulate :: "real \<Rightarrow> real list \<Rightarrow> real list" where
  "accumulate acc [] = []"
| "accumulate acc (w # ws) = (acc + w) # accumulate (acc + w) ws"

definition bisect :: "real list \<Rightarrow> real \<Rightarrow> nat" where
  "bisect cs x = length (takeWhile (\<lambda>c. c \<le> x) cs)"

fun choices :: "'a list \<Rightarrow> real list \<Rightarrow> nat \<Rightarrow> rng \<Rightarrow> 'a list \<times> rng" where
  "choices population weights 0 g = ([], g)"
| "choices population weights (Suc k) g =
     (case rng_random g of (u, g1) \<Rightarrow>
      case choices population weights k g1 of (xs, g2) \<Rightarrow>
        (let cum_weights = accumulate 0 weights;
             total = last cum_weights
         in (population ! bisect (butlast cum_weights) (u * total) # xs, g2)))"

text \<open>\<open>_rand_exp\<close>: a length from the clamped geometric distribution.\<close>

definition rand_exp :: "real \<Rightarrow> nat \<Rightarrow> nat \<Rightarrow> rng \<Rightarrow> nat \<times> rng" where
  "rand_exp mean minval maxval g =
     (let p = 1 / (1 + mean);
          cdfmin = 1 - (1 - p) ^ minval;
          cdfmax = 1 - (1 - p) ^ (maxval + 1)
      in case uniform cdfmin cdfmax g of (r, g') \<Rightarrow>
         (let v = \<lfloor>ln (1 - r) / ln (1 - p)\<rfloor>
          in (nat (max (int minval) (min (int maxval) v)), g')))"

section \<open>Formatting numbers\<close>

text \<open>\<open>str(n)\<close>, \<open>"{:o}".format(n)\<close> and \<open>"{:b}".format(n)\<close>: the digits of \<open>n\<close> in a base.\<close>

function digits_base :: "nat \<Rightarrow> nat \<Rightarrow> pystr" where
  "digits_base b n =
     (if n < b \<or> b < 2 then [0x30 + n] else digits_base b (n div b) @ [0x30 + n mod b])"
  by pat_completeness auto
termination
  by (relation "measure (\<lambda>(b, n). n)") auto

declare digits_base.simps [simp del]

definition format_int :: "nat \<Rightarrow> int \<Rightarrow> pystr" where
  "format_int b i = (if i < 0 then lit ''-'' @ digits_base b (nat (- i)) else digits_base b (nat i))"

definition str_int :: "int \<Rightarrow> pystr" where
  "str_int = format_int 10"

text \<open>\<open>"{:02d}".format(n)\<close> and its wider siblings: at least \<open>w\<close> characters, zero-padded.\<close>

definition format_0d :: "nat \<Rightarrow> int \<Rightarrow> pystr" where
  "format_0d w i =
     (if i < 0 then lit ''-'' @ replicate (w - 1 - length (digits_base 10 (nat (- i)))) 0x30
                     @ digits_base 10 (nat (- i))
      else replicate (w - length (digits_base 10 (nat i))) 0x30 @ digits_base 10 (nat i))"

section \<open>Time zones\<close>

datatype tzinfo = TzUTC | TzOffset int

definition gen_timezone :: "rng \<Rightarrow> (pystr \<times> tzinfo) \<times> rng" where
  "gen_timezone g =
     (case rng_random g of (r, g1) \<Rightarrow>
        if r < 0.2 then ((lit ''Z'', TzUTC), g1)
        else (case randint (1 - 24 * 60) (24 * 60 - 1) g1 of (delta, g2) \<Rightarrow>
          (((if delta < 0 then lit ''-'' else lit ''+'')
              @ format_0d 2 (\<bar>delta\<bar> div 60) @ lit '':'' @ format_0d 2 (\<bar>delta\<bar> mod 60),
            TzOffset delta), g2)))"

section \<open>Newlines, whitespace and comments\<close>

definition gen_newline :: "rng \<Rightarrow> pystr \<times> rng" where
  "gen_newline g = choice [[0x0A], [0x0D, 0x0A]] g"

definition gen_ws :: "rng \<Rightarrow> pystr \<times> rng" where
  "gen_ws g =
     (case rand_exp 2 0 100 g of (n, g1) \<Rightarrow>
        if n = 0 then ([], g1) else choices [0x09, 0x20] [1, 4] n g1)"

text \<open>One character of a comment, of the type \<open>t\<close> drawn for it.\<close>

definition gen_comment_char :: "nat \<Rightarrow> rng \<Rightarrow> nat \<times> rng" where
  "gen_comment_char t g =
     (if t = 1 then choice [0x09, 0x20, 0x20, 0x20, 0x20] g
      else if t = 2 then choice [0x23, 0x22, 0x27, 0x5C] g
      else if t = 3 then (case randint 0x80 0xD7FF g of (c, g') \<Rightarrow> (nat c, g'))
      else if t = 4 then (case randint 0xE000 0x10FFFF g of (c, g') \<Rightarrow> (nat c, g'))
      else (case randint 0x21 0x7E g of (c, g') \<Rightarrow> (nat c, g')))"

fun gen_comment_chars :: "nat list \<Rightarrow> rng \<Rightarrow> pystr \<times> rng" where
  "gen_comment_chars [] g = ([], g)"
| "gen_comment_chars (t # ts) g =
     (case gen_comment_char t g of (c, g1) \<Rightarrow>
      case gen_comment_chars ts g1 of (cs, g2) \<Rightarrow> (c # cs, g2))"

definition comment_weights :: "real list" where
  "comment_weights =
     (let weights = [0.1, 0.1, 0.5 * 0.1, 0.5 * 0.1] in weights @ [1.0 - sum_list weights])"

definition gen_comment :: "rng \<Rightarrow> pystr \<times> rng" where
  "gen_comment g =
     (case rand_exp 8 0 100 g of (n, g1) \<Rightarrow>
      case choices [1, 2, 3, 4, 5] comment_weights n g1 of (char_types, g2) \<Rightarrow>
      case gen_comment_chars char_types g2 of (comment_chars, g3) \<Rightarrow>
        (0x23 # comment_chars, g3))"

section \<open>Hexadecimal digits with random case\<close>

lemma digits_base_nonempty: "digits_base b n \<noteq> []"
  by (subst digits_base.simps) simp

lemma str_int_nonempty: "0 < length (str_int i)"
  by (simp add: str_int_def format_int_def digits_base_nonempty)

function rand_format_hex_loop :: "int \<Rightarrow> nat \<Rightarrow> pystr \<Rightarrow> rng \<Rightarrow> pystr \<times> rng" where
  "rand_format_hex_loop val minwidth s g =
     (if length s < minwidth \<or> val > 0 then
        (if val mod 16 < 10 then
           rand_format_hex_loop (val div 16) minwidth (str_int (val mod 16) @ s) g
         else if fst (randint 0 1 g) = 0 then
           rand_format_hex_loop (val div 16) minwidth
             (nat (0x61 + val mod 16 - 10) # s) (snd (randint 0 1 g))
         else
           rand_format_hex_loop (val div 16) minwidth
             (nat (0x41 + val mod 16 - 10) # s) (snd (randint 0 1 g)))
      else (s, g))"
  by pat_completeness auto
termination
proof (relation "measure (\<lambda>(val, minwidth, s, g). nat val + (minwidth - length s))", goal_cases)
  case 1
  show ?case by simp
next
  case (2 val minwidth s g)
  have len: "1 \<le> length (str_int (val mod 16))"
    using str_int_nonempty [of "val mod 16"] by linarith
  have "nat (val div 16) + (minwidth - (length (str_int (val mod 16)) + length s))
      < nat val + (minwidth - length s)"
  proof (cases "val > 0")
    case True
    then have "nat (val div 16) < nat val" by (simp add: nat_less_iff)
    then show ?thesis by linarith
  next
    case False
    with 2 have "length s < minwidth" by simp
    moreover from False have "nat (val div 16) = 0" "nat val = 0"
      by (simp_all add: div_int_pos_iff)
    ultimately show ?thesis using len by linarith
  qed
  then show ?case by simp
next
  case (3 val minwidth s g)
  have "nat (val div 16) + (minwidth - Suc (length s)) < nat val + (minwidth - length s)"
  proof (cases "val > 0")
    case True
    then have "nat (val div 16) < nat val" by (simp add: nat_less_iff)
    then show ?thesis by linarith
  next
    case False
    with 3 have "length s < minwidth" by simp
    moreover from False have "nat (val div 16) = 0" "nat val = 0"
      by (simp_all add: div_int_pos_iff)
    ultimately show ?thesis by simp
  qed
  then show ?case by simp
next
  case (4 val minwidth s g)
  have "nat (val div 16) + (minwidth - Suc (length s)) < nat val + (minwidth - length s)"
  proof (cases "val > 0")
    case True
    then have "nat (val div 16) < nat val" by (simp add: nat_less_iff)
    then show ?thesis by linarith
  next
    case False
    with 4 have "length s < minwidth" by simp
    moreover from False have "nat (val div 16) = 0" "nat val = 0"
      by (simp_all add: div_int_pos_iff)
    ultimately show ?thesis by simp
  qed
  then show ?case by simp
qed

declare rand_format_hex_loop.simps [simp del]

definition rand_format_hex :: "int \<Rightarrow> nat \<Rightarrow> rng \<Rightarrow> pystr \<times> rng" where
  "rand_format_hex val minwidth g = rand_format_hex_loop val minwidth [] g"

section \<open>Strings\<close>

text \<open>\<open>ESCAPE_CHARS\<close>, in the order of \<open>sorted(ESCAPE_CHARS.items())\<close>.\<close>

definition ESCAPE_CHARS :: "(nat \<times> pystr) list" where
  "ESCAPE_CHARS =
     [(0x08, lit ''b''), (0x09, lit ''t''), (0x0A, lit ''n''), (0x0C, lit ''f''),
      (0x0D, lit ''r''), (0x22, [0x22]), (0x5C, [0x5C])]"

text \<open>The two escape forms \<open>\uXXXX\<close> and \<open>\UXXXXXXXX\<close>.\<close>

definition escape_u4 :: "int \<Rightarrow> rng \<Rightarrow> pystr \<times> rng" where
  "escape_u4 c g = (case rand_format_hex c 4 g of (h, g') \<Rightarrow> ([0x5C, 0x75] @ h, g'))"

definition escape_U8 :: "int \<Rightarrow> rng \<Rightarrow> pystr \<times> rng" where
  "escape_U8 c g = (case rand_format_hex c 8 g of (h, g') \<Rightarrow> ([0x5C, 0x55] @ h, g'))"

definition gen_basic_char :: "rng \<Rightarrow> (pystr \<times> pystr) \<times> rng" where
  "gen_basic_char g =
     (case rng_random g of (r, g1) \<Rightarrow>
        if r < 0.5 * 0.1 then
          (case randint 0 (int (length ESCAPE_CHARS) - 1) g1 of (i, g2) \<Rightarrow>
           case ESCAPE_CHARS ! nat i of (c, escsym) \<Rightarrow> (([0x5C] @ escsym, [c]), g2))
        else if r < 0.1 then
          (case rng_random g1 of (r', g2) \<Rightarrow>
           case (if r' < 0.5 then randint 0 0xD7FF g2 else randint 0xE000 0x10FFFF g2)
           of (c, g3) \<Rightarrow>
             if c < 0x10000 \<and> r' < 0.9 then
               (case escape_u4 c g3 of (d, g4) \<Rightarrow> ((d, [nat c]), g4))
             else
               (case escape_U8 c g3 of (d, g4) \<Rightarrow> ((d, [nat c]), g4)))
        else
          (case rng_random g1 of (r', g2) \<Rightarrow>
             if r' < 0.1 then
               (case randint 0x20 0x2F g2 of (c, g3) \<Rightarrow>
                  (let c' = (if c = 0x22 then 0x09 else c) in (([nat c'], [nat c']), g3)))
             else if r' < 0.8 then
               (case randint 0x30 0x7E g2 of (c, g3) \<Rightarrow>
                  (let c' = (if c = 0x5C then 0x41 else c) in (([nat c'], [nat c']), g3)))
             else if r' < 0.9 then
               (case randint 0x80 0xD7FF g2 of (c, g3) \<Rightarrow> (([nat c], [nat c]), g3))
             else
               (case randint 0xE000 0x10FFFF g2 of (c, g3) \<Rightarrow> (([nat c], [nat c]), g3))))"

text \<open>
  The loops that collect characters: \<open>k\<close> further rounds, the lists of pieces of the
  document and of the value so far.
\<close>

fun gen_basic_chars :: "nat \<Rightarrow> rng \<Rightarrow> (pystr list \<times> pystr list) \<times> rng" where
  "gen_basic_chars 0 g = (([], []), g)"
| "gen_basic_chars (Suc k) g =
     (case gen_basic_char g of ((doc_char, val_char), g1) \<Rightarrow>
      case gen_basic_chars k g1 of ((doc_chars, val_chars), g2) \<Rightarrow>
        ((doc_char # doc_chars, val_char # val_chars), g2))"

definition gen_basic_string :: "rng \<Rightarrow> (pystr \<times> pystr) \<times> rng" where
  "gen_basic_string g =
     (case rand_exp 10 0 100 g of (n, g1) \<Rightarrow>
      case gen_basic_chars n g1 of ((doc_chars, val_chars), g2) \<Rightarrow>
        (([0x22] @ concat doc_chars @ [0x22], concat val_chars), g2))"

definition gen_literal_char :: "rng \<Rightarrow> nat \<times> rng" where
  "gen_literal_char g =
     (case rng_random g of (r, g1) \<Rightarrow>
        if r < 0.1 then
          (case randint 0x20 0x2F g1 of (c, g2) \<Rightarrow> (nat (if c = 0x27 then 0x09 else c), g2))
        else if r < 0.8 then
          (case randint 0x30 0x7E g1 of (c, g2) \<Rightarrow> (nat c, g2))
        else if r < 0.9 then
          (case randint 0x80 0xD7FF g1 of (c, g2) \<Rightarrow> (nat c, g2))
        else
          (case randint 0xE000 0x10FFFF g1 of (c, g2) \<Rightarrow> (nat c, g2)))"

fun gen_literal_chars :: "nat \<Rightarrow> rng \<Rightarrow> pystr \<times> rng" where
  "gen_literal_chars 0 g = ([], g)"
| "gen_literal_chars (Suc k) g =
     (case gen_literal_char g of (c, g1) \<Rightarrow>
      case gen_literal_chars k g1 of (cs, g2) \<Rightarrow> (c # cs, g2))"

definition gen_literal_string :: "rng \<Rightarrow> (pystr \<times> pystr) \<times> rng" where
  "gen_literal_string g =
     (case rand_exp 10 0 100 g of (n, g1) \<Rightarrow>
      case gen_literal_chars n g1 of (val, g2) \<Rightarrow>
        (([0x27] @ val @ [0x27], val), g2))"

subsection \<open>Multi-line basic strings\<close>

text \<open>
  The inner \<open>while True\<close> loop of \<open>_gen_ml_basic_string\<close>: draw basic characters until one
  is admitted. Nothing bounds the number of rounds, so the loop takes fuel, and \<open>None\<close> is
  a run that has not left the loop when the fuel is spent.
\<close>

fun gen_ml_basic_char :: "nat \<Rightarrow> bool \<Rightarrow> rng \<Rightarrow> ((pystr \<times> pystr) \<times> rng) option" where
  "gen_ml_basic_char 0 allow_whitespace g = None"
| "gen_ml_basic_char (Suc fuel) allow_whitespace g =
     (case gen_basic_char g of ((doc_char, val_char), g1) \<Rightarrow>
        if allow_whitespace \<or> \<not> str_in doc_char [0x09, 0x20]
        then Some ((doc_char, val_char), g1)
        else gen_ml_basic_char fuel allow_whitespace g1)"

text \<open>The \<open>for k in range(...)\<close> loop of a line continuation: \<open>k\<close> pieces \<open>ws newline\<close>.\<close>

fun gen_ws_newlines :: "nat \<Rightarrow> rng \<Rightarrow> pystr list \<times> rng" where
  "gen_ws_newlines 0 g = ([], g)"
| "gen_ws_newlines (Suc k) g =
     (case gen_ws g of (ws, g1) \<Rightarrow>
      case gen_newline g1 of (nl, g2) \<Rightarrow>
      case gen_ws_newlines k g2 of (rest, g3) \<Rightarrow> ((ws @ nl) # rest, g3))"

text \<open>
  The pieces a line continuation appends to \<open>doc_chars\<close>: a backslash with whitespace
  and a newline, up to two further blank lines, and whitespace.
\<close>

definition gen_ml_escaped_newline :: "rng \<Rightarrow> pystr list \<times> rng" where
  "gen_ml_escaped_newline g =
     (case gen_ws g of (ws1, g1) \<Rightarrow>
      case gen_newline g1 of (nl, g2) \<Rightarrow>
      case randint 0 2 g2 of (k, g3) \<Rightarrow>
      case gen_ws_newlines (nat k) g3 of (more, g4) \<Rightarrow>
      case gen_ws g4 of (ws2, g5) \<Rightarrow>
        ([[0x5C] @ ws1 @ nl] @ more @ [ws2], g5))"

text \<open>
  The \<open>for i in range(n)\<close> loop of \<open>_gen_ml_basic_string\<close>, with \<open>k\<close> rounds to go and the
  loop's variables \<open>doc_chars\<close>, \<open>val_chars\<close>, \<open>allow_quote\<close>, \<open>allow_whitespace\<close>.
\<close>

fun gen_ml_basic_loop ::
  "nat \<Rightarrow> nat \<Rightarrow> pystr list \<Rightarrow> pystr list \<Rightarrow> bool \<Rightarrow> bool \<Rightarrow> rng
    \<Rightarrow> ((pystr list \<times> pystr list) \<times> rng) option" where
  "gen_ml_basic_loop fuel 0 doc_chars val_chars allow_quote allow_whitespace g =
     Some ((doc_chars, val_chars), g)"
| "gen_ml_basic_loop fuel (Suc k) doc_chars val_chars allow_quote allow_whitespace g =
     (case rng_random g of (r, g1) \<Rightarrow>
        if allow_quote \<and> r < 0.1 then
          (if r < 0.5 * 0.1
           then gen_ml_basic_loop fuel k (doc_chars @ [[0x22], [0x22]])
                  (val_chars @ [[0x22], [0x22]]) False True g1
           else gen_ml_basic_loop fuel k (doc_chars @ [[0x22]])
                  (val_chars @ [[0x22]]) False True g1)
        else
          (case rng_random g1 of (r', g2) \<Rightarrow>
             if r' < 0.1 \<and> val_chars \<noteq> [] \<and> allow_whitespace then
               (case gen_newline g2 of (nl, g3) \<Rightarrow>
                  gen_ml_basic_loop fuel k (doc_chars @ [nl]) (val_chars @ [[0x0A]])
                    True allow_whitespace g3)
             else if r' < 0.1 + 0.05 then
               (case gen_ml_escaped_newline g2 of (pieces, g3) \<Rightarrow>
                  gen_ml_basic_loop fuel k (doc_chars @ pieces) val_chars True False g3)
             else
               (case gen_ml_basic_char fuel allow_whitespace g2 of
                  None \<Rightarrow> None
                | Some ((doc_char, val_char), g3) \<Rightarrow>
                    gen_ml_basic_loop fuel k (doc_chars @ [doc_char]) (val_chars @ [val_char])
                      True True g3)))"

definition gen_ml_basic_string :: "nat \<Rightarrow> rng \<Rightarrow> ((pystr \<times> pystr) \<times> rng) option" where
  "gen_ml_basic_string fuel g =
     (case rand_exp 25 0 200 g of (n, g1) \<Rightarrow>
      case randint 0 1 g1 of (b, g2) \<Rightarrow>
      case (if b > 0 then (case gen_newline g2 of (nl, g3) \<Rightarrow> ([nl], g3)) else ([], g2))
      of (doc_chars, g4) \<Rightarrow>
       (case gen_ml_basic_loop fuel n doc_chars [] True True g4 of
          None \<Rightarrow> None
        | Some ((doc_chars', val_chars), g5) \<Rightarrow>
            Some (([0x22, 0x22, 0x22] @ concat doc_chars' @ [0x22, 0x22, 0x22],
                   concat val_chars), g5)))"

subsection \<open>Multi-line literal strings\<close>

fun gen_ml_literal_loop ::
  "nat \<Rightarrow> pystr list \<Rightarrow> pystr list \<Rightarrow> bool \<Rightarrow> rng \<Rightarrow> (pystr list \<times> pystr list) \<times> rng" where
  "gen_ml_literal_loop 0 doc_chars val_chars allow_quote g = ((doc_chars, val_chars), g)"
| "gen_ml_literal_loop (Suc k) doc_chars val_chars allow_quote g =
     (case rng_random g of (r, g1) \<Rightarrow>
        if allow_quote \<and> r < 0.1 then
          (if r < 0.5 * 0.1
           then gen_ml_literal_loop k (doc_chars @ [[0x27], [0x27]])
                  (val_chars @ [[0x27], [0x27]]) False g1
           else gen_ml_literal_loop k (doc_chars @ [[0x27]]) (val_chars @ [[0x27]]) False g1)
        else
          (case rng_random g1 of (r', g2) \<Rightarrow>
             if r' < 0.1 \<and> val_chars \<noteq> [] then
               (case gen_newline g2 of (nl, g3) \<Rightarrow>
                  gen_ml_literal_loop k (doc_chars @ [nl]) (val_chars @ [[0x0A]]) True g3)
             else
               (case gen_literal_char g2 of (c, g3) \<Rightarrow>
                  gen_ml_literal_loop k (doc_chars @ [[c]]) (val_chars @ [[c]]) True g3)))"

definition gen_ml_literal_string :: "rng \<Rightarrow> (pystr \<times> pystr) \<times> rng" where
  "gen_ml_literal_string g =
     (case rand_exp 25 0 200 g of (n, g1) \<Rightarrow>
      case randint 0 1 g1 of (b, g2) \<Rightarrow>
      case (if b > 0 then (case gen_newline g2 of (nl, g3) \<Rightarrow> ([nl], g3)) else ([], g2))
      of (doc_chars, g4) \<Rightarrow>
      case gen_ml_literal_loop n doc_chars [] True g4 of ((doc_chars', val_chars), g5) \<Rightarrow>
        (([0x27, 0x27, 0x27] @ concat doc_chars' @ [0x27, 0x27, 0x27], concat val_chars), g5))"

text \<open>\<open>_gen_string\<close> chooses one of the four forms.\<close>

datatype string_form = MlBasicString | BasicString | MlLiteralString | LiteralString

definition gen_string :: "nat \<Rightarrow> rng \<Rightarrow> ((pystr \<times> pystr) \<times> rng) option" where
  "gen_string fuel g =
     (case choice [MlBasicString, BasicString, MlLiteralString, LiteralString] g of
        (func, g1) \<Rightarrow>
          (case func of
             MlBasicString \<Rightarrow> gen_ml_basic_string fuel g1
           | BasicString \<Rightarrow> Some (gen_basic_string g1)
           | MlLiteralString \<Rightarrow> Some (gen_ml_literal_string g1)
           | LiteralString \<Rightarrow> Some (gen_literal_string g1)))"

section \<open>Keys\<close>

text \<open>The three character classes that \<open>_format_simple_key\<close> tests.\<close>

definition is_unquoted_key_char :: "nat \<Rightarrow> bool" where
  "is_unquoted_key_char c \<longleftrightarrow>
     str_in [c] (lit ''-_'') \<or> (0x30 \<le> c \<and> c \<le> 0x39)
     \<or> (of_char CHR ''a'' \<le> c \<and> c \<le> of_char CHR ''z'')
     \<or> (of_char CHR ''A'' \<le> c \<and> c \<le> of_char CHR ''Z'')"

definition is_literal_char :: "nat \<Rightarrow> bool" where
  "is_literal_char c \<longleftrightarrow>
     c = 0x09 \<or> (0x20 \<le> c \<and> c \<le> 0x7E \<and> c \<noteq> 0x27)
     \<or> (0x80 \<le> c \<and> c \<le> 0xD7FF) \<or> (0xE000 \<le> c \<and> c \<le> 0x10FFFF)"

definition is_basic_unescaped :: "nat \<Rightarrow> bool" where
  "is_basic_unescaped c \<longleftrightarrow>
     c = 0x09 \<or> (0x20 \<le> c \<and> c \<le> 0x7E \<and> c \<noteq> 0x22 \<and> c \<noteq> 0x5C)
     \<or> (0x80 \<le> c \<and> c \<le> 0xD7FF) \<or> (0xE000 \<le> c \<and> c \<le> 0x10FFFF)"

text \<open>
  One character of a key rendered as a basic string: escaped when it must be, or when
  the draw says so.
\<close>

definition escape_hex :: "nat \<Rightarrow> real \<Rightarrow> rng \<Rightarrow> pystr \<times> rng" where
  "escape_hex c r g =
     (if c < 0x10000 \<and> r < 0.9 then escape_u4 (int c) g else escape_U8 (int c) g)"

definition format_key_char :: "nat \<Rightarrow> rng \<Rightarrow> pystr \<times> rng" where
  "format_key_char c g =
     (let need_escape = \<not> is_basic_unescaped c in
      case rng_random g of (r, g1) \<Rightarrow>
        if need_escape \<or> r < 0.1 then
          (case rng_random g1 of (r', g2) \<Rightarrow>
             (case map_of ESCAPE_CHARS c of
                Some escsym \<Rightarrow>
                  if r' < 0.5 then ([0x5C] @ escsym, g2) else escape_hex c r' g2
              | None \<Rightarrow> escape_hex c r' g2))
        else ([c], g1))"

fun format_key_chars :: "pystr \<Rightarrow> rng \<Rightarrow> pystr list \<times> rng" where
  "format_key_chars [] g = ([], g)"
| "format_key_chars (c # cs) g =
     (case format_key_char c g of (d, g1) \<Rightarrow>
      case format_key_chars cs g1 of (ds, g2) \<Rightarrow> (d # ds, g2))"

definition format_simple_key :: "pystr \<Rightarrow> rng \<Rightarrow> pystr \<times> rng" where
  "format_simple_key key g =
     (let need_quote = (length key = 0 \<or> list_ex (\<lambda>c. \<not> is_unquoted_key_char c) key);
          need_basic = list_ex (\<lambda>c. \<not> is_literal_char c) key
      in case (if need_quote then (True, g)
               else (case rng_random g of (r, g1) \<Rightarrow> (r < 0.4, g1))) of (quote, g2) \<Rightarrow>
         if quote then
           (case (if need_basic then (True, g2)
                  else (case rng_random g2 of (r, g3) \<Rightarrow> (r < 0.5, g3))) of (basic, g4) \<Rightarrow>
              if basic then
                (case format_key_chars key g4 of (key_chars, g5) \<Rightarrow>
                   ([0x22] @ concat key_chars @ [0x22], g5))
              else ([0x27] @ key @ [0x27], g4))
         else (key, g2))"

text \<open>The separator \<open>ws "." ws\<close> between two segments.\<close>

definition gen_dot_sep :: "rng \<Rightarrow> pystr \<times> rng" where
  "gen_dot_sep g =
     (case gen_ws g of (ws1, g1) \<Rightarrow>
      case gen_ws g1 of (ws2, g2) \<Rightarrow> (ws1 @ lit ''.'' @ ws2, g2))"

text \<open>
  The loop shared by \<open>_format_key\<close> and the first half of \<open>_gen_dotted_key\<close>: the segments
  still to render, and the pieces \<open>key_str\<close> so far.
\<close>

fun format_key_loop :: "key \<Rightarrow> pystr list \<Rightarrow> rng \<Rightarrow> pystr list \<times> rng" where
  "format_key_loop [] key_str g = (key_str, g)"
| "format_key_loop (k # ks) key_str g =
     (case (if key_str \<noteq> [] then (case gen_dot_sep g of (sep, g1) \<Rightarrow> (key_str @ [sep], g1))
            else (key_str, g)) of (key_str1, g2) \<Rightarrow>
      case format_simple_key k g2 of (s, g3) \<Rightarrow>
        format_key_loop ks (key_str1 @ [s]) g3)"

definition format_key :: "key \<Rightarrow> rng \<Rightarrow> pystr \<times> rng" where
  "format_key key g = (case format_key_loop key [] g of (key_str, g') \<Rightarrow> (concat key_str, g'))"

fun gen_unquoted_key_chars :: "nat \<Rightarrow> rng \<Rightarrow> pystr \<times> rng" where
  "gen_unquoted_key_chars 0 g = ([], g)"
| "gen_unquoted_key_chars (Suc k) g =
     (case rng_random g of (r, g1) \<Rightarrow>
      case (if r < 0.5 then choice (lit ''0123456789-_'') g1
            else choice (map (\<lambda>i. of_char CHR ''a'' + i) [0..<26]
                         @ map (\<lambda>i. of_char CHR ''A'' + i) [0..<26]) g1) of (c, g2) \<Rightarrow>
      case gen_unquoted_key_chars k g2 of (cs, g3) \<Rightarrow> (c # cs, g3))"

definition gen_unquoted_key :: "rng \<Rightarrow> (pystr \<times> pystr) \<times> rng" where
  "gen_unquoted_key g =
     (case rand_exp 5 1 100 g of (n, g1) \<Rightarrow>
      case gen_unquoted_key_chars n g1 of (key, g2) \<Rightarrow> ((key, key), g2))"

definition gen_simple_key :: "rng \<Rightarrow> (pystr \<times> pystr) \<times> rng" where
  "gen_simple_key g =
     (case rng_random g of (r, g1) \<Rightarrow>
        if r < 0.4 then
          (if r < 0.5 * 0.4 then gen_basic_string g1 else gen_literal_string g1)
        else gen_unquoted_key g1)"

text \<open>The second loop of \<open>_gen_dotted_key\<close>: \<open>n\<close> fresh segments.\<close>

fun gen_dotted_key_loop ::
  "nat \<Rightarrow> pystr list \<Rightarrow> key \<Rightarrow> rng \<Rightarrow> (pystr list \<times> key) \<times> rng" where
  "gen_dotted_key_loop 0 key_str key g = ((key_str, key), g)"
| "gen_dotted_key_loop (Suc n) key_str key g =
     (case (if key_str \<noteq> [] then (case gen_dot_sep g of (sep, g1) \<Rightarrow> (key_str @ [sep], g1))
            else (key_str, g)) of (key_str1, g2) \<Rightarrow>
      case gen_simple_key g2 of ((s, k), g3) \<Rightarrow>
        gen_dotted_key_loop n (key_str1 @ [s]) (key @ [k]) g3)"

definition MAX_DOTTED_LEN :: int where
  "MAX_DOTTED_LEN = 3"

definition gen_dotted_key :: "key \<Rightarrow> rng \<Rightarrow> (pystr \<times> key) \<times> rng" where
  "gen_dotted_key prefix g =
     (case format_key_loop prefix [] g of (key_str, g1) \<Rightarrow>
      case randint 1 MAX_DOTTED_LEN g1 of (n, g2) \<Rightarrow>
      case gen_dotted_key_loop (nat n) key_str prefix g2 of ((key_str', key), g3) \<Rightarrow>
        ((concat key_str', key), g3))"

text \<open>
  The \<open>while searching\<close> loop of \<open>_gen_key\<close>. A draw may be rejected any number of times,
  so the loop takes fuel; \<open>None\<close> is a search that has not ended when the fuel is spent.
\<close>

fun gen_key_search ::
  "nat \<Rightarrow> key list \<Rightarrow> key list \<Rightarrow> key \<Rightarrow> rng \<Rightarrow> ((pystr \<times> key) \<times> rng) option" where
  "gen_key_search 0 exclude_prefix exclude_key prefix g = None"
| "gen_key_search (Suc fuel) exclude_prefix exclude_key prefix g =
     (case gen_dotted_key prefix g of ((key_str, key), g1) \<Rightarrow>
        if key \<in> set exclude_key then
          gen_key_search fuel exclude_prefix exclude_key prefix g1
        else if list_ex (\<lambda>i. take i key \<in> set exclude_prefix) [1..<length key] then
          gen_key_search fuel exclude_prefix exclude_key prefix g1
        else Some ((key_str, key), g1))"

definition gen_key ::
  "nat \<Rightarrow> key list \<Rightarrow> key list \<Rightarrow> key list \<Rightarrow> key list \<Rightarrow> rng
    \<Rightarrow> ((pystr \<times> key) \<times> rng) option" where
  "gen_key fuel exclude_prefix exclude_key reuse_prefix reuse_key g =
     (if reuse_prefix \<noteq> [] \<or> reuse_key \<noteq> [] then
        (case rng_random g of (u, g1) \<Rightarrow>
           if u < 0.5 then
             (let n = length reuse_prefix + length reuse_key in
              case randint 0 (int n - 1) g1 of (r, g2) \<Rightarrow>
                if r < int (length reuse_key) then
                  (let key = reuse_key ! nat r in
                   case format_key key g2 of (key_str, g3) \<Rightarrow> Some ((key_str, key), g3))
                else
                  gen_key_search fuel exclude_prefix exclude_key
                    (reuse_prefix ! nat (r - int (length reuse_key))) g2)
           else gen_key_search fuel exclude_prefix exclude_key [] g1)
      else gen_key_search fuel exclude_prefix exclude_key [] g)"

section \<open>Values\<close>

text \<open>
  \<open>_ValueType\<close>. A float is kept as the text handed to \<open>float()\<close>: the conversion to a
  64-bit float is not modelled. Dates and times carry the fields of \<open>datetime.date\<close> and
  \<open>datetime.time\<close>; a dictionary keeps its entries in insertion order.
\<close>

datatype pydate = Date int int int

datatype pytime = Time int int int int

datatype toml_value =
    VStr pystr
  | VBool bool
  | VInt int
  | VFloat pystr
  | VDate pydate
  | VTime pytime
  | VDateTime pydate pytime "tzinfo option"
  | VList "toml_value list"
  | VDict "(pystr \<times> toml_value) list"

subsection \<open>Booleans and numbers\<close>

definition gen_boolean :: "rng \<Rightarrow> (pystr \<times> bool) \<times> rng" where
  "gen_boolean g = choice [(lit ''true'', True), (lit ''false'', False)] g"

text \<open>\<open>_splice_number\<close>: the loop over \<open>i\<close> with the pieces cut so far and the start \<open>p\<close>.\<close>

fun splice_number_loop ::
  "pystr \<Rightarrow> nat list \<Rightarrow> pystr list \<Rightarrow> nat \<Rightarrow> rng \<Rightarrow> (pystr list \<times> nat) \<times> rng" where
  "splice_number_loop s [] parts p g = ((parts, p), g)"
| "splice_number_loop s (i # is) parts p g =
     (case rng_random g of (r, g1) \<Rightarrow>
        if r < 0.1 then splice_number_loop s is (parts @ [take (i - p) (drop p s)]) i g1
        else splice_number_loop s is parts p g1)"

definition splice_number :: "pystr \<Rightarrow> rng \<Rightarrow> pystr \<times> rng" where
  "splice_number s g =
     (case splice_number_loop s [1..<length s] [] 0 g of ((parts, p), g1) \<Rightarrow>
        (join (lit ''_'') (parts @ [drop p s]), g1))"

text \<open>Python's \<open>round\<close> of a float: to the nearest integer, a tie to the even one.\<close>

definition py_round :: "real \<Rightarrow> int" where
  "py_round x =
     (if x - of_int \<lfloor>x\<rfloor> < 1 / 2 then \<lfloor>x\<rfloor>
      else if x - of_int \<lfloor>x\<rfloor> > 1 / 2 then \<lfloor>x\<rfloor> + 1
      else if even \<lfloor>x\<rfloor> then \<lfloor>x\<rfloor> else \<lfloor>x\<rfloor> + 1)"

definition MAX_INT_VALUE :: int where
  "MAX_INT_VALUE = 2 ^ 80"

text \<open>The formatting functions of the table \<open>formats\<close> in \<open>_gen_integer\<close>.\<close>

datatype fmtfunc = FmtStr | FmtRandHex | FmtOct | FmtBin

definition apply_fmtfunc :: "fmtfunc \<Rightarrow> int \<Rightarrow> rng \<Rightarrow> pystr \<times> rng" where
  "apply_fmtfunc f val g =
     (case f of
        FmtStr \<Rightarrow> (str_int val, g)
      | FmtRandHex \<Rightarrow> rand_format_hex val 1 g
      | FmtOct \<Rightarrow> (format_int 8 val, g)
      | FmtBin \<Rightarrow> (format_int 2 val, g))"

definition int_formats :: "(pystr \<times> fmtfunc \<times> bool \<times> int) list" where
  "int_formats =
     [(lit '''', FmtStr, False, 1),
      (lit ''+'', FmtStr, False, 1),
      (lit ''-'', FmtStr, False, - 1),
      (lit ''0x'', FmtRandHex, True, 1),
      (lit ''0o'', FmtOct, True, 1),
      (lit ''0b'', FmtBin, True, 1)]"

definition gen_integer :: "rng \<Rightarrow> (pystr \<times> int) \<times> rng" where
  "gen_integer g =
     (case rng_random g of (r, g1) \<Rightarrow>
      let val = py_round (exp (r ^ 2 * ln (real_of_int (MAX_INT_VALUE + 1))) - 1) in
      case choice int_formats g1 of ((prefix, fmtfunc, add_zeros, sign), g2) \<Rightarrow>
      case apply_fmtfunc fmtfunc val g2 of (s, g3) \<Rightarrow>
      case (if add_zeros then (case randint 0 3 g3 of (n, g4) \<Rightarrow> (replicate (nat n) 0x30 @ s, g4))
            else (s, g3)) of (s1, g5) \<Rightarrow>
      case splice_number s1 g5 of (s2, g6) \<Rightarrow>
        ((prefix @ s2, sign * val), g6))"

definition gen_dec_int :: "int \<Rightarrow> bool \<Rightarrow> bool \<Rightarrow> rng \<Rightarrow> (pystr \<times> int) \<times> rng" where
  "gen_dec_int max_val signed zero_prefixable g =
     (case randint 0 max_val g of (v, g1) \<Rightarrow>
      case (if signed then choice [lit '''', lit ''+'', lit ''-''] g1 else (lit '''', g1))
      of (sign_str, g2) \<Rightarrow>
      case (if zero_prefixable then (case randint 0 3 g2 of (n, g3) \<Rightarrow> (replicate (nat n) 0x30, g3))
            else (lit '''', g2)) of (prefix, g4) \<Rightarrow>
      case splice_number (prefix @ str_int v) g4 of (sp, g5) \<Rightarrow>
        ((sign_str @ sp, if sign_str = lit ''-'' then - v else v), g5))"

definition gen_float :: "rng \<Rightarrow> (pystr \<times> pystr) \<times> rng" where
  "gen_float g =
     (case rng_random g of (u, g1) \<Rightarrow>
        if u < 0.1 then
          (case choice [lit '''', lit ''+'', lit ''-''] g1 of (prefix, g2) \<Rightarrow>
           case choice [lit ''inf'', lit ''nan''] g2 of (symb, g3) \<Rightarrow>
             ((prefix @ symb, prefix @ symb), g3))
        else
          (case gen_dec_int 999999 True False g1 of ((int_str, int_val), g2) \<Rightarrow>
           case randint 0 2 g2 of (r, g3) \<Rightarrow>
           case (if r = 0 \<or> r = 2 then
                   (case gen_dec_int 100 True True g3 of ((exp_str, exp_val), g4) \<Rightarrow>
                    case choice (lit ''eE'') g4 of (e, g5) \<Rightarrow> ([e] @ exp_str, g5))
                 else (lit '''', g3)) of (exp_str, g6) \<Rightarrow>
           case (if r = 1 \<or> r = 2 then
                   (case gen_dec_int 99999 False True g6 of ((frac_str, frac_val), g7) \<Rightarrow>
                      (lit ''.'' @ frac_str, g7))
                 else (lit '''', g6)) of (frac_str, g8) \<Rightarrow>
             (let s = int_str @ frac_str @ exp_str
              in ((s, filter (\<lambda>c. c \<noteq> of_char CHR ''_'') s), g8))))"

subsection \<open>Dates and times\<close>

text \<open>
  \<open>date.isoformat()\<close> and \<open>time.isoformat()\<close> of the standard library: \<open>YYYY-MM-DD\<close>, and
  \<open>HH:MM:SS\<close> followed by \<open>.ffffff\<close> when the microsecond is not zero.
\<close>

definition date_isoformat :: "pydate \<Rightarrow> pystr" where
  "date_isoformat d =
     (case d of Date year month day \<Rightarrow>
        format_0d 4 year @ lit ''-'' @ format_0d 2 month @ lit ''-'' @ format_0d 2 day)"

definition time_isoformat :: "pytime \<Rightarrow> pystr" where
  "time_isoformat t =
     (case t of Time hour minute second usec \<Rightarrow>
        format_0d 2 hour @ lit '':'' @ format_0d 2 minute @ lit '':'' @ format_0d 2 second
        @ (if usec \<noteq> 0 then lit ''.'' @ format_0d 6 usec else lit ''''))"

definition gen_local_date :: "rng \<Rightarrow> (pystr \<times> pydate) \<times> rng" where
  "gen_local_date g =
     (case randint 1000 9999 g of (year, g1) \<Rightarrow>
      case randint 1 12 g1 of (month, g2) \<Rightarrow>
      let maxday =
        (if month = 2 then
           (if year mod 400 = 0 \<or> (year mod 4 = 0 \<and> year mod 100 \<noteq> 0) then 29 else 28)
         else if month \<in> set [4, 6, 9, 11] then 30
         else 31) in
      case randint 1 maxday g2 of (day, g3) \<Rightarrow>
        (let val = Date year month day in ((date_isoformat val, val), g3)))"

definition gen_local_time :: "rng \<Rightarrow> (pystr \<times> pytime) \<times> rng" where
  "gen_local_time g =
     (case randint 0 23 g of (hour, g1) \<Rightarrow>
      case randint 0 59 g1 of (minute, g2) \<Rightarrow>
      case randint 0 59 g2 of (second, g3) \<Rightarrow>
      case rng_random g3 of (u, g4) \<Rightarrow>
      case (if u < 0.5 then
              (case randint 1 6 g4 of (r, g5) \<Rightarrow>
                 ((0, lit ''.'' @ replicate (nat r) 0x30), g5))
            else
              (case randint 0 6 g4 of (r, g5) \<Rightarrow>
               case randint 0 999999 g5 of (usec, g6) \<Rightarrow>
                 ((usec - usec mod (10 ^ nat r), lit ''''), g6)))
      of ((usec, usec_suffix), g7) \<Rightarrow>
        (let val = Time hour minute second usec
         in ((time_isoformat val @ usec_suffix, val), g7)))"

definition gen_offset_date_time :: "rng \<Rightarrow> (pystr \<times> toml_value) \<times> rng" where
  "gen_offset_date_time g =
     (case gen_local_date g of ((date_str, date), g1) \<Rightarrow>
      case gen_local_time g1 of ((time_str, time), g2) \<Rightarrow>
      case gen_timezone g2 of ((tz_str, tz), g3) \<Rightarrow>
      case choice (lit ''Tt '') g3 of (delim, g4) \<Rightarrow>
        ((date_str @ [delim] @ time_str @ tz_str, VDateTime date time (Some tz)), g4))"

definition gen_local_date_time :: "rng \<Rightarrow> (pystr \<times> toml_value) \<times> rng" where
  "gen_local_date_time g =
     (case gen_local_date g of ((date_str, date), g1) \<Rightarrow>
      case gen_local_time g1 of ((time_str, time), g2) \<Rightarrow>
      case choice (lit ''Tt '') g2 of (delim, g3) \<Rightarrow>
        ((date_str @ [delim] @ time_str, VDateTime date time None), g3))"

datatype date_time_form = OffsetDateTime | LocalDateTime | LocalDate | LocalTime

definition gen_date_time :: "rng \<Rightarrow> (pystr \<times> toml_value) \<times> rng" where
  "gen_date_time g =
     (case choice [OffsetDateTime, LocalDateTime, LocalDate, LocalTime] g of (func, g1) \<Rightarrow>
        (case func of
           OffsetDateTime \<Rightarrow> gen_offset_date_time g1
         | LocalDateTime \<Rightarrow> gen_local_date_time g1
         | LocalDate \<Rightarrow> (case gen_local_date g1 of ((s, d), g2) \<Rightarrow> ((s, VDate d), g2))
         | LocalTime \<Rightarrow> (case gen_local_time g1 of ((s, t), g2) \<Rightarrow> ((s, VTime t), g2))))"

subsection \<open>Arrays and inline tables\<close>

definition gen_ws_comment_newline_part :: "rng \<Rightarrow> pystr \<times> rng" where
  "gen_ws_comment_newline_part g =
     (case randint 0 5 g of (r, g1) \<Rightarrow>
      case (if r < 4 then gen_ws g1 else ([], g1)) of (p1, g2) \<Rightarrow>
      case (if r = 2 \<or> r = 4 then gen_comment g2 else ([], g2)) of (p2, g3) \<Rightarrow>
      case (if r \<ge> 2 then gen_newline g3 else ([], g3)) of (p3, g4) \<Rightarrow>
        (p1 @ p2 @ p3, g4))"

fun gen_ws_comment_newline_loop :: "nat \<Rightarrow> rng \<Rightarrow> pystr \<times> rng" where
  "gen_ws_comment_newline_loop 0 g = ([], g)"
| "gen_ws_comment_newline_loop (Suc k) g =
     (case gen_ws_comment_newline_part g of (p, g1) \<Rightarrow>
      case gen_ws_comment_newline_loop k g1 of (ps, g2) \<Rightarrow> (p @ ps, g2))"

definition gen_ws_comment_newline :: "rng \<Rightarrow> pystr \<times> rng" where
  "gen_ws_comment_newline g =
     (case rand_exp 2 0 5 g of (n, g1) \<Rightarrow> gen_ws_comment_newline_loop n g1)"

section \<open>The tree of tables\<close>

text \<open>
  A child of a table is a value, a \<open>Table\<close> (with its flags \<open>defined\<close> and \<open>dotted\<close>) or
  a \<open>TableArray\<close>. A table (\<open>_InternalTableType\<close>, a Python dictionary) is the list of its
  entries in insertion order; \<open>map_of\<close> looks a key up and \<open>AList.update\<close> stores a child
  the way \<open>tbl[p] = x\<close> does, in place for a key that is present and at the end for a new
  one.

  \<open>TableArray()\<close> starts with no element, but its only call site (\<open>open_table_array\<close>)
  appends a table before anything can read the array. The model therefore keeps the
  elements as the earlier ones and the last one, \<open>elems[-1]\<close>, which is where every walk
  of the tree goes.
\<close>

datatype child =
    Value toml_value
  | Table bool bool "(pystr \<times> child) list"
  | TableArray "(pystr \<times> child) list list" "(pystr \<times> child) list"

type_synonym table = "(pystr \<times> child) list"

text \<open>
  \<open>Context\<close>. In the source \<open>active_table\<close> is a reference to a dictionary inside
  \<open>data\<close>. No operation removes or replaces a child, and an element appended to a table
  array becomes the active table at once, so the dictionary is the one found by walking
  from the root along the key of the header that opened it (through the last element of
  every table array, as \<open>_make_subtable\<close> walks). The model keeps that key.
\<close>

datatype debug_line = PrintOpenTable key | PrintOpenArray key | PrintAssign key toml_value

record Context =
  data :: table
  active :: key
  printed :: "debug_line list"

definition Context_init :: Context where
  "Context_init = \<lparr>data = [], active = [], printed = []\<rparr>"

text \<open>
  The module flag \<open>_DEBUG\<close> is an input of the three operations below: when it is set
  they print a line before they do anything else. What has been printed is kept in the
  field \<open>printed\<close> (the line as the operation and its arguments, not as text).
\<close>

definition debug_print :: "bool \<Rightarrow> debug_line \<Rightarrow> Context \<Rightarrow> Context" where
  "debug_print debug line ctx = (if debug then ctx\<lparr>printed := printed ctx @ [line]\<rparr> else ctx)"

fun subtable_at :: "key \<Rightarrow> table \<Rightarrow> table option" where
  "subtable_at [] tbl = Some tbl"
| "subtable_at (p # ps) tbl =
     (case map_of tbl p of
        Some (Table d dt elems) \<Rightarrow> subtable_at ps elems
      | Some (TableArray init lst) \<Rightarrow> subtable_at ps lst
      | _ \<Rightarrow> None)"

definition active_table :: "Context \<Rightarrow> table option" where
  "active_table ctx = subtable_at (active ctx) (data ctx)"

text \<open>An update \<open>f\<close> made through the reference \<open>active_table\<close>, seen from the root.\<close>

fun update_at :: "key \<Rightarrow> (table \<Rightarrow> error + table) \<Rightarrow> table \<Rightarrow> error + table" where
  "update_at [] f tbl = f tbl"
| "update_at (p # ps) f tbl =
     (case map_of tbl p of
        Some (Table d dt elems) \<Rightarrow>
          (case update_at ps f elems of
             Inl e \<Rightarrow> Inl e
           | Inr elems' \<Rightarrow> Inr (AList.update p (Table d dt elems') tbl))
      | Some (TableArray init lst) \<Rightarrow>
          (case update_at ps f lst of
             Inl e \<Rightarrow> Inl e
           | Inr lst' \<Rightarrow> Inr (AList.update p (TableArray init lst') tbl))
      | _ \<Rightarrow> Inl StaleActiveTable)"

subsection \<open>Queries\<close>

fun item_keys_rec :: "table \<Rightarrow> key \<Rightarrow> key list"
  and item_keys_child :: "child \<Rightarrow> key \<Rightarrow> key list" where
  "item_keys_rec [] path = []"
| "item_keys_rec ((p, v) # rest) path = item_keys_child v (path @ [p]) @ item_keys_rec rest path"
| "item_keys_child (Table d dt elems) path = item_keys_rec elems path"
| "item_keys_child (TableArray init lst) path = item_keys_rec lst path"
| "item_keys_child (Value v) path = [path]"

fun item_prefixes_rec :: "table \<Rightarrow> key \<Rightarrow> key list"
  and item_prefixes_child :: "child \<Rightarrow> key \<Rightarrow> key list" where
  "item_prefixes_rec [] path = []"
| "item_prefixes_rec ((p, v) # rest) path =
     item_prefixes_child v (path @ [p]) @ item_prefixes_rec rest path"
| "item_prefixes_child (Table d dt elems) path =
     (if dt then path # item_prefixes_rec elems path else [])"
| "item_prefixes_child (TableArray init lst) path = []"
| "item_prefixes_child (Value v) path = []"

fun subtable_keys_loop :: "table \<Rightarrow> key list" where
  "subtable_keys_loop [] = []"
| "subtable_keys_loop ((p, v) # rest) =
     (case v of
        Table d dt elems \<Rightarrow> (if \<not> dt then [[p]] else [])
      | TableArray init lst \<Rightarrow> [[p]]
      | Value x \<Rightarrow> []) @ subtable_keys_loop rest"

fun table_keys_rec :: "bool option \<Rightarrow> bool option \<Rightarrow> table \<Rightarrow> key \<Rightarrow> key list"
  and table_keys_child :: "bool option \<Rightarrow> bool option \<Rightarrow> child \<Rightarrow> key \<Rightarrow> key list" where
  "table_keys_rec defined array [] path = []"
| "table_keys_rec defined array ((p, v) # rest) path =
     table_keys_child defined array v (path @ [p]) @ table_keys_rec defined array rest path"
| "table_keys_child defined array (Table d dt elems) path =
     (if array \<noteq> Some True \<and> (defined = None \<or> defined = Some d) then [path] else [])
     @ table_keys_rec defined array elems path"
| "table_keys_child defined array (TableArray init lst) path =
     (if array \<noteq> Some False then [path] else [])
     @ table_keys_rec defined array lst path"
| "table_keys_child defined array (Value v) path = []"

text \<open>The three queries on the active table take the table \<open>self.active_table\<close> refers to.\<close>

definition get_active_item_keys :: "table \<Rightarrow> key list" where
  "get_active_item_keys active_tbl = sort (item_keys_rec active_tbl [])"

definition get_active_item_prefixes :: "table \<Rightarrow> key list" where
  "get_active_item_prefixes active_tbl = sort (item_prefixes_rec active_tbl [])"

definition get_active_subtable_keys :: "table \<Rightarrow> key list" where
  "get_active_subtable_keys active_tbl = sort (subtable_keys_loop active_tbl)"

definition get_item_keys :: "Context \<Rightarrow> key list" where
  "get_item_keys ctx = sort (item_keys_rec (data ctx) [])"

definition get_table_keys :: "Context \<Rightarrow> bool option \<Rightarrow> bool option \<Rightarrow> key list" where
  "get_table_keys ctx defined array = sort (table_keys_rec defined array (data ctx) [])"

subsection \<open>Operations\<close>

text \<open>
  \<open>_make_subtable(tbl, key, dotted)\<close> returns a reference to the subtable at \<open>key\<close>,
  which its caller then changes. \<open>make_subtable tbl key dotted f\<close> is \<open>tbl\<close> after the
  call and after the caller's change \<open>f\<close> of the table the call returned.
\<close>

fun make_subtable :: "table \<Rightarrow> key \<Rightarrow> bool \<Rightarrow> (table \<Rightarrow> error + table) \<Rightarrow> error + table" where
  "make_subtable tbl [] dotted f = f tbl"
| "make_subtable tbl (p # ps) dotted f =
     (let tbl1 = (if map_of tbl p = None then AList.update p (Table dotted dotted []) tbl
                  else tbl)
      in case map_of tbl1 p of
           Some (Table d dt elems) \<Rightarrow>
             (case make_subtable elems ps dotted f of
                Inl e \<Rightarrow> Inl e
              | Inr elems' \<Rightarrow> Inr (AList.update p (Table d dt elems') tbl1))
         | Some (TableArray init lst) \<Rightarrow>
             (case make_subtable lst ps dotted f of
                Inl e \<Rightarrow> Inl e
              | Inr lst' \<Rightarrow> Inr (AList.update p (TableArray init lst') tbl1))
         | _ \<Rightarrow> Inl AssertionError)"

text \<open>What \<open>open_table\<close> does to the table that holds the last segment \<open>p\<close>.\<close>

definition open_table_last :: "pystr \<Rightarrow> table \<Rightarrow> error + table" where
  "open_table_last p tbl =
     (let tbl1 = (if map_of tbl p = None then AList.update p (Table False False []) tbl
                  else tbl)
      in case map_of tbl1 p of
           Some (Table d dt elems) \<Rightarrow>
             if d then Inl AssertionError
             else if dt then Inl AssertionError
             else Inr (AList.update p (Table True dt elems) tbl1)
         | _ \<Rightarrow> Inl AssertionError)"

definition open_table :: "bool \<Rightarrow> key \<Rightarrow> Context \<Rightarrow> error + Context" where
  "open_table debug key ctx0 =
     (let ctx = debug_print debug (PrintOpenTable key) ctx0 in
      if key = [] then Inl IndexError
      else case make_subtable (data ctx) (butlast key) False (open_table_last (last key)) of
             Inl e \<Rightarrow> Inl e
           | Inr d \<Rightarrow> Inr (ctx\<lparr>data := d, active := key\<rparr>))"

text \<open>What \<open>open_table_array\<close> does to the table that holds the last segment \<open>p\<close>.\<close>

definition open_table_array_last :: "pystr \<Rightarrow> table \<Rightarrow> error + table" where
  "open_table_array_last p tbl =
     (case map_of tbl p of
        None \<Rightarrow> Inr (AList.update p (TableArray [] []) tbl)
      | Some (TableArray init lst) \<Rightarrow> Inr (AList.update p (TableArray (init @ [lst]) []) tbl)
      | _ \<Rightarrow> Inl AssertionError)"

definition open_table_array :: "bool \<Rightarrow> key \<Rightarrow> Context \<Rightarrow> error + Context" where
  "open_table_array debug key ctx0 =
     (let ctx = debug_print debug (PrintOpenArray key) ctx0 in
      if key = [] then Inl IndexError
      else case make_subtable (data ctx) (butlast key) False (open_table_array_last (last key)) of
             Inl e \<Rightarrow> Inl e
           | Inr d \<Rightarrow> Inr (ctx\<lparr>data := d, active := key\<rparr>))"

text \<open>What \<open>assign\<close> does to the table that holds the last segment \<open>p\<close>.\<close>

definition assign_last :: "pystr \<Rightarrow> toml_value \<Rightarrow> table \<Rightarrow> error + table" where
  "assign_last p v tbl =
     (if map_of tbl p \<noteq> None then Inl AssertionError else Inr (AList.update p (Value v) tbl))"

definition assign :: "bool \<Rightarrow> key \<Rightarrow> toml_value \<Rightarrow> Context \<Rightarrow> error + Context" where
  "assign debug key v ctx0 =
     (let ctx = debug_print debug (PrintAssign key v) ctx0 in
      if key = [] then Inl IndexError
      else case update_at (active ctx)
                  (\<lambda>tbl. make_subtable tbl (butlast key) True (assign_last (last key) v))
                  (data ctx) of
             Inl e \<Rightarrow> Inl e
           | Inr d \<Rightarrow> Inr (ctx\<lparr>data := d\<rparr>))"

subsection \<open>The finished model\<close>

fun simplify_tables :: "table \<Rightarrow> (pystr \<times> toml_value) list \<Rightarrow> (pystr \<times> toml_value) list"
  and simplify_child :: "child \<Rightarrow> toml_value"
  and simplify_elems :: "table list \<Rightarrow> toml_value list" where
  "simplify_tables [] d = d"
| "simplify_tables ((k, v) # rest) d = simplify_tables rest (AList.update k (simplify_child v) d)"
| "simplify_child (Table df dt elems) = VDict (simplify_tables elems [])"
| "simplify_child (TableArray init lst) =
     VList (simplify_elems init @ [VDict (simplify_tables lst [])])"
| "simplify_child (Value v) = v"
| "simplify_elems [] = []"
| "simplify_elems (t # ts) = VDict (simplify_tables t []) # simplify_elems ts"

definition get_data :: "Context \<Rightarrow> (pystr \<times> toml_value) list" where
  "get_data ctx = simplify_tables (data ctx) []"

section \<open>Arrays, inline tables and values\<close>

text \<open>
  What a generator that may raise and may not return gives back: \<open>None\<close> when the fuel
  is spent, \<open>Some (Inl e)\<close> for the exception \<open>e\<close>, \<open>Some (Inr (x, g))\<close> for the result
  \<open>x\<close> and the random source that is left.

  \<open>_gen_array\<close> and \<open>_gen_inline_table\<close> call \<open>_gen_val\<close>, which calls them: they take
  the value generator as the argument \<open>gen_val\<close>, and \<open>gen_val\<close> below passes itself with
  one unit of fuel less.
\<close>

type_synonym 'a run = "(error + ('a \<times> rng)) option"

fun gen_array_loop ::
  "(rng \<Rightarrow> (pystr \<times> toml_value) run) \<Rightarrow> nat list \<Rightarrow> pystr list \<Rightarrow> toml_value list \<Rightarrow> rng
    \<Rightarrow> (pystr list \<times> toml_value list) run" where
  "gen_array_loop gen_val [] parts val g = Some (Inr ((parts, val), g))"
| "gen_array_loop gen_val (i # is) parts val g =
     (case (if i > 0 then (case gen_ws_comment_newline g of (w, g1) \<Rightarrow> (parts @ [w, lit '',''], g1))
            else (parts, g)) of (parts1, g2) \<Rightarrow>
      case gen_ws_comment_newline g2 of (w2, g3) \<Rightarrow>
        (case gen_val g3 of
           None \<Rightarrow> None
         | Some (Inl e) \<Rightarrow> Some (Inl e)
         | Some (Inr ((s, v), g4)) \<Rightarrow>
             gen_array_loop gen_val is (parts1 @ [w2, s]) (val @ [v]) g4))"

definition gen_array ::
  "(rng \<Rightarrow> (pystr \<times> toml_value) run) \<Rightarrow> rng \<Rightarrow> (pystr \<times> toml_value) run" where
  "gen_array gen_val g =
     (case rand_exp 2 0 10 g of (n, g1) \<Rightarrow>
        (case gen_array_loop gen_val [0..<n] [] [] g1 of
           None \<Rightarrow> None
         | Some (Inl e) \<Rightarrow> Some (Inl e)
         | Some (Inr ((parts, val), g2)) \<Rightarrow>
             (case (if n > 0 then
                      (case rng_random g2 of (u, g3) \<Rightarrow>
                         if u < 0.5 then
                           (case gen_ws_comment_newline g3 of (w, g4) \<Rightarrow>
                              (parts @ [w, lit '',''], g4))
                         else (parts, g3))
                    else (parts, g2)) of (parts1, g5) \<Rightarrow>
              case gen_ws_comment_newline g5 of (w, g6) \<Rightarrow>
                Some (Inr ((lit ''['' @ concat (parts1 @ [w]) @ lit '']'', VList val), g6)))))"

text \<open>
  The walk of \<open>_gen_inline_table\<close> from \<open>tbl\<close> along \<open>key[:-1]\<close>, and the caller's change
  \<open>f\<close> of the dictionary it ends at. A child on the way that is not a dictionary raises
  \<open>TypeError\<close> at the next use of \<open>subtbl\<close>.
\<close>

fun inline_walk ::
  "(pystr \<times> toml_value) list \<Rightarrow> key
    \<Rightarrow> ((pystr \<times> toml_value) list \<Rightarrow> error + (pystr \<times> toml_value) list)
    \<Rightarrow> error + (pystr \<times> toml_value) list" where
  "inline_walk subtbl [] f = f subtbl"
| "inline_walk subtbl (p # ps) f =
     (let subtbl1 = (if map_of subtbl p = None then AList.update p (VDict []) subtbl
                     else subtbl)
      in case map_of subtbl1 p of
           Some (VDict d) \<Rightarrow>
             (case inline_walk d ps f of
                Inl e \<Rightarrow> Inl e
              | Inr d' \<Rightarrow> Inr (AList.update p (VDict d') subtbl1))
         | _ \<Rightarrow> Inl TypeError)"

definition inline_insert ::
  "key \<Rightarrow> toml_value \<Rightarrow> (pystr \<times> toml_value) list \<Rightarrow> error + (pystr \<times> toml_value) list" where
  "inline_insert key v tbl =
     (if key = [] then Inl IndexError
      else inline_walk tbl (butlast key) (\<lambda>subtbl. Inr (AList.update (last key) v subtbl)))"

fun add_item_prefixes :: "key \<Rightarrow> nat list \<Rightarrow> key list \<Rightarrow> key list" where
  "add_item_prefixes key [] item_prefixes = item_prefixes"
| "add_item_prefixes key (i # is) item_prefixes =
     add_item_prefixes key is
       (if take i key \<notin> set item_prefixes then item_prefixes @ [take i key] else item_prefixes)"

fun gen_inline_table_loop ::
  "nat \<Rightarrow> (rng \<Rightarrow> (pystr \<times> toml_value) run) \<Rightarrow> nat list \<Rightarrow> pystr list
    \<Rightarrow> (pystr \<times> toml_value) list \<Rightarrow> key list \<Rightarrow> key list \<Rightarrow> rng
    \<Rightarrow> (pystr list \<times> (pystr \<times> toml_value) list) run" where
  "gen_inline_table_loop fuel gen_val [] parts tbl item_keys item_prefixes g =
     Some (Inr ((parts, tbl), g))"
| "gen_inline_table_loop fuel gen_val (i # is) parts tbl item_keys item_prefixes g =
     (case gen_key fuel item_keys (item_keys @ item_prefixes) item_prefixes [] g of
        None \<Rightarrow> None
      | Some ((key_str, key), g1) \<Rightarrow>
         (case gen_val g1 of
            None \<Rightarrow> None
          | Some (Inl e) \<Rightarrow> Some (Inl e)
          | Some (Inr ((val_str, v), g2)) \<Rightarrow>
             (case (if i > 0 then (case gen_ws g2 of (w, g3) \<Rightarrow> (parts @ [w, lit '',''], g3))
                    else (parts, g2)) of (parts1, g4) \<Rightarrow>
              case gen_ws g4 of (w1, g5) \<Rightarrow>
              case gen_ws g5 of (w2, g6) \<Rightarrow>
              case gen_ws g6 of (w3, g7) \<Rightarrow>
                (case inline_insert key v tbl of
                   Inl e \<Rightarrow> Some (Inl e)
                 | Inr tbl' \<Rightarrow>
                     gen_inline_table_loop fuel gen_val is
                       (parts1 @ [w1, key_str, w2, lit ''='', w3, val_str]) tbl'
                       (item_keys @ [key])
                       (add_item_prefixes key [1..<length key] item_prefixes) g7))))"

definition gen_inline_table ::
  "nat \<Rightarrow> (rng \<Rightarrow> (pystr \<times> toml_value) run) \<Rightarrow> rng \<Rightarrow> (pystr \<times> toml_value) run" where
  "gen_inline_table fuel gen_val g =
     (case rand_exp 2 0 10 g of (n, g1) \<Rightarrow>
        (case gen_inline_table_loop fuel gen_val [0..<n] [] [] [] [] g1 of
           None \<Rightarrow> None
         | Some (Inl e) \<Rightarrow> Some (Inl e)
         | Some (Inr ((parts, tbl), g2)) \<Rightarrow>
             (case gen_ws g2 of (w, g3) \<Rightarrow>
                Some (Inr ((lit ''{'' @ concat (parts @ [w]) @ lit ''}'', VDict tbl), g3)))))"

datatype val_form =
  GenString | GenBoolean | GenInteger | GenFloat | GenArray | GenInlineTable | GenDateTime

text \<open>
  \<open>_gen_val\<close>. Arrays and inline tables nest to any depth, so the recursion takes fuel:
  \<open>None\<close> is a run that nests deeper than the fuel, or one of whose loops spends it.
\<close>

primrec gen_val :: "nat \<Rightarrow> rng \<Rightarrow> (pystr \<times> toml_value) run" where
  "gen_val 0 = (\<lambda>g. None)"
| "gen_val (Suc fuel) = (\<lambda>g.
     case choice [GenString, GenBoolean, GenInteger, GenFloat, GenArray, GenInlineTable,
                  GenDateTime] g of (func, g1) \<Rightarrow>
       (case func of
          GenString \<Rightarrow>
            (case gen_string fuel g1 of
               None \<Rightarrow> None
             | Some ((s, v), g2) \<Rightarrow> Some (Inr ((s, VStr v), g2)))
        | GenBoolean \<Rightarrow> (case gen_boolean g1 of ((s, v), g2) \<Rightarrow> Some (Inr ((s, VBool v), g2)))
        | GenInteger \<Rightarrow> (case gen_integer g1 of ((s, v), g2) \<Rightarrow> Some (Inr ((s, VInt v), g2)))
        | GenFloat \<Rightarrow> (case gen_float g1 of ((s, v), g2) \<Rightarrow> Some (Inr ((s, VFloat v), g2)))
        | GenArray \<Rightarrow> gen_array (gen_val fuel) g1
        | GenInlineTable \<Rightarrow> gen_inline_table fuel (gen_val fuel) g1
        | GenDateTime \<Rightarrow> Some (Inr (gen_date_time g1))))"

section \<open>Expressions and the document\<close>

definition gen_keyval :: "bool \<Rightarrow> nat \<Rightarrow> Context \<Rightarrow> rng \<Rightarrow> (pystr \<times> Context) run" where
  "gen_keyval debug fuel ctx g =
     (case active_table ctx of
        None \<Rightarrow> Some (Inl StaleActiveTable)
      | Some active_tbl \<Rightarrow>
         (let item_keys = get_active_item_keys active_tbl;
              item_prefixes = get_active_item_prefixes active_tbl;
              table_keys = get_active_subtable_keys active_tbl
          in case gen_key fuel (item_keys @ table_keys)
                    (item_keys @ item_prefixes @ table_keys) item_prefixes [] g of
               None \<Rightarrow> None
             | Some ((key_str, key), g1) \<Rightarrow>
                (case gen_val fuel g1 of
                   None \<Rightarrow> None
                 | Some (Inl e) \<Rightarrow> Some (Inl e)
                 | Some (Inr ((val_str, val), g2)) \<Rightarrow>
                    (case gen_ws g2 of (ws1, g3) \<Rightarrow>
                     case gen_ws g3 of (ws2, g4) \<Rightarrow>
                       (case assign debug key val ctx of
                          Inl e \<Rightarrow> Some (Inl e)
                        | Inr ctx' \<Rightarrow>
                            Some (Inr ((key_str @ ws1 @ lit ''='' @ ws2 @ val_str, ctx'), g4)))))))"

definition gen_table :: "bool \<Rightarrow> nat \<Rightarrow> Context \<Rightarrow> rng \<Rightarrow> (pystr \<times> Context) run" where
  "gen_table debug fuel ctx g =
     (case randint 0 1 g of (b, g0) \<Rightarrow>
        if b > 0 then
          (let item_keys = get_item_keys ctx;
               table_keys = get_table_keys ctx None (Some False);
               array_keys = get_table_keys ctx None (Some True)
           in case gen_key fuel item_keys (item_keys @ table_keys)
                     (table_keys @ array_keys) array_keys g0 of
                None \<Rightarrow> None
              | Some ((key_str, key), g1) \<Rightarrow>
                 (case open_table_array debug key ctx of
                    Inl e \<Rightarrow> Some (Inl e)
                  | Inr ctx' \<Rightarrow>
                     (case gen_ws g1 of (ws1, g2) \<Rightarrow>
                      case gen_ws g2 of (ws2, g3) \<Rightarrow>
                        Some (Inr ((lit ''[['' @ ws1 @ key_str @ ws2 @ lit '']]'', ctx'), g3)))))
        else
          (let item_keys = get_item_keys ctx;
               implicit_table_keys = get_table_keys ctx (Some False) (Some False);
               defined_table_keys = get_table_keys ctx (Some True) (Some False);
               array_keys = get_table_keys ctx None (Some True)
           in case gen_key fuel item_keys (item_keys @ defined_table_keys @ array_keys)
                     (implicit_table_keys @ defined_table_keys) implicit_table_keys g0 of
                None \<Rightarrow> None
              | Some ((key_str, key), g1) \<Rightarrow>
                 (case open_table debug key ctx of
                    Inl e \<Rightarrow> Some (Inl e)
                  | Inr ctx' \<Rightarrow>
                     (case gen_ws g1 of (ws1, g2) \<Rightarrow>
                      case gen_ws g2 of (ws2, g3) \<Rightarrow>
                        Some (Inr ((lit ''['' @ ws1 @ key_str @ ws2 @ lit '']'', ctx'), g3))))))"

definition gen_expression :: "bool \<Rightarrow> nat \<Rightarrow> Context \<Rightarrow> rng \<Rightarrow> (pystr \<times> Context) run" where
  "gen_expression debug fuel ctx g =
     (case gen_ws g of (doc, g1) \<Rightarrow>
      case rng_random g1 of (r, g2) \<Rightarrow>
        (case (if r < 0.7 then
                 (case gen_keyval debug fuel ctx g2 of
                    None \<Rightarrow> None
                  | Some (Inl e) \<Rightarrow> Some (Inl e)
                  | Some (Inr ((s, ctx'), g3)) \<Rightarrow>
                      (case gen_ws g3 of (w, g4) \<Rightarrow> Some (Inr ((doc @ s @ w, ctx'), g4))))
               else if r < 0.7 + 0.1 then
                 (case gen_table debug fuel ctx g2 of
                    None \<Rightarrow> None
                  | Some (Inl e) \<Rightarrow> Some (Inl e)
                  | Some (Inr ((s, ctx'), g3)) \<Rightarrow>
                      (case gen_ws g3 of (w, g4) \<Rightarrow> Some (Inr ((doc @ s @ w, ctx'), g4))))
               else Some (Inr ((doc, ctx), g2))) of
           None \<Rightarrow> None
         | Some (Inl e) \<Rightarrow> Some (Inl e)
         | Some (Inr ((doc1, ctx1), g5)) \<Rightarrow>
             (case rng_random g5 of (u, g6) \<Rightarrow>
                if u < 0.5 then
                  (case gen_comment g6 of (c, g7) \<Rightarrow> Some (Inr ((doc1 @ c, ctx1), g7)))
                else Some (Inr ((doc1, ctx1), g6)))))"

text \<open>The \<open>for i in range(num_expressions)\<close> loop of \<open>gen_toml\<close>.\<close>

fun gen_toml_loop ::
  "bool \<Rightarrow> nat \<Rightarrow> nat list \<Rightarrow> Context \<Rightarrow> pystr list \<Rightarrow> rng
    \<Rightarrow> (pystr list \<times> Context) run" where
  "gen_toml_loop debug fuel [] ctx doc g = Some (Inr ((doc, ctx), g))"
| "gen_toml_loop debug fuel (i # is) ctx doc g =
     (case (if i > 0 then (case gen_newline g of (eol, g1) \<Rightarrow> (doc @ [eol], g1))
            else (doc, g)) of (doc1, g2) \<Rightarrow>
        (case gen_expression debug fuel ctx g2 of
           None \<Rightarrow> None
         | Some (Inl e) \<Rightarrow> Some (Inl e)
         | Some (Inr ((expr, ctx'), g3)) \<Rightarrow>
             gen_toml_loop debug fuel is ctx' (doc1 @ [expr]) g3))"

definition MAX_EXPRESSIONS :: int where
  "MAX_EXPRESSIONS = 200"

text \<open>
  \<open>gen_toml\<close>: the document and the data of a generator whose random source is \<open>g\<close>,
  run with the module flag \<open>_DEBUG\<close> set to \<open>debug\<close>; with them, what the run has
  printed.
\<close>

definition gen_toml ::
  "bool \<Rightarrow> nat \<Rightarrow> rng
    \<Rightarrow> (error + ((pystr \<times> (pystr \<times> toml_value) list) \<times> debug_line list)) option" where
  "gen_toml debug fuel g =
     (case randint 1 MAX_EXPRESSIONS g of (num_expressions, g1) \<Rightarrow>
        (case gen_toml_loop debug fuel [0..<nat num_expressions] Context_init [] g1 of
           None \<Rightarrow> None
         | Some (Inl e) \<Rightarrow> Some (Inl e)
         | Some (Inr ((doc, ctx), g2)) \<Rightarrow> Some (Inr ((concat doc, get_data ctx), printed ctx))))"

section \<open>Notions of the specification\<close>

text \<open>
  The grammar rule \<open>digit ("_" digit)*\<close> for the digits of a number: a digit first and
  last, and no two underscores in a row. A digit is a hexadecimal digit of either case.
\<close>

definition is_hexdig :: "nat \<Rightarrow> bool" where
  "is_hexdig c \<longleftrightarrow> (0x30 \<le> c \<and> c \<le> 0x39) \<or> (0x61 \<le> c \<and> c \<le> 0x66) \<or> (0x41 \<le> c \<and> c \<le> 0x46)"


text \<open>
  Runs of a quote character \<open>q\<close> in the body of a multi-line string. The scan keeps the
  length of the run of \<open>q\<close> that ends at the current position and whether a backslash
  stands right before that run. It fails at a run of four, and at a run of three unless
  escapes count (\<open>esc_ok\<close>) and the run starts right after a backslash.
\<close>

fun quote_scan :: "nat \<Rightarrow> bool \<Rightarrow> nat \<times> bool \<Rightarrow> pystr \<Rightarrow> (nat \<times> bool) option" where
  "quote_scan q esc_ok st [] = Some st"
| "quote_scan q esc_ok (k, e) (c # cs) =
     (if c = q then
        (if k + 1 > 3 \<or> (k + 1 = 3 \<and> \<not> (esc_ok \<and> e)) then None
         else quote_scan q esc_ok (k + 1, e) cs)
      else quote_scan q esc_ok (0, c = 0x5C) cs)"

text \<open>
  A piece that does not start a run of quotes: after it the scan is outside a run, or in
  a run of one that starts after a backslash (the piece ends with an escaped quote).
\<close>

definition closes_quotes :: "nat \<Rightarrow> pystr \<Rightarrow> bool" where
  "closes_quotes q s \<longleftrightarrow>
     (\<forall>st. \<exists>j e. quote_scan q True st s = Some (j, e) \<and> (j = 0 \<or> (j = 1 \<and> e)))"

text \<open>
  Reading a key back, as a TOML parser does. \<open>decode_basic\<close> decodes the body of a
  basic string: a character of the basic-unescaped set stands for itself, and a
  backslash starts one of the escape sequences \<open>\b \t \n \f \r \" \\\<close>, \<open>\uXXXX\<close> and
  \<open>\UXXXXXXXX\<close>. \<open>decode_simple_key\<close> reads a bare key, a literal string or a basic
  string; \<open>None\<close> is a text that is none of them.
\<close>

definition hexval :: "nat \<Rightarrow> nat option" where
  "hexval c =
     (if 0x30 \<le> c \<and> c \<le> 0x39 then Some (c - 0x30)
      else if 0x61 \<le> c \<and> c \<le> 0x66 then Some (c - 0x61 + 10)
      else if 0x41 \<le> c \<and> c \<le> 0x46 then Some (c - 0x41 + 10)
      else None)"

fun hexnum :: "nat \<Rightarrow> pystr \<Rightarrow> nat option" where
  "hexnum acc [] = Some acc"
| "hexnum acc (c # cs) = (case hexval c of None \<Rightarrow> None | Some d \<Rightarrow> hexnum (16 * acc + d) cs)"

definition escape_value :: "nat \<Rightarrow> nat option" where
  "escape_value e =
     (if e = of_char CHR ''b'' then Some 0x08
      else if e = of_char CHR ''t'' then Some 0x09
      else if e = of_char CHR ''n'' then Some 0x0A
      else if e = of_char CHR ''f'' then Some 0x0C
      else if e = of_char CHR ''r'' then Some 0x0D
      else if e = 0x22 then Some 0x22
      else if e = 0x5C then Some 0x5C
      else None)"

fun decode_basic :: "pystr \<Rightarrow> pystr option" where
  "decode_basic [] = Some []"
| "decode_basic (c # cs) =
     (if c = 0x5C then
        (case cs of
           [] \<Rightarrow> None
         | e # r \<Rightarrow>
             if e = of_char CHR ''u'' then
               (case hexnum 0 (take 4 r) of
                  None \<Rightarrow> None
                | Some n \<Rightarrow>
                    if length r < 4 then None else map_option (Cons n) (decode_basic (drop 4 r)))
             else if e = of_char CHR ''U'' then
               (case hexnum 0 (take 8 r) of
                  None \<Rightarrow> None
                | Some n \<Rightarrow>
                    if length r < 8 then None else map_option (Cons n) (decode_basic (drop 8 r)))
             else
               (case escape_value e of
                  None \<Rightarrow> None
                | Some n \<Rightarrow> map_option (Cons n) (decode_basic r)))
      else if is_basic_unescaped c then map_option (Cons c) (decode_basic cs)
      else None)"

definition decode_simple_key :: "pystr \<Rightarrow> pystr option" where
  "decode_simple_key r =
     (if r \<noteq> [] \<and> hd r = 0x22 then
        (if 2 \<le> length r \<and> last r = 0x22 then decode_basic (butlast (tl r)) else None)
      else if r \<noteq> [] \<and> hd r = 0x27 then
        (if 2 \<le> length r \<and> last r = 0x27 \<and> list_all is_literal_char (butlast (tl r))
         then Some (butlast (tl r)) else None)
      else if r \<noteq> [] \<and> list_all is_unquoted_key_char r then Some r
      else None)"

text \<open>
  What a key names in the tree: the child reached by walking from a table along the
  key, through the last element of every table array, as \<open>_make_subtable\<close> walks.
\<close>

fun node_at :: "key \<Rightarrow> table \<Rightarrow> child option" where
  "node_at [] tbl = None"
| "node_at [p] tbl = map_of tbl p"
| "node_at (p # q # ps) tbl =
     (case map_of tbl p of
        Some (Table d dt elems) \<Rightarrow> node_at (q # ps) elems
      | Some (TableArray init lst) \<Rightarrow> node_at (q # ps) lst
      | _ \<Rightarrow> None)"

definition is_value_node :: "child option \<Rightarrow> bool" where
  "is_value_node c = (case c of Some (Value v) \<Rightarrow> True | _ \<Rightarrow> False)"

definition is_table_node :: "child option \<Rightarrow> bool" where
  "is_table_node c = (case c of Some (Table d dt elems) \<Rightarrow> True | _ \<Rightarrow> False)"

definition is_array_node :: "child option \<Rightarrow> bool" where
  "is_array_node c = (case c of Some (TableArray init lst) \<Rightarrow> True | _ \<Rightarrow> False)"

text \<open>All the elements of the table array a key names, the last one included.\<close>

definition array_elems :: "child option \<Rightarrow> table list" where
  "array_elems c = (case c of Some (TableArray init lst) \<Rightarrow> init @ [lst] | _ \<Rightarrow> [])"

text \<open>
  Sets of code points. \<open>scalar_no_control\<close> is the tab and the Unicode scalar values from
  U+0020 on (no surrogate, no other control character below U+0020); \<open>document_char\<close>
  adds the two characters of a line end.
\<close>

definition scalar_no_control :: "nat \<Rightarrow> bool" where
  "scalar_no_control c \<longleftrightarrow>
     c = 0x09 \<or> (0x20 \<le> c \<and> c \<le> 0xD7FF) \<or> (0xE000 \<le> c \<and> c \<le> 0x10FFFF)"

definition document_char :: "nat \<Rightarrow> bool" where
  "document_char c \<longleftrightarrow> scalar_no_control c \<or> c = 0x0A \<or> c = 0x0D"

section \<open>Invariants of the tree of tables\<close>

text \<open>
  The children a header can create or walk through without harm: sub-tables that are not
  dotted, and table arrays.
\<close>

fun header_child :: "child \<Rightarrow> bool" where
  "header_child (Value v) = False"
| "header_child (Table d dt elems) = (\<not> dt)"
| "header_child (TableArray init lst) = True"

text \<open>
  What assignments build: values, and dotted tables (which are defined) that hold
  nothing but values and such tables.
\<close>

fun dotted_child :: "child \<Rightarrow> bool"
  and dotted_table :: "table \<Rightarrow> bool" where
  "dotted_child (Value v) = True"
| "dotted_child (Table d dt elems) = (d \<and> dt \<and> dotted_table elems)"
| "dotted_child (TableArray init lst) = False"
| "dotted_table [] = True"
| "dotted_table ((p, c) # rest) = (dotted_child c \<and> dotted_table rest)"

text \<open>
  The invariant of every table a walk can reach (through the last element of each table
  array): no key occurs twice, a dotted table is defined, and a table that is not
  defined holds only children made by headers.
\<close>

fun wf_child :: "child \<Rightarrow> bool"
  and wf_table :: "table \<Rightarrow> bool" where
  "wf_child (Value v) = True"
| "wf_child (Table d dt elems) =
     ((dt \<longrightarrow> d) \<and> (\<not> d \<longrightarrow> list_all (\<lambda>e. header_child (snd e)) elems) \<and> wf_table elems)"
| "wf_child (TableArray init lst) = wf_table lst"
| "wf_table [] = True"
| "wf_table ((p, c) # rest) = (p \<notin> fst ` set rest \<and> wf_child c \<and> wf_table rest)"

text \<open>
  The invariant of the active table: each child was made by a header before the table
  became active, or by an assignment since.
\<close>

definition active_ok :: "table \<Rightarrow> bool" where
  "active_ok tbl = list_all (\<lambda>e. header_child (snd e) \<or> dotted_child (snd e)) tbl"

text \<open>
  The key \<open>active\<close> leads to a table with that invariant, and the table it leads to is
  the root, an element of a table array, or the elements of a table that is defined.
\<close>

fun active_path :: "bool \<Rightarrow> key \<Rightarrow> table \<Rightarrow> bool" where
  "active_path d [] tbl = (d \<and> active_ok tbl)"
| "active_path d (p # ps) tbl =
     (case map_of tbl p of
        Some (Table d' dt elems) \<Rightarrow> active_path d' ps elems
      | Some (TableArray init lst) \<Rightarrow> active_path True ps lst
      | _ \<Rightarrow> False)"

definition context_ok :: "Context \<Rightarrow> bool" where
  "context_ok ctx \<longleftrightarrow> wf_table (data ctx) \<and> active_path True (active ctx) (data ctx)"

text \<open>
  A header's walk along a key succeeds: it meets no value before the last segment, and
  what the last segment names satisfies \<open>P\<close> (\<open>None\<close> when it names nothing).
\<close>

fun walk_ok :: "(child option \<Rightarrow> bool) \<Rightarrow> key \<Rightarrow> table \<Rightarrow> bool" where
  "walk_ok P [] tbl = False"
| "walk_ok P [p] tbl = P (map_of tbl p)"
| "walk_ok P (p # q # qs) tbl =
     (case map_of tbl p of
        None \<Rightarrow> P None
      | Some (Table d dt elems) \<Rightarrow> walk_ok P (q # qs) elems
      | Some (TableArray init lst) \<Rightarrow> walk_ok P (q # qs) lst
      | Some (Value v) \<Rightarrow> False)"

definition table_target :: "child option \<Rightarrow> bool" where
  "table_target c = (case c of None \<Rightarrow> True | Some (Table d dt elems) \<Rightarrow> \<not> d | _ \<Rightarrow> False)"

definition array_target :: "child option \<Rightarrow> bool" where
  "array_target c = (case c of None \<Rightarrow> True | Some (TableArray init lst) \<Rightarrow> True | _ \<Rightarrow> False)"

text \<open>
  The invariant of the loop of \<open>_gen_inline_table\<close>, for the entries of the dictionary
  at \<open>path\<close>: the path of an entry is in \<open>item_keys\<close>, or it is in \<open>item_prefixes\<close> and the
  entry is a dictionary whose entries are like that again.
\<close>

fun inline_entry_ok :: "key list \<Rightarrow> key list \<Rightarrow> key \<Rightarrow> toml_value \<Rightarrow> bool"
  and inline_table_ok :: "key list \<Rightarrow> key list \<Rightarrow> key \<Rightarrow> (pystr \<times> toml_value) list \<Rightarrow> bool" where
  "inline_entry_ok item_keys item_prefixes path (VDict d) =
     (path \<in> set item_keys
      \<or> (path \<in> set item_prefixes \<and> inline_table_ok item_keys item_prefixes path d))"
| "inline_entry_ok item_keys item_prefixes path x = (path \<in> set item_keys)"
| "inline_table_ok item_keys item_prefixes path [] = True"
| "inline_table_ok item_keys item_prefixes path ((p, x) # rest) =
     (inline_entry_ok item_keys item_prefixes (path @ [p]) x
      \<and> inline_table_ok item_keys item_prefixes path rest)"

text \<open>What \<open>get_table_keys(defined, array)\<close> lists.\<close>

definition listed_table :: "bool option \<Rightarrow> bool option \<Rightarrow> child option \<Rightarrow> bool" where
  "listed_table defined array c =
     (case c of
        Some (Table d dt elems) \<Rightarrow> array \<noteq> Some True \<and> (defined = None \<or> defined = Some d)
      | Some (TableArray init lst) \<Rightarrow> array \<noteq> Some False
      | _ \<Rightarrow> False)"

section \<open>What a run returns, without what it has printed\<close>

definition forget_printed :: "Context \<Rightarrow> Context" where
  "forget_printed ctx = ctx\<lparr>printed := []\<rparr>"

definition forget_run :: "('a \<times> Context) run \<Rightarrow> ('a \<times> Context) run" where
  "forget_run r =
     (case r of
        None \<Rightarrow> None
      | Some (Inl e) \<Rightarrow> Some (Inl e)
      | Some (Inr ((s, ctx), g)) \<Rightarrow> Some (Inr ((s, forget_printed ctx), g)))"

section \<open>Verification: the random source\<close>

lemma randbelow_less: "0 < n \<Longrightarrow> fst (randbelow n g) < n"
  by (simp add: randbelow_def split: prod.splits)

lemma randint_range: "a \<le> b \<Longrightarrow> randint a b g = (x, g') \<Longrightarrow> a \<le> x \<and> x \<le> b"
  using randbelow_less [of "nat (b - a + 1)" g]
  by (auto simp: randint_def split: prod.splits)


lemma digits_base_small: "n < b \<Longrightarrow> digits_base b n = [0x30 + n]"
  by (simp add: digits_base.simps [of b n])

lemma digits_base_two: "2 \<le> b \<Longrightarrow> b \<le> n \<Longrightarrow> n < b * b \<Longrightarrow>
    digits_base b n = [0x30 + n div b, 0x30 + n mod b]"
  by (simp add: digits_base.simps [of b n] digits_base_small less_mult_imp_div_less)

lemma format_0d_2: "n < 100 \<Longrightarrow> format_0d 2 (int n) = [0x30 + n div 10, 0x30 + n mod 10]"
  by (cases "n < 10") (simp_all add: format_0d_def digits_base_small digits_base_two)

text \<open>
  Claim C2, as amended. A time zone is \<open>Z\<close> (UTC), chosen exactly when the first draw
  is below 0.2, or a numeric offset \<open>\<plusminus>HH:MM\<close> whose total minutes \<open>delta\<close> lie in
  the inclusive range from \<open>-(24*60-1)\<close> to \<open>24*60-1\<close>; the text is the sign (\<open>-\<close> for a
  negative offset, \<open>+\<close> otherwise) and the two-digit hours and minutes of \<open>\<bar>delta\<bar>\<close>.
  Zero is not excluded.
\<close>

theorem gen_timezone_offset_range:
  assumes "gen_timezone g = ((s, tz), g')"
  shows "(fst (rng_random g) < 0.2 \<and> s = lit ''Z'' \<and> tz = TzUTC) \<or>
         (\<not> fst (rng_random g) < 0.2 \<and>
          (\<exists>delta. tz = TzOffset delta \<and> - (24 * 60 - 1) \<le> delta \<and> delta \<le> 24 * 60 - 1 \<and>
             s = (if delta < 0 then lit ''-'' else lit ''+'')
                 @ [0x30 + nat \<bar>delta\<bar> div 60 div 10, 0x30 + nat \<bar>delta\<bar> div 60 mod 10]
                 @ lit '':''
                 @ [0x30 + nat \<bar>delta\<bar> mod 60 div 10, 0x30 + nat \<bar>delta\<bar> mod 60 mod 10]))"
proof (cases "fst (rng_random g) < 0.2")
  case True
  with assms show ?thesis
    by (auto simp: gen_timezone_def split: prod.splits)
next
  case False
  obtain r g1 where r: "rng_random g = (r, g1)" by (cases "rng_random g")
  obtain delta g2 where d: "randint (1 - 24 * 60) (24 * 60 - 1) g1 = (delta, g2)"
    by (cases "randint (1 - 24 * 60) (24 * 60 - 1) g1")
  from randint_range [OF _ d] have range: "- 1439 \<le> delta" "delta \<le> 1439" by simp_all
  define h where "h = nat \<bar>delta\<bar> div 60"
  define m where "m = nat \<bar>delta\<bar> mod 60"
  have hm: "h < 100" "m < 100" "\<bar>delta\<bar> div 60 = int h" "\<bar>delta\<bar> mod 60 = int m"
    using range by (auto simp: h_def m_def zdiv_int zmod_int)
  have tz: "tz = TzOffset delta"
    and s: "s = (if delta < 0 then lit ''-'' else lit ''+'')
                 @ format_0d 2 (\<bar>delta\<bar> div 60) @ lit '':'' @ format_0d 2 (\<bar>delta\<bar> mod 60)"
    using assms False r d by (auto simp: gen_timezone_def)
  from s have "s = (if delta < 0 then lit ''-'' else lit ''+'')
                 @ [0x30 + h div 10, 0x30 + h mod 10] @ lit '':'' @ [0x30 + m div 10, 0x30 + m mod 10]"
    by (simp only: hm(3,4) format_0d_2 [OF hm(1)] format_0d_2 [OF hm(2)])
  with False tz range show ?thesis
    unfolding h_def m_def by auto
qed

text \<open>
  Claim C2 as stated fails: \<open>randint(1 - 24 * 60, 24 * 60 - 1)\<close> can return 0, and the
  generator then emits the offset \<open>+00:00\<close>.
\<close>

theorem gen_timezone_zero_offset:
  "gen_timezone [2 ^ 52, 1439] = ((lit ''+00:00'', TzOffset 0), [])"
  by (simp add: gen_timezone_def rng_random_def randint_def randbelow_def format_0d_def
      digits_base.simps [of 10 0] lit_def)

theorem gen_timezone_offset_range_witness:
  "gen_timezone [2 ^ 52, 0] = ((lit ''-23:59'', TzOffset (- 1439)), [])
   \<and> \<not> fst (rng_random [2 ^ 52, 0]) < 0.2"
  using gen_timezone_offset_range [of "[2 ^ 52, 0]" "lit ''-23:59''" "TzOffset (- 1439)" "[]"]
  by (simp add: gen_timezone_def rng_random_def randint_def randbelow_def format_0d_def
      digits_base.simps [of 10 23] digits_base.simps [of 10 59] digits_base.simps [of 10 2] digits_base.simps [of 10 5] lit_def)

section \<open>Verification: integers\<close>

lemma choice_in_set: "xs \<noteq> [] \<Longrightarrow> choice xs g = (x, g') \<Longrightarrow> x \<in> set xs"
  using randbelow_less [of "length xs" g]
  by (auto simp: choice_def split: prod.splits)




lemma digits_base_digits:
  "2 \<le> b \<Longrightarrow> b \<le> 10 \<Longrightarrow> c \<in> set (digits_base b n) \<Longrightarrow> 0x30 \<le> c \<and> c \<le> 0x39"
proof (induction b n arbitrary: c rule: digits_base.induct)
  case (1 b n)
  show ?case
  proof (cases "n < b \<or> b < 2")
    case True
    with "1.prems" show ?thesis by (auto simp: digits_base.simps [of b n])
  next
    case False
    have "n mod b \<le> 9" using "1.prems" mod_less_divisor [of b n] by linarith
    with False "1.prems" "1.IH" show ?thesis
      by (auto simp: digits_base.simps [of b n])
  qed
qed

lemma digits_base_hexdig: "2 \<le> b \<Longrightarrow> b \<le> 10 \<Longrightarrow> list_all is_hexdig (digits_base b n)"
  using digits_base_digits [of b _ n] by (auto simp: list_all_iff is_hexdig_def)

lemma format_int_hexdig: "2 \<le> b \<Longrightarrow> b \<le> 10 \<Longrightarrow> 0 \<le> i \<Longrightarrow> list_all is_hexdig (format_int b i)"
  by (simp add: format_int_def digits_base_hexdig)


lemma rand_format_hex_loop_hexdig:
  "list_all is_hexdig s \<Longrightarrow> list_all is_hexdig (fst (rand_format_hex_loop val minwidth s g))"
proof (induction val minwidth s g rule: rand_format_hex_loop.induct)
  case (1 val minwidth s g)
  have m: "0 \<le> val mod 16" "val mod 16 < 16" by simp_all
  show ?case
  proof (cases "length s < minwidth \<or> val > 0")
    case False
    with "1.prems" show ?thesis by (simp add: rand_format_hex_loop.simps [of val minwidth s g])
  next
    case True
    show ?thesis
    proof (cases "val mod 16 < 10")
      case lt: True
      have "list_all is_hexdig (str_int (val mod 16) @ s)"
        using "1.prems" m format_int_hexdig [of 10 "val mod 16"] by (simp add: str_int_def)
      with "1.IH"(1) [OF True lt] True lt show ?thesis
        by (simp add: rand_format_hex_loop.simps [of val minwidth s g])
    next
      case ge: False
      have a: "is_hexdig (nat (0x61 + val mod 16 - 10))" and b: "is_hexdig (nat (0x41 + val mod 16 - 10))"
        using m ge by (auto simp: is_hexdig_def)
      show ?thesis
      proof (cases "fst (randint 0 1 g) = 0")
        case z: True
        from "1.IH"(2) [OF True ge z] a "1.prems" True ge z show ?thesis
          by (simp add: rand_format_hex_loop.simps [of val minwidth s g])
      next
        case nz: False
        from "1.IH"(3) [OF True ge nz] b "1.prems" True ge nz show ?thesis
          by (simp add: rand_format_hex_loop.simps [of val minwidth s g])
      qed
    qed
  qed
qed


lemma rand_format_hex_hexdig: "list_all is_hexdig (fst (rand_format_hex val minwidth g))"
  by (simp add: rand_format_hex_def rand_format_hex_loop_hexdig)
















section \<open>Verification: what the lexical generators produce\<close>

lemma gen_newline_cases: "gen_newline g = (nl, g') \<Longrightarrow> nl = [0x0A] \<or> nl = [0x0D, 0x0A]"
  using choice_in_set [of "[[0x0A], [0x0D, 0x0A]]" g nl g'] by (auto simp: gen_newline_def)

lemma length_accumulate [simp]: "length (accumulate acc ws) = length ws"
  by (induction ws arbitrary: acc) auto

lemma bisect_le: "bisect cs x \<le> length cs"
  by (simp add: bisect_def length_takeWhile_le)

lemma choices_subset:
  "length weights = length population \<Longrightarrow> population \<noteq> [] \<Longrightarrow>
   choices population weights k g = (xs, g') \<Longrightarrow> set xs \<subseteq> set population"
proof (induction k arbitrary: g xs g')
  case 0
  then show ?case by simp
next
  case (Suc k)
  obtain u g1 where u: "rng_random g = (u, g1)" by (cases "rng_random g")
  obtain ys g2 where ys: "choices population weights k g1 = (ys, g2)"
    by (cases "choices population weights k g1")
  let ?i = "bisect (butlast (accumulate 0 weights)) (u * last (accumulate 0 weights))"
  have "?i \<le> length (butlast (accumulate 0 weights))" by (rule bisect_le)
  with Suc.prems(1,2) have "?i < length population" by (cases population) auto
  then have "population ! ?i \<in> set population" by simp
  moreover from Suc.IH [OF Suc.prems(1,2) ys] have "set ys \<subseteq> set population" .
  ultimately show ?case using Suc.prems(3) u ys by (auto simp: Let_def)
qed

lemma choices_length: "choices population weights k g = (xs, g') \<Longrightarrow> length xs = k"
  by (induction k arbitrary: g xs g') (auto simp: Let_def split: prod.splits)

lemma gen_ws_chars: "gen_ws g = (ws, g') \<Longrightarrow> set ws \<subseteq> {0x09, 0x20}"
  using choices_subset [of "[1, 4]" "[0x09, 0x20 :: nat]"]
  by (fastforce simp: gen_ws_def split: prod.splits if_splits)

lemma randint_nat_range:
  "0 \<le> a \<Longrightarrow> a \<le> b \<Longrightarrow> randint a b g = (c, g') \<Longrightarrow> nat a \<le> nat c \<and> nat c \<le> nat b \<and> 0 \<le> c"
  using randint_range [of a b g c g'] by auto

text \<open>The document form and the value of a basic character.\<close>

lemma gen_basic_char_cases:
  assumes "gen_basic_char g = ((d, v), g')"
  shows "(\<exists>c. d = [c] \<and> v = [c] \<and> is_basic_unescaped c)
       \<or> (\<exists>c e. (c, e) \<in> set ESCAPE_CHARS \<and> d = 0x5C # e \<and> v = [c])
       \<or> (\<exists>c h. d = [0x5C, 0x75] @ h \<and> list_all is_hexdig h \<and> v = [c])
       \<or> (\<exists>c h. d = [0x5C, 0x55] @ h \<and> list_all is_hexdig h \<and> v = [c])"
proof -
  obtain r g1 where r: "rng_random g = (r, g1)" by (cases "rng_random g")
  consider (esc) "r < 0.5 * 0.1" | (uni) "\<not> r < 0.5 * 0.1" "r < 0.1" | (raw) "\<not> r < 0.5 * 0.1" "\<not> r < 0.1"
    by blast
  then show ?thesis
  proof cases
    case esc
    obtain i g2 where i: "randint 0 (int (length ESCAPE_CHARS) - 1) g1 = (i, g2)"
      by (cases "randint 0 (int (length ESCAPE_CHARS) - 1) g1")
    from randint_range [OF _ i] have "0 \<le> i" "i \<le> 6" by (simp_all add: ESCAPE_CHARS_def)
    then have "nat i < length ESCAPE_CHARS" by (simp add: ESCAPE_CHARS_def)
    then have "ESCAPE_CHARS ! nat i \<in> set ESCAPE_CHARS" by simp
    with assms r esc i show ?thesis
      by (auto simp: gen_basic_char_def split: prod.splits)
  next
    case uni
    from assms r uni show ?thesis
      using rand_format_hex_hexdig
      by (auto simp: gen_basic_char_def escape_u4_def escape_U8_def
          split: prod.splits if_splits dest!: arg_cong [where f = fst])
  next
    case raw
    obtain r' g2 where r': "rng_random g1 = (r', g2)" by (cases "rng_random g1")
    consider (a) "r' < 0.1" | (b) "\<not> r' < 0.1" "r' < 0.8"
      | (c) "\<not> r' < 0.1" "\<not> r' < 0.8" "r' < 0.9" | (d) "\<not> r' < 0.1" "\<not> r' < 0.8" "\<not> r' < 0.9"
      by blast
    then show ?thesis
    proof cases
      case a
      obtain c g3 where c: "randint 0x20 0x2F g2 = (c, g3)" by (cases "randint 0x20 0x2F g2")
      from randint_range [OF _ c] have "0x20 \<le> c" "c \<le> 0x2F" by simp_all
      then have "is_basic_unescaped (nat (if c = 0x22 then 0x09 else c))"
        by (auto simp: is_basic_unescaped_def)
      with assms r raw r' a c show ?thesis
        by (auto simp: gen_basic_char_def Let_def)
    next
      case b
      obtain c g3 where c: "randint 0x30 0x7E g2 = (c, g3)" by (cases "randint 0x30 0x7E g2")
      from randint_range [OF _ c] have "0x30 \<le> c" "c \<le> 0x7E" by simp_all
      then have "is_basic_unescaped (nat (if c = 0x5C then 0x41 else c))"
        by (auto simp: is_basic_unescaped_def)
      with assms r raw r' b c show ?thesis
        by (auto simp: gen_basic_char_def Let_def)
    next
      case c
      obtain x g3 where x: "randint 0x80 0xD7FF g2 = (x, g3)" by (cases "randint 0x80 0xD7FF g2")
      from randint_range [OF _ x] have "0x80 \<le> x" "x \<le> 0xD7FF" by simp_all
      then have "is_basic_unescaped (nat x)" by (auto simp: is_basic_unescaped_def)
      with assms r raw r' c x show ?thesis
        by (auto simp: gen_basic_char_def Let_def)
    next
      case d
      obtain x g3 where x: "randint 0xE000 0x10FFFF g2 = (x, g3)"
        by (cases "randint 0xE000 0x10FFFF g2")
      from randint_range [OF _ x] have "0xE000 \<le> x" "x \<le> 0x10FFFF" by simp_all
      then have "is_basic_unescaped (nat x)" by (auto simp: is_basic_unescaped_def)
      with assms r raw r' d x show ?thesis
        by (auto simp: gen_basic_char_def Let_def)
    qed
  qed
qed

lemma gen_literal_char_literal: "gen_literal_char g = (c, g') \<Longrightarrow> is_literal_char c"
proof -
  assume a: "gen_literal_char g = (c, g')"
  obtain r g1 where r: "rng_random g = (r, g1)" by (cases "rng_random g")
  have 1: "randint 0x20 0x2F g1 = (x, g2) \<Longrightarrow> is_literal_char (nat (if x = 0x27 then 0x09 else x))"
    for x g2 using randint_range [of "0x20" "0x2F" g1 x g2] by (auto simp: is_literal_char_def)
  have 2: "randint 0x30 0x7E g1 = (x, g2) \<Longrightarrow> is_literal_char (nat x)"
    for x g2 using randint_range [of "0x30" "0x7E" g1 x g2] by (auto simp: is_literal_char_def)
  have 3: "randint 0x80 0xD7FF g1 = (x, g2) \<Longrightarrow> is_literal_char (nat x)"
    for x g2 using randint_range [of "0x80" "0xD7FF" g1 x g2] by (auto simp: is_literal_char_def)
  have 4: "randint 0xE000 0x10FFFF g1 = (x, g2) \<Longrightarrow> is_literal_char (nat x)"
    for x g2 using randint_range [of "0xE000" "0x10FFFF" g1 x g2]
    by (auto simp: is_literal_char_def)
  from a r show ?thesis
    by (auto simp: gen_literal_char_def split: if_splits prod.splits dest: 1 2 3 4)
qed

section \<open>Verification: multi-line strings\<close>

subsection \<open>Evaluating \<open>rand_exp\<close>\<close>

lemma floor_ln_ratio:
  fixes a b :: real
  assumes "0 < b" "b < 1" "b ^ (n + 1) < a" "a \<le> b ^ n"
  shows "\<lfloor>ln a / ln b\<rfloor> = int n"
proof -
  have apos: "0 < a" using assms(1,3) by (meson less_trans zero_less_power)
  have lnb: "ln b < 0" using assms(1,2) by simp
  have "ln a \<le> ln (b ^ n)" using apos assms(4) by simp
  then have le: "ln a \<le> real n * ln b" using assms(1) by (simp add: ln_realpow)
  have lt: "ln (b ^ (n + 1)) < ln a"
    by (metis ln_less_cancel_iff zero_less_power assms(1,3) apos)
  have pw: "ln (b ^ (n + 1)) = real (n + 1) * ln b" by (rule ln_realpow)
  from lt have gt: "real (n + 1) * ln b < ln a" unfolding pw .
  from le lnb have 1: "real n \<le> ln a / ln b" by (simp add: le_divide_eq)
  from gt lnb have 2: "ln a / ln b < real n + 1" by (simp add: divide_less_eq algebra_simps)
  from 1 2 show ?thesis by (simp add: floor_eq_iff)
qed

lemma rand_exp_value:
  assumes "0 < mean"
    and "(mean / (1 + mean)) ^ (n + 1)
          < (mean / (1 + mean)) ^ minval
            - ((mean / (1 + mean)) ^ minval - (mean / (1 + mean)) ^ (maxval + 1))
              * (real (x mod 2 ^ 53) / 2 ^ 53)"
    and "(mean / (1 + mean)) ^ minval
            - ((mean / (1 + mean)) ^ minval - (mean / (1 + mean)) ^ (maxval + 1))
              * (real (x mod 2 ^ 53) / 2 ^ 53) \<le> (mean / (1 + mean)) ^ n"
    and "minval \<le> n" "n \<le> maxval"
  shows "rand_exp mean minval maxval (x # g) = (n, g)"
proof -
  define b where "b = mean / (1 + mean)"
  define u where "u = real (x mod 2 ^ 53) / 2 ^ 53"
  have b: "0 < b" "b < 1" "1 - 1 / (1 + mean) = b" using assms(1) by (simp_all add: b_def field_simps)
  define a where "a = b ^ minval - (b ^ minval - b ^ (maxval + 1)) * u"
  have fl: "\<lfloor>ln a / ln b\<rfloor> = int n"
    using assms(2,3) b(1,2) unfolding a_def b_def u_def by (intro floor_ln_ratio) simp_all
  have "uniform (1 - b ^ minval) (1 - b ^ (maxval + 1)) (x # g)
      = ((1 - b ^ minval) + ((1 - b ^ (maxval + 1)) - (1 - b ^ minval)) * u, g)"
    by (simp add: uniform_def rng_random_def u_def)
  also have "(1 - b ^ minval) + ((1 - b ^ (maxval + 1)) - (1 - b ^ minval)) * u = 1 - a"
    unfolding a_def by (simp add: algebra_simps)
  finally have un: "uniform (1 - b ^ minval) (1 - b ^ (maxval + 1)) (x # g) = (1 - a, g)" .
  have "rand_exp mean minval maxval (x # g)
      = (nat (max (int minval) (min (int maxval) \<lfloor>ln (1 - (1 - a)) / ln b\<rfloor>)), g)"
    unfolding rand_exp_def Let_def b(3) un by simp
  also have "\<dots> = (n, g)" using fl assms(4,5) by simp
  finally show ?thesis .
qed

subsection \<open>Scanning for runs of quotes\<close>

lemma quote_scan_append:
  "quote_scan q ok st (xs @ ys) =
     (case quote_scan q ok st xs of None \<Rightarrow> None | Some st' \<Rightarrow> quote_scan q ok st' ys)"
  by (induction xs arbitrary: st) (auto split: prod.splits)

lemma quote_scan_no_quote:
  "q \<notin> set s \<Longrightarrow> s \<noteq> [] \<Longrightarrow> quote_scan q ok st s = Some (0, last s = 0x5C)"
proof (induction s arbitrary: st)
  case Nil
  then show ?case by simp
next
  case (Cons c s)
  then show ?case by (cases st; cases s) auto
qed

lemma quote_scan_no_quote':
  "q \<notin> set s \<Longrightarrow> s \<noteq> [] \<Longrightarrow> \<exists>e. quote_scan q ok st s = Some (0, e)"
  by (simp add: quote_scan_no_quote)


subsection \<open>The pieces of a multi-line basic string\<close>

lemma closes_quotes_no_quote: "q \<notin> set s \<Longrightarrow> s \<noteq> [] \<Longrightarrow> closes_quotes q s"
  by (simp add: closes_quotes_def quote_scan_no_quote)

lemma hexdig_not_quote: "list_all is_hexdig h \<Longrightarrow> 0x22 \<notin> set h \<and> 0x27 \<notin> set h"
  by (auto simp: list_all_iff is_hexdig_def)

lemma gen_basic_char_piece:
  assumes "gen_basic_char g = ((d, v), g')"
  shows "d \<noteq> [] \<and> hd d \<noteq> 0x0A \<and> hd d \<noteq> 0x0D \<and> hd d \<noteq> 0x22 \<and> closes_quotes 0x22 d"
proof -
  from gen_basic_char_cases [OF assms]
  consider (raw) c where "d = [c]" "is_basic_unescaped c"
    | (esc) c e where "(c, e) \<in> set ESCAPE_CHARS" "d = 0x5C # e"
    | (u4) h where "d = [0x5C, 0x75] @ h" "list_all is_hexdig h"
    | (u8) h where "d = [0x5C, 0x55] @ h" "list_all is_hexdig h"
    by blast
  then show ?thesis
  proof cases
    case raw
    then have "0x22 \<notin> set d" "d \<noteq> []" by (auto simp: is_basic_unescaped_def)
    from closes_quotes_no_quote [OF this] raw show ?thesis
      by (auto simp: is_basic_unescaped_def)
  next
    case esc
    then show ?thesis
      by (auto simp: ESCAPE_CHARS_def lit_def closes_quotes_def)
  next
    case u4
    with hexdig_not_quote [of h] have "0x22 \<notin> set d" "d \<noteq> []" by auto
    from closes_quotes_no_quote [OF this] u4 show ?thesis by simp
  next
    case u8
    with hexdig_not_quote [of h] have "0x22 \<notin> set d" "d \<noteq> []" by auto
    from closes_quotes_no_quote [OF this] u8 show ?thesis by simp
  qed
qed

lemma gen_ml_basic_char_is_basic_char:
  "gen_ml_basic_char fuel aw g = Some ((d, v), g') \<Longrightarrow> \<exists>g0. gen_basic_char g0 = ((d, v), g')"
  by (induction fuel arbitrary: g) (auto split: prod.splits if_splits)

lemma gen_ws_newlines_chars:
  "gen_ws_newlines k g = (ps, g') \<Longrightarrow> set (concat ps) \<subseteq> {0x09, 0x20, 0x0A, 0x0D}"
proof (induction k arbitrary: g ps g')
  case 0
  then show ?case by simp
next
  case (Suc k)
  obtain ws g1 where ws: "gen_ws g = (ws, g1)" by (cases "gen_ws g")
  obtain nl g2 where nl: "gen_newline g1 = (nl, g2)" by (cases "gen_newline g1")
  obtain rest g3 where rest: "gen_ws_newlines k g2 = (rest, g3)" by (cases "gen_ws_newlines k g2")
  from Suc.prems ws nl rest have ps: "ps = (ws @ nl) # rest" by simp
  from gen_ws_chars [OF ws] gen_newline_cases [OF nl] Suc.IH [OF rest] show ?case
    unfolding ps by auto
qed

lemma gen_ml_escaped_newline_pieces:
  assumes "gen_ml_escaped_newline g = (ps, g')"
  shows "ps \<noteq> [] \<and> hd ps \<noteq> [] \<and> hd (hd ps) = 0x5C
       \<and> set (concat ps) \<subseteq> {0x5C, 0x09, 0x20, 0x0A, 0x0D}"
proof -
  obtain ws1 g1 where ws1: "gen_ws g = (ws1, g1)" by (cases "gen_ws g")
  obtain nl g2 where nl: "gen_newline g1 = (nl, g2)" by (cases "gen_newline g1")
  obtain k g3 where k: "randint 0 2 g2 = (k, g3)" by (cases "randint 0 2 g2")
  obtain more g4 where more: "gen_ws_newlines (nat k) g3 = (more, g4)"
    by (cases "gen_ws_newlines (nat k) g3")
  obtain ws2 g5 where ws2: "gen_ws g4 = (ws2, g5)" by (cases "gen_ws g4")
  from assms ws1 nl k more ws2 have ps: "ps = [[0x5C] @ ws1 @ nl] @ more @ [ws2]"
    by (simp add: gen_ml_escaped_newline_def)
  from gen_ws_chars [OF ws1] gen_newline_cases [OF nl] gen_ws_newlines_chars [OF more]
    gen_ws_chars [OF ws2]
  show ?thesis unfolding ps by auto
qed

text \<open>One round of the loop of \<open>_gen_ml_basic_string\<close>.\<close>

lemma gen_ml_basic_loop_step:
  assumes "gen_ml_basic_loop fuel (Suc k) doc val aq aw g = Some res"
  shows "\<exists>ps vs aq' aw' g1.
      gen_ml_basic_loop fuel k (doc @ ps) (val @ vs) aq' aw' g1 = Some res
      \<and> ps \<noteq> [] \<and> hd ps \<noteq> []
      \<and> (val = [] \<longrightarrow> hd (hd ps) \<noteq> 0x0A \<and> hd (hd ps) \<noteq> 0x0D)
      \<and> ((aq \<and> \<not> aq' \<and> (concat ps = [0x22] \<or> concat ps = [0x22, 0x22]))
         \<or> (aq' \<and> hd (hd ps) \<noteq> 0x22 \<and> closes_quotes 0x22 (concat ps)))"
proof -
  obtain r g1 where r: "rng_random g = (r, g1)" by (cases "rng_random g")
  show ?thesis
  proof (cases "aq \<and> r < 0.1")
    case True
    show ?thesis
    proof (cases "r < 0.5 * 0.1")
      case two: True
      with assms r True
      have "gen_ml_basic_loop fuel k (doc @ [[0x22], [0x22]]) (val @ [[0x22], [0x22]]) False True g1
            = Some res" by simp
      with True show ?thesis
        by (rule_tac x = "[[0x22], [0x22]]" in exI, rule_tac x = "[[0x22], [0x22]]" in exI,
            rule_tac x = False in exI, rule_tac x = True in exI, rule_tac x = g1 in exI) auto
    next
      case one: False
      with assms r True
      have "gen_ml_basic_loop fuel k (doc @ [[0x22]]) (val @ [[0x22]]) False True g1 = Some res"
        by simp
      with True show ?thesis
        by (rule_tac x = "[[0x22]]" in exI, rule_tac x = "[[0x22]]" in exI,
            rule_tac x = False in exI, rule_tac x = True in exI, rule_tac x = g1 in exI) auto
    qed
  next
    case False
    obtain r' g2 where r': "rng_random g1 = (r', g2)" by (cases "rng_random g1")
    consider (nl) "r' < 0.1 \<and> val \<noteq> [] \<and> aw"
      | (cont) "\<not> (r' < 0.1 \<and> val \<noteq> [] \<and> aw)" "r' < 0.1 + 0.05"
      | (char) "\<not> (r' < 0.1 \<and> val \<noteq> [] \<and> aw)" "\<not> r' < 0.1 + 0.05" by blast
    then show ?thesis
    proof cases
      case nl
      obtain n g3 where n: "gen_newline g2 = (n, g3)" by (cases "gen_newline g2")
      with assms r False r' nl
      have run: "gen_ml_basic_loop fuel k (doc @ [n]) (val @ [[0x0A]]) True aw g3 = Some res"
        by auto
      from gen_newline_cases [OF n] have "0x22 \<notin> set n" "n \<noteq> []" "hd n \<noteq> 0x22" by auto
      with closes_quotes_no_quote [of "0x22" n] run nl show ?thesis
        by (rule_tac x = "[n]" in exI, rule_tac x = "[[0x0A]]" in exI,
            rule_tac x = True in exI, rule_tac x = aw in exI, rule_tac x = g3 in exI) auto
    next
      case cont
      obtain ps g3 where ps: "gen_ml_escaped_newline g2 = (ps, g3)"
        by (cases "gen_ml_escaped_newline g2")
      with assms r False r' cont
      have run: "gen_ml_basic_loop fuel k (doc @ ps) (val @ []) True False g3 = Some res"
        by auto
      from gen_ml_escaped_newline_pieces [OF ps]
      have p: "ps \<noteq> []" "hd ps \<noteq> []" "hd (hd ps) = 0x5C" "0x22 \<notin> set (concat ps)"
        by auto
      then have "concat ps \<noteq> []" by (cases ps) auto
      with closes_quotes_no_quote [of "0x22" "concat ps"] p run show ?thesis
        by (rule_tac x = ps in exI, rule_tac x = "[]" in exI,
            rule_tac x = True in exI, rule_tac x = False in exI, rule_tac x = g3 in exI) auto
    next
      case char
      with assms r False r' obtain d v g3
        where c: "gen_ml_basic_char fuel aw g2 = Some ((d, v), g3)"
          and run: "gen_ml_basic_loop fuel k (doc @ [d]) (val @ [v]) True True g3 = Some res"
        by (auto split: option.splits)
      from gen_ml_basic_char_is_basic_char [OF c] gen_basic_char_piece
      have "d \<noteq> [] \<and> hd d \<noteq> 0x0A \<and> hd d \<noteq> 0x0D \<and> hd d \<noteq> 0x22 \<and> closes_quotes 0x22 d"
        by blast
      with run show ?thesis
        by (rule_tac x = "[d]" in exI, rule_tac x = "[v]" in exI,
            rule_tac x = True in exI, rule_tac x = True in exI, rule_tac x = g3 in exI) auto
    qed
  qed
qed

lemma gen_ml_basic_loop_first_piece:
  "gen_ml_basic_loop fuel k doc val aq aw g = Some ((doc', val'), g') \<Longrightarrow>
   \<exists>pieces. doc' = doc @ pieces
     \<and> (val = [] \<longrightarrow> pieces = [] \<or> (hd pieces \<noteq> [] \<and> hd (hd pieces) \<noteq> 0x0A \<and> hd (hd pieces) \<noteq> 0x0D))"
proof (induction k arbitrary: doc val aq aw g)
  case 0
  then show ?case by simp
next
  case (Suc k)
  from gen_ml_basic_loop_step [OF Suc.prems] obtain ps vs aq' aw' g1
    where run: "gen_ml_basic_loop fuel k (doc @ ps) (val @ vs) aq' aw' g1 = Some ((doc', val'), g')"
      and ps: "ps \<noteq> []" "hd ps \<noteq> []" "val = [] \<longrightarrow> hd (hd ps) \<noteq> 0x0A \<and> hd (hd ps) \<noteq> 0x0D"
    by blast
  from Suc.IH [OF run] obtain pieces where "doc' = (doc @ ps) @ pieces" by blast
  with ps show ?case by (intro exI [of _ "ps @ pieces"]) auto
qed

lemma gen_ml_basic_loop_quotes:
  assumes "gen_ml_basic_loop fuel k doc val aq aw g = Some ((doc', val'), g')"
    and "quote_scan 0x22 True st0 (concat doc) = Some (j, e)"
    and "aq \<longrightarrow> j = 0 \<or> (j = 1 \<and> e)"
  shows "\<exists>st. quote_scan 0x22 True st0 (concat doc') = Some st"
  using assms
proof (induction k arbitrary: doc val aq aw g j e)
  case 0
  then show ?case by simp
next
  case (Suc k)
  from gen_ml_basic_loop_step [OF Suc.prems(1)] obtain ps vs aq' aw' g1
    where run: "gen_ml_basic_loop fuel k (doc @ ps) (val @ vs) aq' aw' g1 = Some ((doc', val'), g')"
      and q: "(aq \<and> \<not> aq' \<and> (concat ps = [0x22] \<or> concat ps = [0x22, 0x22]))
         \<or> (aq' \<and> hd (hd ps) \<noteq> 0x22 \<and> closes_quotes 0x22 (concat ps))"
    by blast
  have "\<exists>j' e'. quote_scan 0x22 True (j, e) (concat ps) = Some (j', e')
          \<and> (aq' \<longrightarrow> j' = 0 \<or> (j' = 1 \<and> e'))"
  proof (cases "aq'")
    case True
    with q have "closes_quotes 0x22 (concat ps)" by blast
    then show ?thesis unfolding closes_quotes_def by blast
  next
    case False
    with q have aq and c: "concat ps = [0x22] \<or> concat ps = [0x22, 0x22]" by blast+
    from \<open>aq\<close> Suc.prems(3) have "j = 0 \<or> (j = 1 \<and> e)" by simp
    with c False show ?thesis by auto
  qed
  then obtain j' e' where s: "quote_scan 0x22 True (j, e) (concat ps) = Some (j', e')"
    and inv: "aq' \<longrightarrow> j' = 0 \<or> (j' = 1 \<and> e')" by blast
  have "quote_scan 0x22 True st0 (concat (doc @ ps)) = Some (j', e')"
    using Suc.prems(2) s by (simp add: quote_scan_append)
  from Suc.IH [OF run this inv] show ?case .
qed

subsection \<open>The pieces of a multi-line literal string\<close>

lemma gen_ml_literal_loop_step:
  assumes "gen_ml_literal_loop (Suc k) doc val aq g = res"
  shows "\<exists>ps vs aq' g1.
      gen_ml_literal_loop k (doc @ ps) (val @ vs) aq' g1 = res
      \<and> ps \<noteq> [] \<and> hd ps \<noteq> []
      \<and> (val = [] \<longrightarrow> hd (hd ps) \<noteq> 0x0A \<and> hd (hd ps) \<noteq> 0x0D)
      \<and> ((aq \<and> \<not> aq' \<and> (concat ps = [0x27] \<or> concat ps = [0x27, 0x27]))
         \<or> (aq' \<and> concat ps \<noteq> [] \<and> 0x27 \<notin> set (concat ps)))"
proof -
  obtain r g1 where r: "rng_random g = (r, g1)" by (cases "rng_random g")
  show ?thesis
  proof (cases "aq \<and> r < 0.1")
    case True
    show ?thesis
    proof (cases "r < 0.5 * 0.1")
      case two: True
      with assms r True
      have "gen_ml_literal_loop k (doc @ [[0x27], [0x27]]) (val @ [[0x27], [0x27]]) False g1 = res"
        by simp
      with True show ?thesis
        by (rule_tac x = "[[0x27], [0x27]]" in exI, rule_tac x = "[[0x27], [0x27]]" in exI,
            rule_tac x = False in exI, rule_tac x = g1 in exI) auto
    next
      case one: False
      with assms r True
      have "gen_ml_literal_loop k (doc @ [[0x27]]) (val @ [[0x27]]) False g1 = res"
        by simp
      with True show ?thesis
        by (rule_tac x = "[[0x27]]" in exI, rule_tac x = "[[0x27]]" in exI,
            rule_tac x = False in exI, rule_tac x = g1 in exI) auto
    qed
  next
    case False
    obtain r' g2 where r': "rng_random g1 = (r', g2)" by (cases "rng_random g1")
    show ?thesis
    proof (cases "r' < 0.1 \<and> val \<noteq> []")
      case True
      obtain n g3 where n: "gen_newline g2 = (n, g3)" by (cases "gen_newline g2")
      with assms r False r' True
      have run: "gen_ml_literal_loop k (doc @ [n]) (val @ [[0x0A]]) True g3 = res"
        by auto
      from gen_newline_cases [OF n] have "0x27 \<notin> set n" "n \<noteq> []" by auto
      with run True show ?thesis
        by (rule_tac x = "[n]" in exI, rule_tac x = "[[0x0A]]" in exI,
            rule_tac x = True in exI, rule_tac x = g3 in exI) auto
    next
      case nonl: False
      obtain c g3 where c: "gen_literal_char g2 = (c, g3)" by (cases "gen_literal_char g2")
      with assms r False r' nonl
      have run: "gen_ml_literal_loop k (doc @ [[c]]) (val @ [[c]]) True g3 = res"
        by auto
      from gen_literal_char_literal [OF c] have "c \<noteq> 0x27" "c \<noteq> 0x0A" "c \<noteq> 0x0D"
        by (auto simp: is_literal_char_def)
      with run show ?thesis
        by (rule_tac x = "[[c]]" in exI, rule_tac x = "[[c]]" in exI,
            rule_tac x = True in exI, rule_tac x = g3 in exI) auto
    qed
  qed
qed

lemma gen_ml_literal_loop_first_piece:
  "gen_ml_literal_loop k doc val aq g = ((doc', val'), g') \<Longrightarrow>
   \<exists>pieces. doc' = doc @ pieces
     \<and> (val = [] \<longrightarrow> pieces = [] \<or> (hd pieces \<noteq> [] \<and> hd (hd pieces) \<noteq> 0x0A \<and> hd (hd pieces) \<noteq> 0x0D))"
proof (induction k arbitrary: doc val aq g)
  case 0
  then show ?case by simp
next
  case (Suc k)
  from gen_ml_literal_loop_step [OF Suc.prems] obtain ps vs aq' g1
    where run: "gen_ml_literal_loop k (doc @ ps) (val @ vs) aq' g1 = ((doc', val'), g')"
      and ps: "ps \<noteq> []" "hd ps \<noteq> []" "val = [] \<longrightarrow> hd (hd ps) \<noteq> 0x0A \<and> hd (hd ps) \<noteq> 0x0D"
    by blast
  from Suc.IH [OF run] obtain pieces where "doc' = (doc @ ps) @ pieces" by blast
  with ps show ?case by (intro exI [of _ "ps @ pieces"]) auto
qed

lemma gen_ml_literal_loop_quotes:
  assumes "gen_ml_literal_loop k doc val aq g = ((doc', val'), g')"
    and "quote_scan 0x27 False st0 (concat doc) = Some (j, e)"
    and "aq \<longrightarrow> j = 0"
  shows "\<exists>st. quote_scan 0x27 False st0 (concat doc') = Some st"
  using assms
proof (induction k arbitrary: doc val aq g j e)
  case 0
  then show ?case by simp
next
  case (Suc k)
  from gen_ml_literal_loop_step [OF Suc.prems(1)] obtain ps vs aq' g1
    where run: "gen_ml_literal_loop k (doc @ ps) (val @ vs) aq' g1 = ((doc', val'), g')"
      and q: "(aq \<and> \<not> aq' \<and> (concat ps = [0x27] \<or> concat ps = [0x27, 0x27]))
         \<or> (aq' \<and> concat ps \<noteq> [] \<and> 0x27 \<notin> set (concat ps))"
    by blast
  have "\<exists>j' e'. quote_scan 0x27 False (j, e) (concat ps) = Some (j', e') \<and> (aq' \<longrightarrow> j' = 0)"
  proof (cases "aq'")
    case True
    with q have "concat ps \<noteq> []" "0x27 \<notin> set (concat ps)" by blast+
    from quote_scan_no_quote [OF this(2,1)] show ?thesis by blast
  next
    case False
    with q have aq and c: "concat ps = [0x27] \<or> concat ps = [0x27, 0x27]" by blast+
    from \<open>aq\<close> Suc.prems(3) have "j = 0" by simp
    with c False show ?thesis by auto
  qed
  then obtain j' e' where s: "quote_scan 0x27 False (j, e) (concat ps) = Some (j', e')"
    and inv: "aq' \<longrightarrow> j' = 0" by blast
  have "quote_scan 0x27 False st0 (concat (doc @ ps)) = Some (j', e')"
    using Suc.prems(2) s by (simp add: quote_scan_append)
  from Suc.IH [OF run this inv] show ?case .
qed

subsection \<open>The strings\<close>

lemma gen_ml_basic_string_body:
  assumes "gen_ml_basic_string fuel g = Some ((s, v), g')"
  shows "\<exists>lead pieces. s = [0x22, 0x22, 0x22] @ concat lead @ concat pieces @ [0x22, 0x22, 0x22]
     \<and> (lead = [] \<or> lead = [[0x0A]] \<or> lead = [[0x0D, 0x0A]])
     \<and> (pieces = [] \<or> (hd pieces \<noteq> [] \<and> hd (hd pieces) \<noteq> 0x0A \<and> hd (hd pieces) \<noteq> 0x0D))
     \<and> (\<exists>st. quote_scan 0x22 True (0, False) (concat lead @ concat pieces) = Some st)"
proof -
  obtain n g1 where n: "rand_exp 25 0 200 g = (n, g1)" by (cases "rand_exp 25 0 200 g")
  obtain b g2 where b: "randint 0 1 g1 = (b, g2)" by (cases "randint 0 1 g1")
  obtain lead g4 where lead:
    "(if b > 0 then (case gen_newline g2 of (nl, g3) \<Rightarrow> ([nl], g3)) else ([], g2)) = (lead, g4)"
    by (cases "(if b > 0 then (case gen_newline g2 of (nl, g3) \<Rightarrow> ([nl], g3)) else ([], g2))")
  from assms n b lead obtain doc' val' where
    loop: "gen_ml_basic_loop fuel n lead [] True True g4 = Some ((doc', val'), g')"
    and s: "s = [0x22, 0x22, 0x22] @ concat doc' @ [0x22, 0x22, 0x22]"
    by (auto simp: gen_ml_basic_string_def split: option.splits)
  from lead have l: "lead = [] \<or> lead = [[0x0A]] \<or> lead = [[0x0D, 0x0A]]"
    by (auto split: if_splits prod.splits dest: gen_newline_cases)
  then have "quote_scan 0x22 True (0, False) (concat lead) = Some (0, False)" by auto
  from gen_ml_basic_loop_quotes [OF loop this]
  obtain st where st: "quote_scan 0x22 True (0, False) (concat doc') = Some st" by auto
  from gen_ml_basic_loop_first_piece [OF loop] obtain pieces where
    "doc' = lead @ pieces"
    "pieces = [] \<or> (hd pieces \<noteq> [] \<and> hd (hd pieces) \<noteq> 0x0A \<and> hd (hd pieces) \<noteq> 0x0D)"
    by auto
  with s l st show ?thesis by (intro exI [of _ lead] exI [of _ pieces]) auto
qed

lemma gen_ml_literal_string_body:
  assumes "gen_ml_literal_string g = ((s, v), g')"
  shows "\<exists>lead pieces. s = [0x27, 0x27, 0x27] @ concat lead @ concat pieces @ [0x27, 0x27, 0x27]
     \<and> (lead = [] \<or> lead = [[0x0A]] \<or> lead = [[0x0D, 0x0A]])
     \<and> (pieces = [] \<or> (hd pieces \<noteq> [] \<and> hd (hd pieces) \<noteq> 0x0A \<and> hd (hd pieces) \<noteq> 0x0D))
     \<and> (\<exists>st. quote_scan 0x27 False (0, False) (concat lead @ concat pieces) = Some st)"
proof -
  obtain n g1 where n: "rand_exp 25 0 200 g = (n, g1)" by (cases "rand_exp 25 0 200 g")
  obtain b g2 where b: "randint 0 1 g1 = (b, g2)" by (cases "randint 0 1 g1")
  obtain lead g4 where lead:
    "(if b > 0 then (case gen_newline g2 of (nl, g3) \<Rightarrow> ([nl], g3)) else ([], g2)) = (lead, g4)"
    by (cases "(if b > 0 then (case gen_newline g2 of (nl, g3) \<Rightarrow> ([nl], g3)) else ([], g2))")
  from assms n b lead obtain doc' val' where
    loop: "gen_ml_literal_loop n lead [] True g4 = ((doc', val'), g')"
    and s: "s = [0x27, 0x27, 0x27] @ concat doc' @ [0x27, 0x27, 0x27]"
    by (auto simp: gen_ml_literal_string_def split: prod.splits)
  from lead have l: "lead = [] \<or> lead = [[0x0A]] \<or> lead = [[0x0D, 0x0A]]"
    by (auto split: if_splits prod.splits dest: gen_newline_cases)
  then have "quote_scan 0x27 False (0, False) (concat lead) = Some (0, False)" by auto
  from gen_ml_literal_loop_quotes [OF loop this]
  obtain st where st: "quote_scan 0x27 False (0, False) (concat doc') = Some st" by auto
  from gen_ml_literal_loop_first_piece [OF loop] obtain pieces where
    "doc' = lead @ pieces"
    "pieces = [] \<or> (hd pieces \<noteq> [] \<and> hd (hd pieces) \<noteq> 0x0A \<and> hd (hd pieces) \<noteq> 0x0D)"
    by auto
  with s l st show ?thesis by (intro exI [of _ lead] exI [of _ pieces]) auto
qed


lemma rand_exp_25_two: "rand_exp 25 0 200 (844424930131968 # g) = (Suc (Suc 0), g)"
  using rand_exp_value [of 25 2 0 200 844424930131968 g] by (simp add: power_divide)

lemma gen_ml_basic_string_run:
  "gen_ml_basic_string 1 [3 * 2 ^ 48, 0, 2 ^ 52, 2 ^ 52, 0, 5, 0]
     = Some (([0x22, 0x22, 0x22] @ [0x5C, 0x22, 0x22, 0x22] @ [0x22, 0x22, 0x22],
              [0x22, 0x22, 0x22]), [])"
  by (simp add: gen_ml_basic_string_def rand_exp_25_two randint_def randbelow_def
      rng_random_def gen_basic_char_def ESCAPE_CHARS_def lit_def)

lemma gen_ml_literal_string_run:
  "gen_ml_literal_string [3 * 2 ^ 48, 1]
     = (([0x27, 0x27, 0x27] @ [0x0A, 0x27, 0x27, 0x0A] @ [0x27, 0x27, 0x27],
         [0x27, 0x27, 0x0A]), [])"
  by (simp add: gen_ml_literal_string_def rand_exp_25_two randint_def randbelow_def
      rng_random_def gen_newline_def choice_def)



text \<open>
  Claim C9. A round of either loop that starts with an empty value never appends a raw
  newline to the document: the piece it appends is not empty and does not start with a
  line feed or a carriage return. Every round is a call of the loop function, so this
  holds at every point of the loop at which the value is still empty. Hence the body of
  a multi-line string, after its optional leading newline, does not start with a newline.
\<close>

theorem ml_newline_needs_value:
  "(gen_ml_basic_loop fuel k doc_chars [] aq aw g = Some ((doc1, val1), g1) \<longrightarrow>
      (\<exists>pieces. doc1 = doc_chars @ pieces
         \<and> (pieces = [] \<or> (hd pieces \<noteq> [0x0A] \<and> hd pieces \<noteq> [0x0D, 0x0A]
                             \<and> hd (hd pieces) \<noteq> 0x0A \<and> hd (hd pieces) \<noteq> 0x0D))))
   \<and> (gen_ml_literal_loop k' doc_chars' [] aq' g' = ((doc2, val2), g2) \<longrightarrow>
      (\<exists>pieces. doc2 = doc_chars' @ pieces
         \<and> (pieces = [] \<or> (hd pieces \<noteq> [0x0A] \<and> hd pieces \<noteq> [0x0D, 0x0A]
                             \<and> hd (hd pieces) \<noteq> 0x0A \<and> hd (hd pieces) \<noteq> 0x0D))))
   \<and> (gen_ml_basic_string fuel' gb = Some ((sb, vb), gb') \<longrightarrow>
      (\<exists>lead body. sb = [0x22, 0x22, 0x22] @ lead @ body @ [0x22, 0x22, 0x22]
         \<and> (lead = [] \<or> lead = [0x0A] \<or> lead = [0x0D, 0x0A])
         \<and> (body = [] \<or> (hd body \<noteq> 0x0A \<and> hd body \<noteq> 0x0D))))
   \<and> (gen_ml_literal_string gl = ((sl, vl), gl') \<longrightarrow>
      (\<exists>lead body. sl = [0x27, 0x27, 0x27] @ lead @ body @ [0x27, 0x27, 0x27]
         \<and> (lead = [] \<or> lead = [0x0A] \<or> lead = [0x0D, 0x0A])
         \<and> (body = [] \<or> (hd body \<noteq> 0x0A \<and> hd body \<noteq> 0x0D))))"
proof (intro conjI impI)
  assume "gen_ml_basic_loop fuel k doc_chars [] aq aw g = Some ((doc1, val1), g1)"
  from gen_ml_basic_loop_first_piece [OF this]
  show "\<exists>pieces. doc1 = doc_chars @ pieces
         \<and> (pieces = [] \<or> (hd pieces \<noteq> [0x0A] \<and> hd pieces \<noteq> [0x0D, 0x0A]
                             \<and> hd (hd pieces) \<noteq> 0x0A \<and> hd (hd pieces) \<noteq> 0x0D))"
    by fastforce
next
  assume "gen_ml_literal_loop k' doc_chars' [] aq' g' = ((doc2, val2), g2)"
  from gen_ml_literal_loop_first_piece [OF this]
  show "\<exists>pieces. doc2 = doc_chars' @ pieces
         \<and> (pieces = [] \<or> (hd pieces \<noteq> [0x0A] \<and> hd pieces \<noteq> [0x0D, 0x0A]
                             \<and> hd (hd pieces) \<noteq> 0x0A \<and> hd (hd pieces) \<noteq> 0x0D))"
    by fastforce
next
  assume "gen_ml_basic_string fuel' gb = Some ((sb, vb), gb')"
  from gen_ml_basic_string_body [OF this] obtain lead pieces where
    s: "sb = [0x22, 0x22, 0x22] @ concat lead @ concat pieces @ [0x22, 0x22, 0x22]"
    and l: "lead = [] \<or> lead = [[0x0A]] \<or> lead = [[0x0D, 0x0A]]"
    and p: "pieces = [] \<or> (hd pieces \<noteq> [] \<and> hd (hd pieces) \<noteq> 0x0A \<and> hd (hd pieces) \<noteq> 0x0D)"
    by blast
  from p have "concat pieces = [] \<or> (hd (concat pieces) \<noteq> 0x0A \<and> hd (concat pieces) \<noteq> 0x0D)"
    by (cases pieces) auto
  with s l show "\<exists>lead body. sb = [0x22, 0x22, 0x22] @ lead @ body @ [0x22, 0x22, 0x22]
         \<and> (lead = [] \<or> lead = [0x0A] \<or> lead = [0x0D, 0x0A])
         \<and> (body = [] \<or> (hd body \<noteq> 0x0A \<and> hd body \<noteq> 0x0D))"
    by (intro exI [of _ "concat lead"] exI [of _ "concat pieces"]) auto
next
  assume "gen_ml_literal_string gl = ((sl, vl), gl')"
  from gen_ml_literal_string_body [OF this] obtain lead pieces where
    s: "sl = [0x27, 0x27, 0x27] @ concat lead @ concat pieces @ [0x27, 0x27, 0x27]"
    and l: "lead = [] \<or> lead = [[0x0A]] \<or> lead = [[0x0D, 0x0A]]"
    and p: "pieces = [] \<or> (hd pieces \<noteq> [] \<and> hd (hd pieces) \<noteq> 0x0A \<and> hd (hd pieces) \<noteq> 0x0D)"
    by blast
  from p have "concat pieces = [] \<or> (hd (concat pieces) \<noteq> 0x0A \<and> hd (concat pieces) \<noteq> 0x0D)"
    by (cases pieces) auto
  with s l show "\<exists>lead body. sl = [0x27, 0x27, 0x27] @ lead @ body @ [0x27, 0x27, 0x27]
         \<and> (lead = [] \<or> lead = [0x0A] \<or> lead = [0x0D, 0x0A])
         \<and> (body = [] \<or> (hd body \<noteq> 0x0A \<and> hd body \<noteq> 0x0D))"
    by (intro exI [of _ "concat lead"] exI [of _ "concat pieces"]) auto
qed

lemma gen_ml_basic_loop_run:
  "gen_ml_basic_loop 1 (Suc (Suc 0)) [[0x0A]] [] True True [0, 0, 0]
     = Some (([[0x0A], [0x22], [0x22], [0x0A]], [[0x22], [0x22], [0x0A]]), [])"
  by (simp add: rng_random_def gen_newline_def choice_def randbelow_def)

lemma gen_ml_literal_loop_run:
  "gen_ml_literal_loop (Suc (Suc 0)) [[0x0A]] [] True [0, 0, 0]
     = (([[0x0A], [0x27], [0x27], [0x0A]], [[0x27], [0x27], [0x0A]]), [])"
  by (simp add: rng_random_def gen_newline_def choice_def randbelow_def)

theorem ml_newline_needs_value_witness:
  "gen_ml_basic_loop 1 (Suc (Suc 0)) [[0x0A]] [] True True [0, 0, 0]
     = Some (([[0x0A], [0x22], [0x22], [0x0A]], [[0x22], [0x22], [0x0A]]), [])
   \<and> gen_ml_literal_loop (Suc (Suc 0)) [[0x0A]] [] True [0, 0, 0]
     = (([[0x0A], [0x27], [0x27], [0x0A]], [[0x27], [0x27], [0x0A]]), [])
   \<and> gen_ml_basic_string 1 [3 * 2 ^ 48, 0, 2 ^ 52, 2 ^ 52, 0, 5, 0]
     = Some (([0x22, 0x22, 0x22] @ [0x5C, 0x22, 0x22, 0x22] @ [0x22, 0x22, 0x22],
              [0x22, 0x22, 0x22]), [])
   \<and> gen_ml_literal_string [3 * 2 ^ 48, 1]
     = (([0x27, 0x27, 0x27] @ [0x0A, 0x27, 0x27, 0x0A] @ [0x27, 0x27, 0x27],
         [0x27, 0x27, 0x0A]), [])
   \<and> (\<exists>pieces :: pystr list. [[0x0A], [0x22], [0x22], [0x0A]] = [[0x0A]] @ pieces
         \<and> hd pieces \<noteq> [0x0A] \<and> hd pieces \<noteq> [0x0D, 0x0A])
   \<and> (\<exists>pieces :: pystr list. [[0x0A], [0x27], [0x27], [0x0A]] = [[0x0A]] @ pieces
         \<and> hd pieces \<noteq> [0x0A] \<and> hd pieces \<noteq> [0x0D, 0x0A])"
  using ml_newline_needs_value [of 1 "Suc (Suc 0)" "[[0x0A]]" True True "[0, 0, 0]"
      "[[0x0A], [0x22], [0x22], [0x0A]]" "[[0x22], [0x22], [0x0A]]" "[]"
      "Suc (Suc 0)" "[[0x0A]]" True "[0, 0, 0]"
      "[[0x0A], [0x27], [0x27], [0x0A]]" "[[0x27], [0x27], [0x0A]]" "[]"
      1 "[3 * 2 ^ 48, 0, 2 ^ 52, 2 ^ 52, 0, 5, 0]"
      "[0x22, 0x22, 0x22] @ [0x5C, 0x22, 0x22, 0x22] @ [0x22, 0x22, 0x22]"
      "[0x22, 0x22, 0x22]" "[]"
      "[3 * 2 ^ 48, 1]"
      "[0x27, 0x27, 0x27] @ [0x0A, 0x27, 0x27, 0x0A] @ [0x27, 0x27, 0x27]"
      "[0x27, 0x27, 0x0A]" "[]"]
    gen_ml_basic_loop_run gen_ml_literal_loop_run
    gen_ml_basic_string_run gen_ml_literal_string_run
  by auto

section \<open>Verification: keys\<close>

subsection \<open>Hexadecimal escapes read back\<close>

lemma hexval_digit: "d < 10 \<Longrightarrow> hexval (0x30 + d) = Some d"
  by (simp add: hexval_def)

lemma hexval_lower: "10 \<le> d \<Longrightarrow> d < 16 \<Longrightarrow> hexval (0x61 + d - 10) = Some d"
  by (auto simp: hexval_def)

lemma hexval_upper: "10 \<le> d \<Longrightarrow> d < 16 \<Longrightarrow> hexval (0x41 + d - 10) = Some d"
  by (auto simp: hexval_def)

lemma str_int_digit: "0 \<le> d \<Longrightarrow> d < 10 \<Longrightarrow> str_int d = [0x30 + nat d]"
  by (simp add: str_int_def format_int_def digits_base_small)

text \<open>
  The loop of \<open>_rand_format_hex\<close> puts digits \<open>h\<close> in front of \<open>s\<close>; read as a
  hexadecimal number after any digits read before, \<open>h\<close> is worth \<open>val\<close>.
\<close>

lemma rand_format_hex_loop_value:
  "0 \<le> val \<Longrightarrow>
   \<exists>h. fst (rand_format_hex_loop val minwidth s g) = h @ s
     \<and> (\<forall>acc t. hexnum acc (h @ t) = hexnum (acc * 16 ^ length h + nat val) t)"
proof (induction val minwidth s g rule: rand_format_hex_loop.induct)
  case (1 val minwidth s g)
  show ?case
  proof (cases "length s < minwidth \<or> val > 0")
    case False
    with "1.prems" have "val = 0" by simp
    with False have "rand_format_hex_loop val minwidth s g = (s, g)"
      by (subst rand_format_hex_loop.simps) simp
    with \<open>val = 0\<close> show ?thesis by simp
  next
    case True
    define d where "d = nat (val mod 16)"
    have d: "d < 16" "val mod 16 = int d" "0 \<le> val div 16"
      using "1.prems" by (simp_all add: d_def nat_less_iff pos_imp_zdiv_nonneg_iff)
    have "val = 16 * (val div 16) + val mod 16" by simp
    then have "int (nat val) = int (16 * nat (val div 16) + d)"
      using "1.prems" d(2,3) by simp
    then have val: "nat val = 16 * nat (val div 16) + d" by (simp only: of_nat_eq_iff)
    text \<open>The digit \<open>x\<close> put in front of \<open>s\<close>, and the rest of the run.\<close>
    have step: "\<exists>h. fst (rand_format_hex_loop val minwidth s g) = h @ s
        \<and> (\<forall>acc t. hexnum acc (h @ t) = hexnum (acc * 16 ^ length h + nat val) t)"
      if run: "rand_format_hex_loop val minwidth s g
                 = rand_format_hex_loop (val div 16) minwidth (x # s) g1"
        and ih: "\<exists>h. fst (rand_format_hex_loop (val div 16) minwidth (x # s) g1) = h @ x # s
          \<and> (\<forall>acc t. hexnum acc (h @ t) = hexnum (acc * 16 ^ length h + nat (val div 16)) t)"
        and x: "hexval x = Some d" for x g1
    proof -
      from ih obtain h
        where h: "fst (rand_format_hex_loop (val div 16) minwidth (x # s) g1) = h @ x # s"
          and v: "\<And>acc t. hexnum acc (h @ t) = hexnum (acc * 16 ^ length h + nat (val div 16)) t"
        by blast
      have "hexnum acc ((h @ [x]) @ t) = hexnum (acc * 16 ^ length (h @ [x]) + nat val) t" for acc t
      proof -
        have "hexnum acc ((h @ [x]) @ t) = hexnum acc (h @ x # t)" by simp
        also have "\<dots> = hexnum (acc * 16 ^ length h + nat (val div 16)) (x # t)" by (rule v)
        also have "\<dots> = hexnum (16 * (acc * 16 ^ length h + nat (val div 16)) + d) t"
          by (simp add: x)
        also have "16 * (acc * 16 ^ length h + nat (val div 16)) + d
                   = acc * 16 ^ length (h @ [x]) + nat val"
          unfolding val by (simp add: algebra_simps)
        finally show ?thesis .
      qed
      moreover have "fst (rand_format_hex_loop val minwidth s g) = (h @ [x]) @ s"
        unfolding run h by simp
      ultimately show ?thesis by blast
    qed
    show ?thesis
    proof (cases "val mod 16 < 10")
      case lt: True
      then have x: "hexval (0x30 + d) = Some d" using d by (intro hexval_digit) simp
      have s: "str_int (val mod 16) @ s = (0x30 + d) # s"
        using lt by (simp add: str_int_digit d_def)
      have run: "rand_format_hex_loop val minwidth s g
                 = rand_format_hex_loop (val div 16) minwidth ((0x30 + d) # s) g"
        using True lt unfolding s [symmetric] by (subst rand_format_hex_loop.simps) simp
      from "1.IH"(1) [OF True lt d(3)] show ?thesis
        unfolding s by (rule step [OF run _ x])
    next
      case ge: False
      then have dge: "10 \<le> d" using d by simp
      have xl: "hexval (0x61 + d - 10) = Some d" by (rule hexval_lower [OF dge d(1)])
      have xu: "hexval (0x41 + d - 10) = Some d" by (rule hexval_upper [OF dge d(1)])
      have cl: "nat (0x61 + val mod 16 - 10) = 0x61 + d - 10"
        and cu: "nat (0x41 + val mod 16 - 10) = 0x41 + d - 10"
        using dge unfolding d(2) by linarith+
      show ?thesis
      proof (cases "fst (randint 0 1 g) = 0")
        case z: True
        have run: "rand_format_hex_loop val minwidth s g
                 = rand_format_hex_loop (val div 16) minwidth ((0x61 + d - 10) # s)
                     (snd (randint 0 1 g))"
          using True ge z unfolding cl [symmetric] by (subst rand_format_hex_loop.simps) simp
        from "1.IH"(2) [OF True ge z d(3)] show ?thesis
          unfolding cl by (rule step [OF run _ xl])
      next
        case nz: False
        have run: "rand_format_hex_loop val minwidth s g
                 = rand_format_hex_loop (val div 16) minwidth ((0x41 + d - 10) # s)
                     (snd (randint 0 1 g))"
          using True ge nz unfolding cu [symmetric] by (subst rand_format_hex_loop.simps) simp
        from "1.IH"(3) [OF True ge nz d(3)] show ?thesis
          unfolding cu by (rule step [OF run _ xu])
      qed
    qed
  qed
qed

lemma rand_format_hex_loop_exact:
  "0 \<le> val \<Longrightarrow> val < 16 ^ (minwidth - length s) \<Longrightarrow> length s \<le> minwidth \<Longrightarrow>
   length (fst (rand_format_hex_loop val minwidth s g)) = minwidth"
proof (induction val minwidth s g rule: rand_format_hex_loop.induct)
  case (1 val minwidth s g)
  show ?case
  proof (cases "length s < minwidth \<or> val > 0")
    case False
    then have "rand_format_hex_loop val minwidth s g = (s, g)"
      by (subst rand_format_hex_loop.simps) simp
    with False "1.prems" show ?thesis by simp
  next
    case True
    have lt: "length s < minwidth"
    proof (rule ccontr)
      assume "\<not> length s < minwidth"
      with "1.prems" have "val < 1" by simp
      with True \<open>\<not> length s < minwidth\<close> show False by simp
    qed
    then obtain m where m: "minwidth - length s = Suc m" by (cases "minwidth - length s") auto
    have nn: "0 \<le> val div 16" using "1.prems"(1) by (simp add: pos_imp_zdiv_nonneg_iff)
    have "val = 16 * (val div 16) + val mod 16" by simp
    moreover have "0 \<le> val mod 16" by simp
    moreover have "val < 16 * 16 ^ m" using "1.prems"(2) unfolding m by simp
    ultimately have small: "val div 16 < 16 ^ m" by linarith
    have len1: "length (str_int (val mod 16)) = Suc 0" if "val mod 16 < 10"
      using that by (simp add: str_int_digit)
    have m': "minwidth - Suc (length s) = m" using m by simp
    show ?thesis
    proof (cases "val mod 16 < 10")
      case c: True
      have "length (fst (rand_format_hex_loop (val div 16) minwidth (str_int (val mod 16) @ s) g))
            = minwidth"
        using small lt by (intro "1.IH"(1) [OF True c nn]) (simp_all add: len1 [OF c] m')
      with True c show ?thesis by (simp add: rand_format_hex_loop.simps [of val minwidth s g])
    next
      case ge: False
      show ?thesis
      proof (cases "fst (randint 0 1 g) = 0")
        case z: True
        have "length (fst (rand_format_hex_loop (val div 16) minwidth
                (nat (0x61 + val mod 16 - 10) # s) (snd (randint 0 1 g)))) = minwidth"
          using small lt by (intro "1.IH"(2) [OF True ge z nn]) (simp_all add: m')
        with True ge z show ?thesis
          by (simp add: rand_format_hex_loop.simps [of val minwidth s g])
      next
        case nz: False
        have "length (fst (rand_format_hex_loop (val div 16) minwidth
                (nat (0x41 + val mod 16 - 10) # s) (snd (randint 0 1 g)))) = minwidth"
          using small lt by (intro "1.IH"(3) [OF True ge nz nn]) (simp_all add: m')
        with True ge nz show ?thesis
          by (simp add: rand_format_hex_loop.simps [of val minwidth s g])
      qed
    qed
  qed
qed

lemma rand_format_hex_reads_back:
  assumes "c < 16 ^ w" "rand_format_hex (int c) w g = (h, g')"
  shows "length h = w \<and> hexnum 0 h = Some c"
proof -
  from rand_format_hex_loop_value [of "int c" w "[]" g] assms(2)
  have "\<forall>acc t. hexnum acc (h @ t) = hexnum (acc * 16 ^ length h + nat (int c)) t"
    by (simp add: rand_format_hex_def)
  then have v: "hexnum 0 (h @ []) = hexnum (0 * 16 ^ length h + nat (int c)) []"
    by blast
  have "int c < int (16 ^ w)" using assms(1) by (simp only: of_nat_less_iff)
  then have "int c < 16 ^ (w - length ([] :: pystr))" by simp
  from rand_format_hex_loop_exact [OF _ this, of g] assms(2) have "length h = w"
    by (simp add: rand_format_hex_def)
  with v show ?thesis by simp
qed

subsection \<open>A formatted key read back\<close>

lemma decode_escape_u4:
  assumes "c < 0x10000" "escape_u4 (int c) g = (d, g')"
  shows "decode_basic (d @ rest) = map_option (Cons c) (decode_basic rest)"
proof -
  obtain h where h: "rand_format_hex (int c) 4 g = (h, g')" and d: "d = [0x5C, 0x75] @ h"
    using assms(2) by (auto simp: escape_u4_def split: prod.splits)
  from assms(1) have "c < 16 ^ 4" by simp
  from rand_format_hex_reads_back [OF this h] show ?thesis
    unfolding d by simp
qed

lemma decode_escape_U8:
  assumes "c \<le> 0x10FFFF" "escape_U8 (int c) g = (d, g')"
  shows "decode_basic (d @ rest) = map_option (Cons c) (decode_basic rest)"
proof -
  obtain h where h: "rand_format_hex (int c) 8 g = (h, g')" and d: "d = [0x5C, 0x55] @ h"
    using assms(2) by (auto simp: escape_U8_def split: prod.splits)
  from assms(1) have "c < 16 ^ 8" by simp
  from rand_format_hex_reads_back [OF this h] show ?thesis
    unfolding d by simp
qed

lemma decode_escape_hex:
  "c \<le> 0x10FFFF \<Longrightarrow> escape_hex c r g = (d, g') \<Longrightarrow>
   decode_basic (d @ rest) = map_option (Cons c) (decode_basic rest)"
  by (auto simp: escape_hex_def decode_escape_u4 decode_escape_U8 split: if_splits)

lemma decode_escape_sym:
  "map_of ESCAPE_CHARS c = Some escsym \<Longrightarrow>
   decode_basic (([0x5C] @ escsym) @ rest) = map_option (Cons c) (decode_basic rest)"
  by (auto simp: ESCAPE_CHARS_def lit_def escape_value_def split: if_splits)

lemma decode_format_key_char:
  assumes "c \<le> 0x10FFFF" "format_key_char c g = (d, g')"
  shows "decode_basic (d @ rest) = map_option (Cons c) (decode_basic rest)"
proof -
  obtain r g1 where r: "rng_random g = (r, g1)" by (cases "rng_random g")
  show ?thesis
  proof (cases "\<not> is_basic_unescaped c \<or> r < 0.1")
    case False
    with assms(2) r have "d = [c]" "is_basic_unescaped c" "c \<noteq> 0x5C"
      by (auto simp: format_key_char_def is_basic_unescaped_def)
    then show ?thesis by simp
  next
    case True
    obtain r' g2 where r': "rng_random g1 = (r', g2)" by (cases "rng_random g1")
    show ?thesis
    proof (cases "map_of ESCAPE_CHARS c")
      case None
      with assms(2) r True r' have "escape_hex c r' g2 = (d, g')"
        by (auto simp: format_key_char_def)
      from decode_escape_hex [OF assms(1) this] show ?thesis .
    next
      case (Some escsym)
      show ?thesis
      proof (cases "r' < 0.5")
        case sym: True
        with assms(2) r True r' Some have "d = [0x5C] @ escsym"
          by (auto simp: format_key_char_def)
        with decode_escape_sym [OF Some] show ?thesis by simp
      next
        case False
        with assms(2) r True r' Some have "escape_hex c r' g2 = (d, g')"
          by (auto simp: format_key_char_def)
        from decode_escape_hex [OF assms(1) this] show ?thesis .
      qed
    qed
  qed
qed

lemma decode_format_key_chars:
  "\<forall>c \<in> set s. c \<le> 0x10FFFF \<Longrightarrow> format_key_chars s g = (ds, g') \<Longrightarrow>
   decode_basic (concat ds @ rest) = map_option ((@) s) (decode_basic rest)"
proof (induction s arbitrary: g ds)
  case Nil
  then show ?case by (simp add: option.map_ident)
next
  case (Cons c s)
  obtain d g1 where d: "format_key_char c g = (d, g1)" by (cases "format_key_char c g")
  obtain ds' where ds': "format_key_chars s g1 = (ds', g')" and ds: "ds = d # ds'"
    using Cons.prems(2) d by (auto split: prod.splits)
  from Cons.prems(1) have c: "c \<le> 0x10FFFF" and s: "\<forall>c \<in> set s. c \<le> 0x10FFFF" by simp_all
  have "decode_basic (concat ds @ rest) = decode_basic (d @ (concat ds' @ rest))"
    unfolding ds by simp
  also have "\<dots> = map_option (Cons c) (decode_basic (concat ds' @ rest))"
    by (rule decode_format_key_char [OF c d])
  also have "\<dots> = map_option (Cons c) (map_option ((@) s) (decode_basic rest))"
    using Cons.IH [OF s ds'] by simp
  finally show ?case by (simp add: option.map_comp comp_def)
qed

text \<open>
  Claim C10. A code point of a Python string is at most \<open>0x10FFFF\<close>. For every such
  string \<open>s\<close> the text \<open>_format_simple_key\<close> returns reads back as \<open>s\<close>, and it has one of
  three forms: \<open>s\<close> itself, only if \<open>s\<close> is not empty and all its characters are letters,
  digits, \<open>-\<close> or \<open>_\<close>; \<open>s\<close> in single quotes, only if all its characters are literal-string
  characters; or a basic string in double quotes whose body decodes to \<open>s\<close>, a body in
  which every character outside the basic-unescaped set is written as an escape.
\<close>

theorem format_simple_key_denotes:
  assumes "\<forall>c \<in> set s. c \<le> 0x10FFFF" and "format_simple_key s g = (r, g')"
  shows "decode_simple_key r = Some s
     \<and> ((r = s \<and> s \<noteq> [] \<and> list_all is_unquoted_key_char s)
        \<or> (r = [0x27] @ s @ [0x27] \<and> list_all is_literal_char s)
        \<or> (\<exists>body. r = [0x22] @ body @ [0x22] \<and> decode_basic body = Some s))"
proof -
  from assms(2) consider
      (bare) "r = s" "s \<noteq> []" "\<not> list_ex (\<lambda>c. \<not> is_unquoted_key_char c) s"
    | (literal) "r = [0x27] @ s @ [0x27]" "\<not> list_ex (\<lambda>c. \<not> is_literal_char c) s"
    | (basic) g4 key_chars where "format_key_chars s g4 = (key_chars, g')"
        "r = [0x22] @ concat key_chars @ [0x22]"
    by (auto simp: format_simple_key_def Let_def split: if_splits prod.splits)
  then show ?thesis
  proof cases
    case bare
    then have s: "s \<noteq> []" "list_all is_unquoted_key_char s"
      by (auto simp: list_ex_iff list_all_iff)
    then have "is_unquoted_key_char (hd s)" by (cases s) auto
    then have "hd s \<noteq> 0x22" "hd s \<noteq> 0x27" by (auto simp: is_unquoted_key_char_def lit_def)
    with bare(1) s show ?thesis by (simp add: decode_simple_key_def)
  next
    case literal
    then have "list_all is_literal_char s"
      by (auto simp: list_ex_iff list_all_iff)
    with literal(1) show ?thesis by (simp add: decode_simple_key_def butlast_append)
  next
    case basic
    from decode_format_key_chars [OF assms(1) basic(1), of "[]"]
    have d: "decode_basic (concat key_chars) = Some s" by simp
    with basic(2) show ?thesis by (auto simp: decode_simple_key_def butlast_append)
  qed
qed

lemma rand_format_hex_run: "rand_format_hex 233 4 (1 # g) = (lit ''00E9'', g)"
  by (simp add: rand_format_hex_def rand_format_hex_loop.simps [of 233] rand_format_hex_loop.simps [of 14]
      rand_format_hex_loop.simps [of 0] str_int_def format_int_def digits_base_small
      randint_def randbelow_def lit_def)

lemma format_simple_key_run:
  "format_simple_key [0x61, 0x0A, 0xE9] [2 ^ 52, 0, 0, 0, 0, 1]
     = ([0x22, 0x61, 0x5C, 0x6E, 0x5C, 0x75, 0x30, 0x30, 0x45, 0x39, 0x22], [])"
  by (simp add: format_simple_key_def is_unquoted_key_char_def is_literal_char_def lit_def
      format_key_char_def is_basic_unescaped_def rng_random_def ESCAPE_CHARS_def escape_hex_def
      escape_u4_def rand_format_hex_run [unfolded lit_def, simplified])

theorem format_simple_key_denotes_witness:
  "format_simple_key [0x61, 0x0A, 0xE9] [2 ^ 52, 0, 0, 0, 0, 1]
     = ([0x22, 0x61, 0x5C, 0x6E, 0x5C, 0x75, 0x30, 0x30, 0x45, 0x39, 0x22], [])
   \<and> decode_simple_key [0x22, 0x61, 0x5C, 0x6E, 0x5C, 0x75, 0x30, 0x30, 0x45, 0x39, 0x22]
     = Some [0x61, 0x0A, 0xE9]"
  using format_simple_key_denotes [OF _ format_simple_key_run] format_simple_key_run
  by simp

subsection \<open>The length of a sampled key\<close>

lemma gen_dotted_key_loop_length:
  "gen_dotted_key_loop n key_str key g = ((key_str', key'), g') \<Longrightarrow>
   \<exists>new. key' = key @ new \<and> length new = n"
proof (induction n arbitrary: key_str key g)
  case 0
  then show ?case by simp
next
  case (Suc n)
  from Suc.prems obtain ks1 k g3 where
    "gen_dotted_key_loop n ks1 (key @ [k]) g3 = ((key_str', key'), g')"
    by (auto split: prod.splits)
  from Suc.IH [OF this] obtain new where "key' = (key @ [k]) @ new" "length new = n" by blast
  then show ?case by (intro exI [of _ "k # new"]) simp
qed

lemma gen_dotted_key_length:
  assumes "gen_dotted_key prefix g = ((key_str, key), g')"
  shows "\<exists>new. key = prefix @ new \<and> 1 \<le> length new \<and> length new \<le> 3"
proof -
  from assms obtain ks g1 n g2 ks' where
    n: "randint 1 MAX_DOTTED_LEN g1 = (n, g2)"
    and loop: "gen_dotted_key_loop (nat n) ks prefix g2 = ((ks', key), g')"
    by (auto simp: gen_dotted_key_def split: prod.splits)
  from randint_range [OF _ n] have "1 \<le> n" "n \<le> 3" by (simp_all add: MAX_DOTTED_LEN_def)
  with gen_dotted_key_loop_length [OF loop] show ?thesis by auto
qed

lemma gen_key_search_result:
  "gen_key_search fuel exclude_prefix exclude_key prefix g = Some ((key_str, key), g') \<Longrightarrow>
   (\<exists>new. key = prefix @ new \<and> 1 \<le> length new \<and> length new \<le> 3)
   \<and> key \<notin> set exclude_key
   \<and> (\<forall>i \<in> {1..<length key}. take i key \<notin> set exclude_prefix)"
proof (induction fuel arbitrary: g)
  case 0
  then show ?case by simp
next
  case (Suc fuel)
  obtain ks k g1 where d: "gen_dotted_key prefix g = ((ks, k), g1)"
    by (cases "gen_dotted_key prefix g") auto
  show ?case
  proof (cases "k \<in> set exclude_key \<or> list_ex (\<lambda>i. take i k \<in> set exclude_prefix) [1..<length k]")
    case True
    with Suc.prems d
    have "gen_key_search fuel exclude_prefix exclude_key prefix g1 = Some ((key_str, key), g')"
      by (auto split: if_splits)
    from Suc.IH [OF this] show ?thesis .
  next
    case False
    with Suc.prems d have "key = k" by (auto split: if_splits)
    with False gen_dotted_key_length [OF d] show ?thesis by (auto simp: list_ex_iff)
  qed
qed

lemma gen_key_result:
  assumes "gen_key fuel exclude_prefix exclude_key reuse_prefix reuse_key g
             = Some ((key_str, key), g')"
  shows "key \<in> set reuse_key
     \<or> (\<exists>prefix new. (prefix = [] \<or> prefix \<in> set reuse_prefix) \<and> key = prefix @ new
           \<and> 1 \<le> length new \<and> length new \<le> 3
           \<and> key \<notin> set exclude_key
           \<and> (\<forall>i \<in> {1..<length key}. take i key \<notin> set exclude_prefix))"
proof (cases "reuse_prefix \<noteq> [] \<or> reuse_key \<noteq> []")
  case False
  with assms have "gen_key_search fuel exclude_prefix exclude_key [] g = Some ((key_str, key), g')"
    by (simp add: gen_key_def)
  from gen_key_search_result [OF this] show ?thesis by blast
next
  case True
  obtain u g1 where u: "rng_random g = (u, g1)" by (cases "rng_random g")
  show ?thesis
  proof (cases "u < 0.5")
    case False
    with assms True u
    have "gen_key_search fuel exclude_prefix exclude_key [] g1 = Some ((key_str, key), g')"
      by (auto simp: gen_key_def)
    from gen_key_search_result [OF this] show ?thesis by blast
  next
    case reuse: True
    define n where "n = length reuse_prefix + length reuse_key"
    obtain r g2 where r: "randint 0 (int n - 1) g1 = (r, g2)"
      by (cases "randint 0 (int n - 1) g1")
    from True have "0 < n" by (auto simp: n_def)
    with randint_range [OF _ r] have range: "0 \<le> r" "r < int n" by auto
    show ?thesis
    proof (cases "r < int (length reuse_key)")
      case k: True
      with assms True u reuse r have "key = reuse_key ! nat r"
        by (auto simp: gen_key_def n_def Let_def split: prod.splits)
      moreover from k range have "nat r < length reuse_key" by simp
      ultimately show ?thesis by simp
    next
      case p: False
      define prefix where "prefix = reuse_prefix ! nat (r - int (length reuse_key))"
      from p range have "nat (r - int (length reuse_key)) < length reuse_prefix"
        by (simp add: n_def)
      then have "prefix \<in> set reuse_prefix" by (simp add: prefix_def)
      moreover from assms True u reuse r p
      have "gen_key_search fuel exclude_prefix exclude_key prefix g2 = Some ((key_str, key), g')"
        by (auto simp: gen_key_def n_def prefix_def Let_def)
      from gen_key_search_result [OF this]
      have "(\<exists>new. key = prefix @ new \<and> 1 \<le> length new \<and> length new \<le> 3)
         \<and> key \<notin> set exclude_key
         \<and> (\<forall>i \<in> {1..<length key}. take i key \<notin> set exclude_prefix)" .
      ultimately show ?thesis by blast
    qed
  qed
qed

text \<open>
  Claim C1, as amended. The key \<open>_gen_key\<close> returns is an element of \<open>reuse_key\<close>, or it
  is the empty prefix or an element of \<open>reuse_prefix\<close> followed by between 1 and
  \<open>MAX_DOTTED_LEN = 3\<close> fresh segments. With both reuse sets empty it has between 1 and 3
  segments.
\<close>

theorem gen_key_length:
  assumes "gen_key fuel exclude_prefix exclude_key reuse_prefix reuse_key g
             = Some ((key_str, key), g')"
  shows "(key \<in> set reuse_key
      \<or> (\<exists>prefix new. (prefix = [] \<or> prefix \<in> set reuse_prefix) \<and> key = prefix @ new
            \<and> 1 \<le> length new \<and> int (length new) \<le> MAX_DOTTED_LEN))
     \<and> (reuse_prefix = [] \<and> reuse_key = []
           \<longrightarrow> 1 \<le> length key \<and> int (length key) \<le> MAX_DOTTED_LEN)
     \<and> MAX_DOTTED_LEN = 3"
  using gen_key_result [OF assms] by (fastforce simp: MAX_DOTTED_LEN_def)

lemma rand_exp_at_zero [simp]:
  "rand_exp mean 0 maxval (0 # g) = (0, g)" "rand_exp mean 0 maxval [] = (0, [])"
  by (simp_all add: rand_exp_def uniform_def rng_random_def)

lemma gen_ws_at_zero [simp]: "gen_ws (0 # g) = ([], g)" "gen_ws [] = ([], [])"
  by (simp_all add: gen_ws_def)

lemma gen_basic_string_at_zero [simp]: "gen_basic_string [] = (([0x22, 0x22], []), [])"
  by (simp add: gen_basic_string_def)

lemma gen_key_run:
  "gen_key 1 [] [] [[[0x61], [0x62], [0x63]]] [] [0, 0, 2 ^ 52, 0, 0, 2 ^ 52, 0, 0, 2 ^ 52]
     = Some ((lit ''a.b.c.'' @ [0x22, 0x22], [[0x61], [0x62], [0x63], []]), [])"
  by (simp add: gen_key_def rng_random_def randint_def randbelow_def gen_dotted_key_def
      format_simple_key_def is_unquoted_key_char_def is_literal_char_def lit_def gen_dot_sep_def
      MAX_DOTTED_LEN_def gen_simple_key_def)

text \<open>
  Claim C1 as stated fails: a reused prefix of three segments gives a key of four.
\<close>

theorem gen_key_four_segments:
  "gen_key 1 [] [] [[[0x61], [0x62], [0x63]]] [] [0, 0, 2 ^ 52, 0, 0, 2 ^ 52, 0, 0, 2 ^ 52]
     = Some ((lit ''a.b.c.'' @ [0x22, 0x22], [[0x61], [0x62], [0x63], []]), [])"
  by (rule gen_key_run)

theorem gen_key_length_witness:
  "gen_key 1 [] [] [[[0x61], [0x62], [0x63]]] [] [0, 0, 2 ^ 52, 0, 0, 2 ^ 52, 0, 0, 2 ^ 52]
     = Some ((lit ''a.b.c.'' @ [0x22, 0x22], [[0x61], [0x62], [0x63], []]), [])
   \<and> (\<exists>prefix new. prefix \<in> set [[[0x61], [0x62], [0x63 :: nat]]]
         \<and> [[0x61], [0x62], [0x63], []] = prefix @ new \<and> length new = 1)"
  using gen_key_length [OF gen_key_run] gen_key_run by simp

section \<open>Verification: table arrays\<close>

lemma subtable_at_node_at:
  "key \<noteq> [] \<Longrightarrow> subtable_at key tbl =
     (case node_at key tbl of
        Some (Table d dt elems) \<Rightarrow> Some elems
      | Some (TableArray init lst) \<Rightarrow> Some lst
      | _ \<Rightarrow> None)"
proof (induction key arbitrary: tbl rule: list_nonempty_induct)
  case (single p)
  then show ?case by (auto split: option.splits child.splits)
next
  case (cons p ps)
  then obtain q qs where ps: "ps = q # qs" by (cases ps) auto
  with cons.IH show ?case by (auto split: option.splits child.splits)
qed

lemma node_at_Cons:
  "ps \<noteq> [] \<Longrightarrow> node_at (p # ps) tbl =
     (case map_of tbl p of
        Some (Table d dt elems) \<Rightarrow> node_at ps elems
      | Some (TableArray init lst) \<Rightarrow> node_at ps lst
      | _ \<Rightarrow> None)"
  by (cases ps) auto

lemma node_at_empty [simp]: "node_at key [] = None"
  by (induction key "[] :: table" rule: node_at.induct) auto

text \<open>
  The walk of \<open>open_table_array\<close> from a table \<open>tbl\<close>, under the precondition that no
  proper prefix of the key names a value and the key names nothing or a table array.
\<close>

lemma open_table_array_walk:
  assumes "key \<noteq> []"
    and "\<forall>i \<in> {1..<length key}. \<not> is_value_node (node_at (take i key) tbl)"
    and "node_at key tbl = None \<or> is_array_node (node_at key tbl)"
  shows "\<exists>tbl'. make_subtable tbl (butlast key) False (open_table_array_last (last key)) = Inr tbl'
      \<and> subtable_at key tbl' = Some []
      \<and> node_at key tbl' = Some (TableArray (array_elems (node_at key tbl)) [])
      \<and> (\<forall>i \<in> {1..<length key}.
            (is_table_node (node_at (take i key) tbl') \<or> is_array_node (node_at (take i key) tbl'))
            \<and> (node_at (take i key) tbl = None
                 \<longrightarrow> (\<exists>elems. node_at (take i key) tbl' = Some (Table False False elems))))"
  using assms
proof (induction key arbitrary: tbl rule: list_nonempty_induct)
  case (single p)
  define tbl' where "tbl' = AList.update p (TableArray (array_elems (map_of tbl p)) []) tbl"
  have "open_table_array_last p tbl = Inr tbl'"
    using single.prems(2)
    by (auto simp: open_table_array_last_def tbl'_def is_array_node_def array_elems_def
        split: option.splits child.splits)
  moreover have "map_of tbl' p = Some (TableArray (array_elems (map_of tbl p)) [])"
    by (simp add: tbl'_def update_conv')
  ultimately show ?case by simp
next
  case (cons p ps)
  have bl: "butlast (p # ps) = p # butlast ps" "last (p # ps) = last ps"
    using cons.hyps by simp_all
  let ?f = "open_table_array_last (last ps)"
  have first: "\<not> is_value_node (map_of tbl p)"
    using cons.prems(1) cons.hyps by (cases ps) (auto dest: bspec [where x = 1])
  text \<open>The table the walk enters at \<open>p\<close>, and the table \<open>tbl1\<close> after the first step.\<close>
  define tbl1 where
    "tbl1 = (if map_of tbl p = None then AList.update p (Table False False []) tbl else tbl)"
  define sub where
    "sub = (case map_of tbl p of Some (Table d dt elems) \<Rightarrow> elems
            | Some (TableArray init lst) \<Rightarrow> lst | _ \<Rightarrow> [])"
  define wrap where
    "wrap = (\<lambda>t. case map_of tbl p of Some (TableArray init lst) \<Rightarrow> TableArray init t
               | Some (Table d dt elems) \<Rightarrow> Table d dt t | _ \<Rightarrow> Table False False t)"
  have nodes: "node_at (p # qs) tbl = node_at qs sub" if "qs \<noteq> []" for qs
    using that first
    by (auto simp: node_at_Cons sub_def is_value_node_def split: option.splits child.splits)
  have step: "make_subtable tbl (p # butlast ps) False ?f
      = (case make_subtable sub (butlast ps) False ?f of
           Inl e \<Rightarrow> Inl e | Inr sub' \<Rightarrow> Inr (AList.update p (wrap sub') tbl1))"
    using first
    by (auto simp: tbl1_def sub_def wrap_def update_conv' is_value_node_def
        split: option.splits child.splits sum.splits)
  have pre1: "\<forall>i \<in> {1..<length ps}. \<not> is_value_node (node_at (take i ps) sub)"
  proof
    fix i assume i: "i \<in> {1..<length ps}"
    then have "Suc i \<in> {1..<length (p # ps)}" by simp
    from cons.prems(1) [rule_format, OF this] have "\<not> is_value_node (node_at (p # take i ps) tbl)"
      by simp
    moreover from i have "take i ps \<noteq> []" using cons.hyps by (cases ps) auto
    ultimately show "\<not> is_value_node (node_at (take i ps) sub)" by (simp add: nodes)
  qed
  have pre2: "node_at ps sub = None \<or> is_array_node (node_at ps sub)"
    using cons.prems(2) nodes [OF cons.hyps] by simp
  from cons.IH [OF pre1 pre2] obtain sub' where
    run: "make_subtable sub (butlast ps) False ?f = Inr sub'"
    and act: "subtable_at ps sub' = Some []"
    and arr: "node_at ps sub' = Some (TableArray (array_elems (node_at ps sub)) [])"
    and anc: "\<forall>i \<in> {1..<length ps}.
            (is_table_node (node_at (take i ps) sub') \<or> is_array_node (node_at (take i ps) sub'))
            \<and> (node_at (take i ps) sub = None
                 \<longrightarrow> (\<exists>elems. node_at (take i ps) sub' = Some (Table False False elems)))"
    by blast
  define tbl' where "tbl' = AList.update p (wrap sub') tbl1"
  have look: "map_of tbl' p = Some (wrap sub')" by (simp add: tbl'_def update_conv')
  have nodes': "node_at (p # qs) tbl' = node_at qs sub'" if "qs \<noteq> []" for qs
    using that by (auto simp: node_at_Cons look wrap_def split: option.splits child.splits)
  have sub_at': "subtable_at (p # qs) tbl' = subtable_at qs sub'" for qs
    by (auto simp: look wrap_def split: option.splits child.splits)
  have "make_subtable tbl (butlast (p # ps)) False (open_table_array_last (last (p # ps)))
          = Inr tbl'"
    unfolding bl step run tbl'_def by simp
  moreover have "subtable_at (p # ps) tbl' = Some []" by (simp only: sub_at' act)
  moreover have "node_at (p # ps) tbl' = Some (TableArray (array_elems (node_at (p # ps) tbl)) [])"
    by (simp add: nodes' [OF cons.hyps] nodes [OF cons.hyps] arr)
  moreover have "(is_table_node (node_at (take i (p # ps)) tbl')
                    \<or> is_array_node (node_at (take i (p # ps)) tbl'))
            \<and> (node_at (take i (p # ps)) tbl = None
                 \<longrightarrow> (\<exists>elems. node_at (take i (p # ps)) tbl' = Some (Table False False elems)))"
    if i: "i \<in> {1..<length (p # ps)}" for i
  proof (cases "i = 1")
    case True
    then show ?thesis
      by (auto simp: look wrap_def is_table_node_def is_array_node_def
          split: option.splits child.splits)
  next
    case False
    with i obtain j where j: "i = Suc j" "j \<in> {1..<length ps}" by (cases i) auto
    then have ne: "take j ps \<noteq> []" using cons.hyps by (cases ps) auto
    from anc [rule_format, OF j(2)] show ?thesis
      by (simp add: j(1) nodes [OF ne] nodes' [OF ne])
  qed
  ultimately show ?case by blast
qed

text \<open>An update through the active table leaves the earlier elements of its array alone.\<close>

lemma update_at_array_init:
  "key \<noteq> [] \<Longrightarrow> node_at key tbl = Some (TableArray init lst) \<Longrightarrow>
   update_at key f tbl = Inr tbl' \<Longrightarrow>
   \<exists>lst'. node_at key tbl' = Some (TableArray init lst') \<and> f lst = Inr lst'"
proof (induction key arbitrary: tbl tbl' rule: list_nonempty_induct)
  case (single p)
  then show ?case by (auto simp: update_conv' split: sum.splits)
next
  case (cons p ps)
  have step: ?case
    if look: "map_of tbl p = Some (wrap sub)"
      and wrap: "(\<exists>d dt. wrap = Table d dt) \<or> (\<exists>i. wrap = TableArray i)" for wrap sub
  proof -
    from cons.prems(1) cons.hyps look wrap
    have node: "node_at ps sub = Some (TableArray init lst)"
      by (cases ps) auto
    from cons.prems(2) look wrap obtain sub' where
      up: "update_at ps f sub = Inr sub'" and tbl': "tbl' = AList.update p (wrap sub') tbl"
      by (auto split: sum.splits)
    from cons.IH [OF node up] obtain lst' where
      "node_at ps sub' = Some (TableArray init lst')" "f lst = Inr lst'" by blast
    moreover have "node_at (p # ps) tbl' = node_at ps sub'"
      using wrap cons.hyps unfolding tbl' by (cases ps) (auto simp: update_conv')
    ultimately show ?thesis by simp
  qed
  from cons.prems(1) cons.hyps
  consider d dt sub where "map_of tbl p = Some (Table d dt sub)"
    | i sub where "map_of tbl p = Some (TableArray i sub)"
    by (cases ps) (auto split: option.splits child.splits)
  then show ?case
  proof cases
    case 1
    then show ?thesis by (intro step [of "Table d dt" sub]) auto
  next
    case 2
    then show ?thesis by (intro step [of "TableArray i" sub]) auto
  qed
qed

text \<open>
  Claim C8. Under its precondition (the key is not empty, no proper prefix of it names
  a value, and the key itself names nothing or a table array) \<open>open_table_array\<close>
  succeeds; afterwards every proper prefix of the key names a table or a table array
  (a table with both flags false where it named nothing before), the key names a table
  array whose elements are the former ones followed by a new empty table, that table is
  the active one, and an assignment changes nothing but the last element of the array.
  \<open>[[a]]\<close> twice on the empty context gives the model \<open>{a: [{}, {}]}\<close>, and an assignment
  \<open>k = v\<close> after it gives \<open>{a: [{}, {k: v}]}\<close>.
\<close>

theorem open_table_array_post:
  "(key \<noteq> []
     \<and> (\<forall>i \<in> {1..<length key}. \<not> is_value_node (node_at (take i key) (data ctx)))
     \<and> \<not> is_value_node (node_at key (data ctx)) \<and> \<not> is_table_node (node_at key (data ctx))
    \<longrightarrow> (\<exists>ctx'. open_table_array debug key ctx = Inr ctx'
          \<and> active ctx' = key \<and> active_table ctx' = Some []
          \<and> node_at key (data ctx')
              = Some (TableArray (array_elems (node_at key (data ctx))) [])
          \<and> (\<forall>i \<in> {1..<length key}.
                (is_table_node (node_at (take i key) (data ctx'))
                   \<or> is_array_node (node_at (take i key) (data ctx')))
                \<and> (node_at (take i key) (data ctx) = None
                     \<longrightarrow> (\<exists>elems. node_at (take i key) (data ctx')
                                    = Some (Table False False elems))))
          \<and> (\<forall>k v ctx''. assign debug' k v ctx' = Inr ctx''
                \<longrightarrow> (\<exists>lst. node_at key (data ctx'')
                       = Some (TableArray (array_elems (node_at key (data ctx))) lst)))))
   \<and> (\<exists>c1 c2. open_table_array debug [a] Context_init = Inr c1 \<and> open_table_array debug [a] c1 = Inr c2
          \<and> get_data c2 = [(a, VList [VDict [], VDict []])]
          \<and> (\<forall>k v. \<exists>c3. assign debug [k] v c2 = Inr c3
                \<and> get_data c3 = [(a, VList [VDict [], VDict [(k, v)]])]))"
proof (intro conjI impI)
  assume pre: "key \<noteq> []
     \<and> (\<forall>i \<in> {1..<length key}. \<not> is_value_node (node_at (take i key) (data ctx)))
     \<and> \<not> is_value_node (node_at key (data ctx)) \<and> \<not> is_table_node (node_at key (data ctx))"
  then have "node_at key (data ctx) = None \<or> is_array_node (node_at key (data ctx))"
    by (auto simp: is_value_node_def is_table_node_def is_array_node_def
        split: option.splits child.splits)
  with open_table_array_walk [of key "data ctx"] pre obtain tbl' where
    run: "make_subtable (data ctx) (butlast key) False (open_table_array_last (last key)) = Inr tbl'"
    and act: "subtable_at key tbl' = Some []"
    and arr: "node_at key tbl' = Some (TableArray (array_elems (node_at key (data ctx))) [])"
    and anc: "\<forall>i \<in> {1..<length key}.
            (is_table_node (node_at (take i key) tbl') \<or> is_array_node (node_at (take i key) tbl'))
            \<and> (node_at (take i key) (data ctx) = None
                 \<longrightarrow> (\<exists>elems. node_at (take i key) tbl' = Some (Table False False elems)))"
    by blast
  define ctx' where
    "ctx' = (debug_print debug (PrintOpenArray key) ctx)\<lparr>data := tbl', active := key\<rparr>"
  have open_ok: "open_table_array debug key ctx = Inr ctx'"
    using pre run by (simp add: open_table_array_def ctx'_def debug_print_def)
  have later: "\<exists>lst. node_at key (data ctx'')
                       = Some (TableArray (array_elems (node_at key (data ctx))) lst)"
    if "assign debug' k v ctx' = Inr ctx''" for k v ctx''
  proof -
    from that obtain d where
      "update_at key (\<lambda>tbl. make_subtable tbl (butlast k) True (assign_last (last k) v)) tbl'
         = Inr d" and "data ctx'' = d"
      by (auto simp: assign_def ctx'_def debug_print_def Let_def split: if_splits sum.splits)
    with update_at_array_init [OF _ arr this(1)] pre show ?thesis by auto
  qed
  show "\<exists>ctx'. open_table_array debug key ctx = Inr ctx'
          \<and> active ctx' = key \<and> active_table ctx' = Some []
          \<and> node_at key (data ctx')
              = Some (TableArray (array_elems (node_at key (data ctx))) [])
          \<and> (\<forall>i \<in> {1..<length key}.
                (is_table_node (node_at (take i key) (data ctx'))
                   \<or> is_array_node (node_at (take i key) (data ctx')))
                \<and> (node_at (take i key) (data ctx) = None
                     \<longrightarrow> (\<exists>elems. node_at (take i key) (data ctx')
                                    = Some (Table False False elems))))
          \<and> (\<forall>k v ctx''. assign debug' k v ctx' = Inr ctx''
                \<longrightarrow> (\<exists>lst. node_at key (data ctx'')
                       = Some (TableArray (array_elems (node_at key (data ctx))) lst)))"
    using open_ok act arr anc later
    by (intro exI [of _ ctx']) (simp add: ctx'_def active_table_def)
next
  show "\<exists>c1 c2. open_table_array debug [a] Context_init = Inr c1 \<and> open_table_array debug [a] c1 = Inr c2
          \<and> get_data c2 = [(a, VList [VDict [], VDict []])]
          \<and> (\<forall>k v. \<exists>c3. assign debug [k] v c2 = Inr c3
                \<and> get_data c3 = [(a, VList [VDict [], VDict [(k, v)]])])"
    by (simp add: open_table_array_def open_table_array_last_def Context_init_def assign_def
        assign_last_def get_data_def debug_print_def)
qed

theorem open_table_array_post_witness:
  "open_table_array False [[0x61]] Context_init
     = Inr \<lparr>data = [([0x61], TableArray [] [])], active = [[0x61]], printed = []\<rparr>
   \<and> active_table \<lparr>data = [([0x61], TableArray [] [])], active = [[0x61]], printed = []\<rparr>
     = Some []
   \<and> open_table_array False [[0x61]]
       \<lparr>data = [([0x61], TableArray [] [])], active = [[0x61]], printed = []\<rparr>
     = Inr \<lparr>data = [([0x61], TableArray [[]] [])], active = [[0x61]], printed = []\<rparr>
   \<and> get_data \<lparr>data = [([0x61], TableArray [[]] [])], active = [[0x61]], printed = []\<rparr>
     = [([0x61], VList [VDict [], VDict []])]
   \<and> assign False [[0x62]] (VBool True)
       \<lparr>data = [([0x61], TableArray [[]] [])], active = [[0x61]], printed = []\<rparr>
     = Inr \<lparr>data = [([0x61], TableArray [[]] [([0x62], Value (VBool True))])],
            active = [[0x61]], printed = []\<rparr>"
  using open_table_array_post [of "[[0x61]]" Context_init False False "[0x61]"]
  by (simp add: open_table_array_def open_table_array_last_def Context_init_def assign_def
      assign_last_def get_data_def active_table_def debug_print_def)

section \<open>Verification: the characters of the document\<close>

lemma document_char_hexdig: "is_hexdig c \<Longrightarrow> document_char c"
  by (auto simp: is_hexdig_def document_char_def scalar_no_control_def)

lemma document_char_literal: "is_literal_char c \<Longrightarrow> document_char c"
  by (auto simp: is_literal_char_def document_char_def scalar_no_control_def)

lemma document_char_basic: "is_basic_unescaped c \<Longrightarrow> document_char c"
  by (auto simp: is_basic_unescaped_def document_char_def scalar_no_control_def)

lemma document_char_unquoted: "is_unquoted_key_char c \<Longrightarrow> document_char c"
  by (auto simp: is_unquoted_key_char_def document_char_def scalar_no_control_def lit_def)

lemma document_char_ascii: "0x20 \<le> c \<Longrightarrow> c \<le> 0x7E \<Longrightarrow> document_char c"
  by (auto simp: document_char_def scalar_no_control_def)

lemma text_mono: "list_all P s \<Longrightarrow> (\<And>c. P c \<Longrightarrow> document_char c) \<Longrightarrow> list_all document_char s"
  by (induction s) auto

lemma text_subset: "set s \<subseteq> set t \<Longrightarrow> list_all document_char t \<Longrightarrow> list_all document_char s"
  by (auto simp: list_all_iff)

lemma text_concat:
  "list_all (list_all document_char) ps \<Longrightarrow> list_all document_char (concat ps)"
  by (induction ps) auto

lemma text_replicate: "document_char c \<Longrightarrow> list_all document_char (replicate n c)"
  by (induction n) auto

lemma text_zeros [simp]: "list_all document_char (replicate n 0x30)"
  by (rule text_replicate) (simp add: document_char_ascii)

lemma text_lit:
  "list_all document_char (lit [])"
  "list_all document_char (lit (c # cs))
     \<longleftrightarrow> document_char (of_char c) \<and> list_all document_char (lit cs)"
  by (simp_all add: lit_def)

lemma text_hexdig: "list_all is_hexdig s \<Longrightarrow> list_all document_char s"
  by (erule text_mono) (rule document_char_hexdig)

lemma gen_newline_text: "gen_newline g = (s, g') \<Longrightarrow> list_all document_char s"
  by (auto dest!: gen_newline_cases simp: document_char_def)

lemma gen_ws_text: "gen_ws g = (s, g') \<Longrightarrow> list_all document_char s"
  by (drule gen_ws_chars) (auto simp: list_all_iff document_char_def scalar_no_control_def)

lemma randint_char:
  "randint a b g = (c, g') \<Longrightarrow> 0x20 \<le> a \<Longrightarrow> a \<le> b \<Longrightarrow> b \<le> 0xD7FF \<or> 0xE000 \<le> a \<and> b \<le> 0x10FFFF
   \<Longrightarrow> document_char (nat c)"
  using randint_range [of a b g c g']
  by (auto simp: document_char_def scalar_no_control_def)

lemma gen_comment_char_text: "gen_comment_char t g = (c, g') \<Longrightarrow> document_char c"
proof -
  assume a: "gen_comment_char t g = (c, g')"
  have 1: "choice [0x09, 0x20, 0x20, 0x20, 0x20] g = (x, g2) \<Longrightarrow> document_char x" for x :: nat and g2
    using choice_in_set [of "[0x09, 0x20, 0x20, 0x20, 0x20]" g x g2]
    by (auto simp: document_char_def scalar_no_control_def)
  have 2: "choice [0x23, 0x22, 0x27, 0x5C] g = (x, g2) \<Longrightarrow> document_char x" for x :: nat and g2
    using choice_in_set [of "[0x23, 0x22, 0x27, 0x5C]" g x g2]
    by (auto simp: document_char_def scalar_no_control_def)
  from a show ?thesis
    by (auto simp: gen_comment_char_def split: if_splits prod.splits
        dest: 1 2 dest!: randint_char)
qed

lemma gen_comment_chars_text: "gen_comment_chars ts g = (s, g') \<Longrightarrow> list_all document_char s"
  by (induction ts arbitrary: g s g')
     (auto split: prod.splits dest: gen_comment_char_text)

lemma gen_comment_text: "gen_comment g = (s, g') \<Longrightarrow> list_all document_char s"
  by (auto simp: gen_comment_def document_char_ascii split: prod.splits
      dest: gen_comment_chars_text)

subsection \<open>Numbers, dates and times\<close>

lemma digits_base_text: "2 \<le> b \<Longrightarrow> b \<le> 10 \<Longrightarrow> list_all document_char (digits_base b n)"
  by (rule text_hexdig) (rule digits_base_hexdig)

lemma format_int_text: "2 \<le> b \<Longrightarrow> b \<le> 10 \<Longrightarrow> list_all document_char (format_int b i)"
  by (simp add: format_int_def digits_base_text lit_def document_char_ascii)

lemma format_0d_text: "list_all document_char (format_0d w i)"
  by (simp add: format_0d_def digits_base_text lit_def document_char_ascii)

lemma apply_fmtfunc_text: "apply_fmtfunc f val g = (s, g') \<Longrightarrow> list_all document_char s"
  using rand_format_hex_hexdig [of val 1 g]
  by (cases f) (auto simp: apply_fmtfunc_def str_int_def format_int_text dest: text_hexdig)

lemma join_subset: "set (join sep ps) \<subseteq> set sep \<union> \<Union> (set ` set ps)"
  by (induction sep ps rule: join.induct) auto

lemma splice_number_loop_subset:
  "splice_number_loop s is parts p g = ((parts', p'), g') \<Longrightarrow>
   \<forall>q \<in> set parts. set q \<subseteq> set s \<Longrightarrow> \<forall>q \<in> set parts'. set q \<subseteq> set s"
proof (induction "is" arbitrary: parts p g)
  case Nil
  then show ?case by simp
next
  case (Cons i "is")
  obtain r g1 where r: "rng_random g = (r, g1)" by (cases "rng_random g")
  show ?case
  proof (cases "r < 0.1")
    case True
    have piece: "set (take (i - p) (drop p s)) \<subseteq> set s"
      by (auto dest!: in_set_takeD in_set_dropD)
    have "splice_number_loop s is (parts @ [take (i - p) (drop p s)]) i g1 = ((parts', p'), g')"
      using Cons.prems(1) r True by simp
    from Cons.IH [OF this] Cons.prems(2) piece show ?thesis by auto
  next
    case False
    have "splice_number_loop s is parts p g1 = ((parts', p'), g')"
      using Cons.prems(1) r False by simp
    from Cons.IH [OF this] Cons.prems(2) show ?thesis by auto
  qed
qed

lemma splice_number_text:
  assumes "splice_number s g = (t, g')" and "list_all document_char s"
  shows "list_all document_char t"
proof -
  obtain parts p g1 where loop: "splice_number_loop s [1..<length s] [] 0 g = ((parts, p), g1)"
    by (cases "splice_number_loop s [1..<length s] [] 0 g") auto
  from splice_number_loop_subset [OF loop] have parts: "\<forall>q \<in> set parts. set q \<subseteq> set s" by simp
  have t: "t = join (lit ''_'') (parts @ [drop p s])"
    using assms(1) loop by (simp add: splice_number_def)
  have "set t \<subseteq> set (lit ''_'') \<union> set s"
    unfolding t using join_subset [of "lit ''_''" "parts @ [drop p s]"] parts
      set_drop_subset [of p s] by auto
  with assms(2) show ?thesis
    by (auto simp: list_all_iff lit_def document_char_ascii)
qed

lemma gen_boolean_text: "gen_boolean g = ((s, v), g') \<Longrightarrow> list_all document_char s"
  using choice_in_set [of "[(lit ''true'', True), (lit ''false'', False)]" g "(s, v)" g']
  by (auto simp: gen_boolean_def lit_def document_char_ascii)

lemma gen_integer_text:
  assumes "gen_integer g = ((s, v), g')"
  shows "list_all document_char s"
proof -
  obtain r g1 where r: "rng_random g = (r, g1)" by (cases "rng_random g")
  define val where "val = py_round (exp (r ^ 2 * ln (real_of_int (MAX_INT_VALUE + 1))) - 1)"
  obtain prefix fmtfunc add_zeros sign g2 where
    c: "choice int_formats g1 = ((prefix, fmtfunc, add_zeros, sign), g2)"
    by (cases "choice int_formats g1") auto
  obtain s0 g3 where s0: "apply_fmtfunc fmtfunc val g2 = (s0, g3)"
    by (cases "apply_fmtfunc fmtfunc val g2")
  obtain s1 g5 where s1:
    "(if add_zeros then (case randint 0 3 g3 of (n, g4) \<Rightarrow> (replicate (nat n) 0x30 @ s0, g4))
      else (s0, g3)) = (s1, g5)"
    by (cases "if add_zeros then (case randint 0 3 g3 of (n, g4) \<Rightarrow> (replicate (nat n) 0x30 @ s0, g4))
      else (s0, g3)")
  obtain s2 g6 where s2: "splice_number s1 g5 = (s2, g6)" by (cases "splice_number s1 g5")
  from assms r c s0 s1 s2 have s: "s = prefix @ s2"
    by (simp add: gen_integer_def Let_def val_def)
  from choice_in_set [OF _ c] have "list_all document_char prefix"
    by (auto simp: int_formats_def lit_def document_char_ascii)
  moreover from apply_fmtfunc_text [OF s0] s1 have "list_all document_char s1"
    by (auto simp: list_all_iff document_char_ascii split: if_splits prod.splits)
  ultimately show ?thesis using splice_number_text [OF s2] by (simp add: s)
qed

lemma choice_sign_text:
  "choice [lit '''', lit ''+'', lit ''-''] g = (x, g') \<Longrightarrow> list_all document_char x"
  using choice_in_set [of "[lit '''', lit ''+'', lit ''-'']" g x g']
  by (auto simp: lit_def document_char_ascii)

lemma gen_dec_int_text:
  assumes "gen_dec_int m sg zp g = ((s, v), g')"
  shows "list_all document_char s"
proof -
  obtain x g1 where x: "randint 0 m g = (x, g1)" by (cases "randint 0 m g")
  obtain sign_str g2 where sg:
    "(if sg then choice [lit '''', lit ''+'', lit ''-''] g1 else (lit '''', g1)) = (sign_str, g2)"
    by (cases "if sg then choice [lit '''', lit ''+'', lit ''-''] g1 else (lit '''', g1)")
  obtain prefix g4 where pf:
    "(if zp then (case randint 0 3 g2 of (n, g3) \<Rightarrow> (replicate (nat n) 0x30, g3))
      else (lit '''', g2)) = (prefix, g4)"
    by (cases "if zp then (case randint 0 3 g2 of (n, g3) \<Rightarrow> (replicate (nat n) 0x30, g3))
      else (lit '''', g2)")
  obtain sp g5 where sp: "splice_number (prefix @ str_int x) g4 = (sp, g5)"
    by (cases "splice_number (prefix @ str_int x) g4")
  from assms x sg pf sp have s: "s = sign_str @ sp" by (simp add: gen_dec_int_def)
  from sg have 1: "list_all document_char sign_str"
    by (auto simp: text_lit split: if_splits dest: choice_sign_text)
  from pf have "list_all document_char prefix"
    by (auto simp: lit_def split: if_splits prod.splits)
  then have "list_all document_char (prefix @ str_int x)"
    by (simp add: str_int_def format_int_text)
  from splice_number_text [OF sp this] 1 show ?thesis by (simp add: s)
qed

lemma gen_float_text:
  assumes "gen_float g = ((s, v), g')"
  shows "list_all document_char s"
proof -
  note 1 = choice_sign_text
  have 2: "choice [lit ''inf'', lit ''nan''] g1 = (x, g2) \<Longrightarrow> list_all document_char x"
    for x g1 g2
    using choice_in_set [of "[lit ''inf'', lit ''nan'']" g1 x g2]
    by (auto simp: lit_def document_char_ascii)
  have 3: "choice (lit ''eE'') g1 = (x, g2) \<Longrightarrow> document_char x" for x g1 g2
    using choice_in_set [of "lit ''eE''" g1 x g2]
    by (auto simp: lit_def document_char_ascii)
  from assms show ?thesis
    by (auto simp: gen_float_def Let_def text_lit document_char_ascii
        split: prod.splits if_splits dest: 1 2 3 gen_dec_int_text)
qed

lemma date_isoformat_text: "list_all document_char (date_isoformat d)"
  by (cases d) (simp add: date_isoformat_def format_0d_text lit_def document_char_ascii)

lemma time_isoformat_text: "list_all document_char (time_isoformat t)"
  by (cases t) (simp add: time_isoformat_def format_0d_text lit_def document_char_ascii)

lemma gen_local_date_text: "gen_local_date g = ((s, v), g') \<Longrightarrow> list_all document_char s"
  by (auto simp: gen_local_date_def Let_def date_isoformat_text split: prod.splits)

lemma gen_local_time_text: "gen_local_time g = ((s, v), g') \<Longrightarrow> list_all document_char s"
  by (auto simp: gen_local_time_def Let_def time_isoformat_text lit_def document_char_ascii
      list_all_iff [of _ "replicate _ _"] split: prod.splits if_splits)

lemma gen_timezone_text: "gen_timezone g = ((s, v), g') \<Longrightarrow> list_all document_char s"
  by (auto simp: gen_timezone_def format_0d_text lit_def document_char_ascii
      split: prod.splits if_splits)

lemma choice_delim_text: "choice (lit ''Tt '') g = (c, g') \<Longrightarrow> document_char c"
  using choice_in_set [of "lit ''Tt ''" g c g']
  by (auto simp: lit_def document_char_ascii)

lemma gen_date_time_text: "gen_date_time g = ((s, v), g') \<Longrightarrow> list_all document_char s"
  by (auto simp: gen_date_time_def gen_offset_date_time_def gen_local_date_time_def
      split: prod.splits date_time_form.splits
      dest: gen_local_date_text gen_local_time_text gen_timezone_text choice_delim_text)

lemma gen_ws_comment_newline_part_text:
  "gen_ws_comment_newline_part g = (s, g') \<Longrightarrow> list_all document_char s"
  by (auto simp: gen_ws_comment_newline_part_def split: prod.splits if_splits
      dest: gen_ws_text gen_comment_text gen_newline_text)

lemma gen_ws_comment_newline_loop_text:
  "gen_ws_comment_newline_loop k g = (s, g') \<Longrightarrow> list_all document_char s"
  by (induction k arbitrary: g s g')
     (auto split: prod.splits dest: gen_ws_comment_newline_part_text)

lemma gen_ws_comment_newline_text:
  "gen_ws_comment_newline g = (s, g') \<Longrightarrow> list_all document_char s"
  by (auto simp: gen_ws_comment_newline_def split: prod.splits
      dest: gen_ws_comment_newline_loop_text)

subsection \<open>Strings\<close>

lemma gen_basic_char_text: "gen_basic_char g = ((d, v), g') \<Longrightarrow> list_all document_char d"
  by (drule gen_basic_char_cases)
     (auto simp: ESCAPE_CHARS_def lit_def document_char_ascii document_char_basic
       dest: text_hexdig)

lemma gen_basic_chars_text:
  "gen_basic_chars k g = ((ds, vs), g') \<Longrightarrow> list_all (list_all document_char) ds"
  by (induction k arbitrary: g ds vs g')
     (auto split: prod.splits dest: gen_basic_char_text)

lemma gen_basic_string_text: "gen_basic_string g = ((s, v), g') \<Longrightarrow> list_all document_char s"
  by (auto simp: gen_basic_string_def document_char_ascii split: prod.splits
      dest!: gen_basic_chars_text intro: text_concat)

lemma gen_literal_char_text: "gen_literal_char g = (c, g') \<Longrightarrow> document_char c"
  by (drule gen_literal_char_literal) (rule document_char_literal)

lemma gen_literal_chars_text:
  "gen_literal_chars k g = (s, g') \<Longrightarrow> list_all document_char s"
  by (induction k arbitrary: g s g')
     (auto split: prod.splits dest: gen_literal_char_text)

lemma gen_literal_string_text: "gen_literal_string g = ((s, v), g') \<Longrightarrow> list_all document_char s"
  by (auto simp: gen_literal_string_def document_char_ascii split: prod.splits
      dest: gen_literal_chars_text)

lemma gen_ml_basic_char_text:
  "gen_ml_basic_char fuel aw g = Some ((d, v), g') \<Longrightarrow> list_all document_char d"
  by (auto dest!: gen_ml_basic_char_is_basic_char dest: gen_basic_char_text)

lemma text_pieces: "list_all document_char (concat ps) \<Longrightarrow> list_all (list_all document_char) ps"
  by (induction ps) auto

lemma gen_ml_escaped_newline_text:
  "gen_ml_escaped_newline g = (ps, g') \<Longrightarrow> list_all (list_all document_char) ps"
  by (rule text_pieces, drule gen_ml_escaped_newline_pieces)
     (auto simp: list_all_iff document_char_def scalar_no_control_def)

lemma gen_ml_basic_loop_text:
  "gen_ml_basic_loop fuel k doc val aq aw g = Some ((doc', val'), g') \<Longrightarrow>
   list_all (list_all document_char) doc \<Longrightarrow> list_all (list_all document_char) doc'"
proof (induction k arbitrary: doc val aq aw g)
  case 0
  then show ?case by simp
next
  case (Suc k)
  have q: "document_char 0x22" by (simp add: document_char_ascii)
  from Suc.prems show ?case
    by (auto simp: q split: prod.splits if_splits option.splits
        dest!: Suc.IH dest: gen_newline_text gen_ml_escaped_newline_text gen_ml_basic_char_text)
qed

lemma first_newline_text:
  "(if b > (0 :: int) then (case gen_newline g of (nl, g3) \<Rightarrow> ([nl], g3)) else ([], g)) = (ps, g')
   \<Longrightarrow> list_all (list_all document_char) ps"
  by (auto split: if_splits prod.splits dest: gen_newline_text)

lemma gen_ml_basic_string_text:
  assumes "gen_ml_basic_string fuel g = Some ((s, v), g')"
  shows "list_all document_char s"
proof -
  obtain n g1 where n: "rand_exp 25 0 200 g = (n, g1)" by (cases "rand_exp 25 0 200 g")
  obtain b g2 where b: "randint 0 1 g1 = (b, g2)" by (cases "randint 0 1 g1")
  obtain ps g4 where ps:
    "(if b > 0 then (case gen_newline g2 of (nl, g3) \<Rightarrow> ([nl], g3)) else ([], g2)) = (ps, g4)"
    by (cases "if b > 0 then (case gen_newline g2 of (nl, g3) \<Rightarrow> ([nl], g3)) else ([], g2)")
  from assms n b ps obtain doc' val' where
    loop: "gen_ml_basic_loop fuel n ps [] True True g4 = Some ((doc', val'), g')"
    and s: "s = [0x22, 0x22, 0x22] @ concat doc' @ [0x22, 0x22, 0x22]"
    by (auto simp: gen_ml_basic_string_def split: option.splits)
  from gen_ml_basic_loop_text [OF loop first_newline_text [OF ps]]
  show ?thesis by (simp add: s document_char_ascii text_concat)
qed

lemma gen_ml_literal_loop_text:
  "gen_ml_literal_loop k doc val aq g = ((doc', val'), g') \<Longrightarrow>
   list_all (list_all document_char) doc \<Longrightarrow> list_all (list_all document_char) doc'"
proof (induction k arbitrary: doc val aq g)
  case 0
  then show ?case by simp
next
  case (Suc k)
  have q: "document_char 0x27" by (simp add: document_char_ascii)
  from Suc.prems show ?case
    by (auto simp: q split: prod.splits if_splits
        dest!: Suc.IH dest: gen_newline_text gen_literal_char_text)
qed

lemma gen_ml_literal_string_text:
  assumes "gen_ml_literal_string g = ((s, v), g')"
  shows "list_all document_char s"
proof -
  obtain n g1 where n: "rand_exp 25 0 200 g = (n, g1)" by (cases "rand_exp 25 0 200 g")
  obtain b g2 where b: "randint 0 1 g1 = (b, g2)" by (cases "randint 0 1 g1")
  obtain ps g4 where ps:
    "(if b > 0 then (case gen_newline g2 of (nl, g3) \<Rightarrow> ([nl], g3)) else ([], g2)) = (ps, g4)"
    by (cases "if b > 0 then (case gen_newline g2 of (nl, g3) \<Rightarrow> ([nl], g3)) else ([], g2)")
  from assms n b ps obtain doc' val' where
    loop: "gen_ml_literal_loop n ps [] True g4 = ((doc', val'), g')"
    and s: "s = [0x27, 0x27, 0x27] @ concat doc' @ [0x27, 0x27, 0x27]"
    by (auto simp: gen_ml_literal_string_def split: prod.splits)
  from gen_ml_literal_loop_text [OF loop first_newline_text [OF ps]]
  show ?thesis by (simp add: s document_char_ascii text_concat)
qed

lemma gen_string_text: "gen_string fuel g = Some ((s, v), g') \<Longrightarrow> list_all document_char s"
  by (auto simp: gen_string_def split: prod.splits string_form.splits
      dest: gen_ml_basic_string_text gen_basic_string_text gen_ml_literal_string_text
        gen_literal_string_text)

subsection \<open>Keys\<close>

lemma escape_hex_text: "escape_hex c r g = (s, g') \<Longrightarrow> list_all document_char s"
  using rand_format_hex_hexdig [of "int c" 4 g] rand_format_hex_hexdig [of "int c" 8 g]
  by (auto simp: escape_hex_def escape_u4_def escape_U8_def document_char_ascii
      split: if_splits prod.splits dest: text_hexdig)

lemma escape_sym_text: "map_of ESCAPE_CHARS c = Some e \<Longrightarrow> list_all document_char e"
  by (auto simp: ESCAPE_CHARS_def lit_def document_char_ascii split: if_splits)

lemma format_key_char_text: "format_key_char c g = (s, g') \<Longrightarrow> list_all document_char s"
  by (auto simp: format_key_char_def Let_def document_char_ascii document_char_basic
      split: prod.splits if_splits option.splits
      dest: escape_hex_text escape_sym_text)

lemma format_key_chars_text:
  "format_key_chars cs g = (ds, g') \<Longrightarrow> list_all (list_all document_char) ds"
  by (induction cs arbitrary: g ds g')
     (auto split: prod.splits dest: format_key_char_text)

lemma format_simple_key_text: "format_simple_key k g = (s, g') \<Longrightarrow> list_all document_char s"
  by (auto simp: format_simple_key_def Let_def document_char_ascii list_ex_iff list_all_iff
      split: prod.splits if_splits
      dest!: format_key_chars_text
      intro: document_char_unquoted document_char_literal)

lemma gen_dot_sep_text: "gen_dot_sep g = (s, g') \<Longrightarrow> list_all document_char s"
  by (auto simp: gen_dot_sep_def lit_def document_char_ascii split: prod.splits
      dest: gen_ws_text)

lemma key_str_sep_text:
  "(if key_str \<noteq> [] then (case gen_dot_sep g of (sep, g1) \<Rightarrow> (key_str @ [sep], g1))
    else (key_str, g)) = (key_str1, g2) \<Longrightarrow>
   list_all (list_all document_char) key_str \<Longrightarrow> list_all (list_all document_char) key_str1"
  by (auto split: if_splits prod.splits dest: gen_dot_sep_text)

lemma format_key_loop_text:
  "format_key_loop ks key_str g = (key_str', g') \<Longrightarrow>
   list_all (list_all document_char) key_str \<Longrightarrow> list_all (list_all document_char) key_str'"
proof (induction ks arbitrary: key_str g)
  case Nil
  then show ?case by simp
next
  case (Cons k ks)
  obtain key_str1 g2 where 1:
    "(if key_str \<noteq> [] then (case gen_dot_sep g of (sep, g1) \<Rightarrow> (key_str @ [sep], g1))
      else (key_str, g)) = (key_str1, g2)"
    by (cases "if key_str \<noteq> [] then (case gen_dot_sep g of (sep, g1) \<Rightarrow> (key_str @ [sep], g1))
      else (key_str, g)")
  obtain s g3 where 2: "format_simple_key k g2 = (s, g3)" by (cases "format_simple_key k g2")
  from Cons.prems(1) 1 2 have "format_key_loop ks (key_str1 @ [s]) g3 = (key_str', g')"
    by simp
  from Cons.IH [OF this] key_str_sep_text [OF 1 Cons.prems(2)] format_simple_key_text [OF 2]
  show ?case by simp
qed

lemma format_key_text: "format_key k g = (s, g') \<Longrightarrow> list_all document_char s"
  by (auto simp: format_key_def split: prod.splits
      dest!: format_key_loop_text intro: text_concat)

lemma gen_unquoted_key_chars_text:
  "gen_unquoted_key_chars k g = (s, g') \<Longrightarrow> list_all document_char s"
proof (induction k arbitrary: g s g')
  case 0
  then show ?case by simp
next
  case (Suc k)
  let ?digits = "lit ''0123456789-_''"
  let ?letters = "map (\<lambda>i. of_char CHR ''a'' + i) [0..<26]
                  @ map (\<lambda>i. of_char CHR ''A'' + i) [0..<26] :: nat list"
  obtain r g1 where r: "rng_random g = (r, g1)" by (cases "rng_random g")
  obtain c g2 where c: "(if r < 0.5 then choice ?digits g1 else choice ?letters g1) = (c, g2)"
    by (cases "if r < 0.5 then choice ?digits g1 else choice ?letters g1")
  obtain cs g3 where cs: "gen_unquoted_key_chars k g2 = (cs, g3)"
    by (cases "gen_unquoted_key_chars k g2")
  from Suc.prems r c cs have s: "s = c # cs" by simp
  have "document_char c"
    using c choice_in_set [of ?digits g1 c g2] choice_in_set [of ?letters g1 c g2]
    by (auto simp: lit_def intro!: document_char_ascii split: if_splits)
  with Suc.IH [OF cs] show ?case by (simp add: s)
qed

lemma gen_simple_key_text: "gen_simple_key g = ((s, k), g') \<Longrightarrow> list_all document_char s"
  by (auto simp: gen_simple_key_def gen_unquoted_key_def split: prod.splits if_splits
      dest: gen_basic_string_text gen_literal_string_text gen_unquoted_key_chars_text)

lemma gen_dotted_key_loop_text:
  "gen_dotted_key_loop n key_str key g = ((key_str', key'), g') \<Longrightarrow>
   list_all (list_all document_char) key_str \<Longrightarrow> list_all (list_all document_char) key_str'"
proof (induction n arbitrary: key_str key g)
  case 0
  then show ?case by simp
next
  case (Suc n)
  obtain key_str1 g2 where 1:
    "(if key_str \<noteq> [] then (case gen_dot_sep g of (sep, g1) \<Rightarrow> (key_str @ [sep], g1))
      else (key_str, g)) = (key_str1, g2)"
    by (cases "if key_str \<noteq> [] then (case gen_dot_sep g of (sep, g1) \<Rightarrow> (key_str @ [sep], g1))
      else (key_str, g)")
  obtain s k g3 where 2: "gen_simple_key g2 = ((s, k), g3)"
    by (cases "gen_simple_key g2") auto
  from Suc.prems(1) 1 2
  have "gen_dotted_key_loop n (key_str1 @ [s]) (key @ [k]) g3 = ((key_str', key'), g')"
    by simp
  from Suc.IH [OF this] key_str_sep_text [OF 1 Suc.prems(2)] gen_simple_key_text [OF 2]
  show ?case by simp
qed

lemma gen_dotted_key_text: "gen_dotted_key prefix g = ((s, k), g') \<Longrightarrow> list_all document_char s"
  by (auto simp: gen_dotted_key_def split: prod.splits
      dest!: format_key_loop_text gen_dotted_key_loop_text intro: text_concat)

lemma gen_key_search_text:
  "gen_key_search fuel ep ek prefix g = Some ((s, k), g') \<Longrightarrow> list_all document_char s"
  by (induction fuel arbitrary: g)
     (auto split: prod.splits if_splits dest: gen_dotted_key_text)

lemma gen_key_text: "gen_key fuel ep ek rp rk g = Some ((s, k), g') \<Longrightarrow> list_all document_char s"
  by (auto simp: gen_key_def Let_def split: prod.splits if_splits
      dest: gen_key_search_text format_key_text)

subsection \<open>Values, expressions and the document\<close>

lemma gen_array_loop_text:
  assumes gv: "\<And>g s v g'. gv g = Some (Inr ((s, v), g')) \<Longrightarrow> list_all document_char s"
  shows "gen_array_loop gv is parts val g = Some (Inr ((parts', val'), g')) \<Longrightarrow>
    list_all (list_all document_char) parts \<Longrightarrow> list_all (list_all document_char) parts'"
proof (induction "is" arbitrary: parts val g)
  case Nil
  then show ?case by simp
next
  case (Cons i "is")
  obtain parts1 g2 where 1:
    "(if i > 0 then (case gen_ws_comment_newline g of (w, g1) \<Rightarrow> (parts @ [w, lit '',''], g1))
      else (parts, g)) = (parts1, g2)"
    by (cases "if i > 0 then (case gen_ws_comment_newline g of (w, g1) \<Rightarrow> (parts @ [w, lit '',''], g1))
      else (parts, g)")
  obtain w2 g3 where 2: "gen_ws_comment_newline g2 = (w2, g3)"
    by (cases "gen_ws_comment_newline g2")
  from Cons.prems(1) 1 2 obtain s v g4 where
    3: "gv g3 = Some (Inr ((s, v), g4))"
    and 4: "gen_array_loop gv is (parts1 @ [w2, s]) (val @ [v]) g4 = Some (Inr ((parts', val'), g'))"
    by (auto split: option.splits sum.splits)
  from 1 Cons.prems(2) have "list_all (list_all document_char) parts1"
    by (auto simp: text_lit document_char_ascii split: if_splits prod.splits
        dest: gen_ws_comment_newline_text)
  with gen_ws_comment_newline_text [OF 2] gv [OF 3]
  have "list_all (list_all document_char) (parts1 @ [w2, s])" by simp
  from Cons.IH [OF 4 this] show ?case .
qed

lemma gen_array_text:
  assumes gv: "\<And>g s v g'. gv g = Some (Inr ((s, v), g')) \<Longrightarrow> list_all document_char s"
    and run: "gen_array gv g = Some (Inr ((s, v), g'))"
  shows "list_all document_char s"
proof -
  obtain n g1 where n: "rand_exp 2 0 10 g = (n, g1)" by (cases "rand_exp 2 0 10 g")
  from run n obtain parts val g2 where
    loop: "gen_array_loop gv [0..<n] [] [] g1 = Some (Inr ((parts, val), g2))"
    by (auto simp: gen_array_def split: option.splits sum.splits)
  obtain parts1 g5 where 1:
    "(if n > 0 then
        (case rng_random g2 of (u, g3) \<Rightarrow>
           if u < 0.5 then
             (case gen_ws_comment_newline g3 of (w, g4) \<Rightarrow> (parts @ [w, lit '',''], g4))
           else (parts, g3))
      else (parts, g2)) = (parts1, g5)"
    by (cases "if n > 0 then
        (case rng_random g2 of (u, g3) \<Rightarrow>
           if u < 0.5 then
             (case gen_ws_comment_newline g3 of (w, g4) \<Rightarrow> (parts @ [w, lit '',''], g4))
           else (parts, g3))
      else (parts, g2)")
  obtain w g6 where 2: "gen_ws_comment_newline g5 = (w, g6)"
    by (cases "gen_ws_comment_newline g5")
  from run n loop 1 2 have s: "s = lit ''['' @ concat (parts1 @ [w]) @ lit '']''"
    by (simp add: gen_array_def)
  from gen_array_loop_text [OF gv loop] have "list_all (list_all document_char) parts"
    by simp
  with 1 have "list_all (list_all document_char) parts1"
    by (auto simp: text_lit document_char_ascii split: if_splits prod.splits
        dest: gen_ws_comment_newline_text)
  with gen_ws_comment_newline_text [OF 2] show ?thesis
    by (simp add: s text_lit document_char_ascii text_concat)
qed

lemma gen_inline_table_loop_text:
  assumes gv: "\<And>g s v g'. gv g = Some (Inr ((s, v), g')) \<Longrightarrow> list_all document_char s"
  shows "gen_inline_table_loop fuel gv is parts tbl ik ip g = Some (Inr ((parts', tbl'), g')) \<Longrightarrow>
    list_all (list_all document_char) parts \<Longrightarrow> list_all (list_all document_char) parts'"
proof (induction "is" arbitrary: parts tbl ik ip g)
  case Nil
  then show ?case by simp
next
  case (Cons i "is")
  from Cons.prems(1) obtain key_str key g1 where
    k: "gen_key fuel ik (ik @ ip) ip [] g = Some ((key_str, key), g1)"
    by (auto split: option.splits)
  from Cons.prems(1) k obtain val_str v g2 where
    v: "gv g1 = Some (Inr ((val_str, v), g2))"
    by (auto split: option.splits sum.splits)
  obtain parts1 g4 where 1:
    "(if i > 0 then (case gen_ws g2 of (w, g3) \<Rightarrow> (parts @ [w, lit '',''], g3))
      else (parts, g2)) = (parts1, g4)"
    by (cases "if i > 0 then (case gen_ws g2 of (w, g3) \<Rightarrow> (parts @ [w, lit '',''], g3))
      else (parts, g2)")
  obtain w1 g5 where w1: "gen_ws g4 = (w1, g5)" by (cases "gen_ws g4")
  obtain w2 g6 where w2: "gen_ws g5 = (w2, g6)" by (cases "gen_ws g5")
  obtain w3 g7 where w3: "gen_ws g6 = (w3, g7)" by (cases "gen_ws g6")
  from Cons.prems(1) k v 1 w1 w2 w3 obtain tbl1 where
    rest: "gen_inline_table_loop fuel gv is
             (parts1 @ [w1, key_str, w2, lit ''='', w3, val_str]) tbl1 (ik @ [key])
             (add_item_prefixes key [1..<length key] ip) g7 = Some (Inr ((parts', tbl'), g'))"
    by (auto split: sum.splits)
  from 1 Cons.prems(2) have "list_all (list_all document_char) parts1"
    by (auto simp: text_lit document_char_ascii split: if_splits prod.splits dest: gen_ws_text)
  with gen_ws_text [OF w1] gen_ws_text [OF w2] gen_ws_text [OF w3] gen_key_text [OF k] gv [OF v]
  have "list_all (list_all document_char) (parts1 @ [w1, key_str, w2, lit ''='', w3, val_str])"
    by (simp add: text_lit document_char_ascii)
  from Cons.IH [OF rest this] show ?case .
qed

lemma gen_inline_table_text:
  assumes gv: "\<And>g s v g'. gv g = Some (Inr ((s, v), g')) \<Longrightarrow> list_all document_char s"
    and run: "gen_inline_table fuel gv g = Some (Inr ((s, v), g'))"
  shows "list_all document_char s"
proof -
  obtain n g1 where n: "rand_exp 2 0 10 g = (n, g1)" by (cases "rand_exp 2 0 10 g")
  from run n obtain parts tbl g2 where
    loop: "gen_inline_table_loop fuel gv [0..<n] [] [] [] [] g1 = Some (Inr ((parts, tbl), g2))"
    by (auto simp: gen_inline_table_def split: option.splits sum.splits)
  obtain w g3 where w: "gen_ws g2 = (w, g3)" by (cases "gen_ws g2")
  from run n loop w have s: "s = lit ''{'' @ concat (parts @ [w]) @ lit ''}''"
    by (simp add: gen_inline_table_def)
  from gen_inline_table_loop_text [OF gv loop] have "list_all (list_all document_char) parts"
    by simp
  with gen_ws_text [OF w] show ?thesis
    by (simp add: s text_lit document_char_ascii text_concat)
qed

lemma gen_val_text: "gen_val fuel g = Some (Inr ((s, v), g')) \<Longrightarrow> list_all document_char s"
proof (induction fuel arbitrary: g s v g')
  case 0
  then show ?case by simp
next
  case (Suc fuel)
  obtain func g1 where f:
    "choice [GenString, GenBoolean, GenInteger, GenFloat, GenArray, GenInlineTable, GenDateTime] g
       = (func, g1)"
    by (cases "choice [GenString, GenBoolean, GenInteger, GenFloat, GenArray, GenInlineTable,
                  GenDateTime] g")
  show ?case
  proof (cases func)
    case GenString
    with Suc.prems f show ?thesis
      by (auto split: option.splits prod.splits dest: gen_string_text)
  next
    case GenBoolean
    with Suc.prems f show ?thesis by (auto split: prod.splits dest: gen_boolean_text)
  next
    case GenInteger
    with Suc.prems f show ?thesis by (auto split: prod.splits dest: gen_integer_text)
  next
    case GenFloat
    with Suc.prems f show ?thesis by (auto split: prod.splits dest: gen_float_text)
  next
    case GenArray
    with Suc.prems f have "gen_array (gen_val fuel) g1 = Some (Inr ((s, v), g'))" by simp
    from gen_array_text [OF Suc.IH this] show ?thesis .
  next
    case GenInlineTable
    with Suc.prems f have "gen_inline_table fuel (gen_val fuel) g1 = Some (Inr ((s, v), g'))"
      by simp
    from gen_inline_table_text [OF Suc.IH this] show ?thesis .
  next
    case GenDateTime
    with Suc.prems f show ?thesis by (auto dest: gen_date_time_text)
  qed
qed

lemma gen_keyval_text:
  assumes "gen_keyval debug fuel ctx g = Some (Inr ((s, ctx'), g'))"
  shows "list_all document_char s"
proof -
  from assms obtain t where t: "active_table ctx = Some t"
    by (auto simp: gen_keyval_def split: option.splits)
  define ik where "ik = get_active_item_keys t"
  define ip where "ip = get_active_item_prefixes t"
  define tk where "tk = get_active_subtable_keys t"
  from assms t obtain key_str key g1 where
    k: "gen_key fuel (ik @ tk) (ik @ ip @ tk) ip [] g = Some ((key_str, key), g1)"
    by (auto simp: gen_keyval_def Let_def ik_def ip_def tk_def split: option.splits)
  from assms t k obtain val_str v g2 where
    v: "gen_val fuel g1 = Some (Inr ((val_str, v), g2))"
    by (auto simp: gen_keyval_def Let_def ik_def ip_def tk_def split: option.splits sum.splits)
  obtain ws1 g3 where ws1: "gen_ws g2 = (ws1, g3)" by (cases "gen_ws g2")
  obtain ws2 g4 where ws2: "gen_ws g3 = (ws2, g4)" by (cases "gen_ws g3")
  from assms t k v ws1 ws2 have s: "s = key_str @ ws1 @ lit ''='' @ ws2 @ val_str"
    by (auto simp: gen_keyval_def Let_def ik_def ip_def tk_def split: sum.splits)
  from gen_key_text [OF k] gen_val_text [OF v] gen_ws_text [OF ws1] gen_ws_text [OF ws2]
  show ?thesis by (simp add: s text_lit document_char_ascii)
qed

lemma gen_table_text:
  assumes "gen_table debug fuel ctx g = Some (Inr ((s, ctx'), g'))"
  shows "list_all document_char s"
proof -
  obtain b g0 where b: "randint 0 1 g = (b, g0)" by (cases "randint 0 1 g")
  show ?thesis
  proof (cases "b > 0")
    case True
    with assms b obtain ep ek rp rk key_str key g1 where
      k: "gen_key fuel ep ek rp rk g0 = Some ((key_str, key), g1)"
      by (auto simp: gen_table_def Let_def split: option.splits)
    obtain ws1 g2 where ws1: "gen_ws g1 = (ws1, g2)" by (cases "gen_ws g1")
    obtain ws2 g3 where ws2: "gen_ws g2 = (ws2, g3)" by (cases "gen_ws g2")
    from assms b True ws1 ws2 obtain key_str' key' g1' where
      k': "gen_key fuel (get_item_keys ctx)
            (get_item_keys ctx @ get_table_keys ctx None (Some False))
            (get_table_keys ctx None (Some False) @ get_table_keys ctx None (Some True))
            (get_table_keys ctx None (Some True)) g0 = Some ((key_str', key'), g1')"
      by (auto simp: gen_table_def Let_def split: option.splits)
    obtain w1 h2 where w1: "gen_ws g1' = (w1, h2)" by (cases "gen_ws g1'")
    obtain w2 h3 where w2: "gen_ws h2 = (w2, h3)" by (cases "gen_ws h2")
    from assms b True k' w1 w2 have s: "s = lit ''[['' @ w1 @ key_str' @ w2 @ lit '']]''"
      by (auto simp: gen_table_def Let_def split: sum.splits)
    from gen_key_text [OF k'] gen_ws_text [OF w1] gen_ws_text [OF w2]
    show ?thesis by (simp add: s text_lit document_char_ascii)
  next
    case False
    with assms b obtain key_str' key' g1' where
      k': "gen_key fuel (get_item_keys ctx)
            (get_item_keys ctx @ get_table_keys ctx (Some True) (Some False)
               @ get_table_keys ctx None (Some True))
            (get_table_keys ctx (Some False) (Some False)
               @ get_table_keys ctx (Some True) (Some False))
            (get_table_keys ctx (Some False) (Some False)) g0 = Some ((key_str', key'), g1')"
      by (auto simp: gen_table_def Let_def split: option.splits)
    obtain w1 h2 where w1: "gen_ws g1' = (w1, h2)" by (cases "gen_ws g1'")
    obtain w2 h3 where w2: "gen_ws h2 = (w2, h3)" by (cases "gen_ws h2")
    from assms b False k' w1 w2 have s: "s = lit ''['' @ w1 @ key_str' @ w2 @ lit '']''"
      by (auto simp: gen_table_def Let_def split: sum.splits)
    from gen_key_text [OF k'] gen_ws_text [OF w1] gen_ws_text [OF w2]
    show ?thesis by (simp add: s text_lit document_char_ascii)
  qed
qed

lemma gen_expression_text:
  assumes "gen_expression debug fuel ctx g = Some (Inr ((s, ctx'), g'))"
  shows "list_all document_char s"
proof -
  obtain doc g1 where doc: "gen_ws g = (doc, g1)" by (cases "gen_ws g")
  obtain r g2 where r: "rng_random g1 = (r, g2)" by (cases "rng_random g1")
  define body where "body =
    (if r < 0.7 then
       (case gen_keyval debug fuel ctx g2 of
          None \<Rightarrow> None
        | Some (Inl e) \<Rightarrow> Some (Inl e)
        | Some (Inr ((s, ctx'), g3)) \<Rightarrow>
            (case gen_ws g3 of (w, g4) \<Rightarrow> Some (Inr ((doc @ s @ w, ctx'), g4))))
     else if r < 0.7 + 0.1 then
       (case gen_table debug fuel ctx g2 of
          None \<Rightarrow> None
        | Some (Inl e) \<Rightarrow> Some (Inl e)
        | Some (Inr ((s, ctx'), g3)) \<Rightarrow>
            (case gen_ws g3 of (w, g4) \<Rightarrow> Some (Inr ((doc @ s @ w, ctx'), g4))))
     else Some (Inr ((doc, ctx), g2)))"
  have "gen_expression debug fuel ctx g =
      (case body of
         None \<Rightarrow> None
       | Some (Inl e) \<Rightarrow> Some (Inl e)
       | Some (Inr ((doc1, ctx1), g5)) \<Rightarrow>
           (case rng_random g5 of (u, g6) \<Rightarrow>
              if u < 0.5 then
                (case gen_comment g6 of (c, g7) \<Rightarrow> Some (Inr ((doc1 @ c, ctx1), g7)))
              else Some (Inr ((doc1, ctx1), g6))))"
    by (simp add: gen_expression_def doc r body_def)
  with assms have eq: "(case body of
         None \<Rightarrow> None
       | Some (Inl e) \<Rightarrow> Some (Inl e)
       | Some (Inr ((doc1, ctx1), g5)) \<Rightarrow>
           (case rng_random g5 of (u, g6) \<Rightarrow>
              if u < 0.5 then
                (case gen_comment g6 of (c, g7) \<Rightarrow> Some (Inr ((doc1 @ c, ctx1), g7)))
              else Some (Inr ((doc1, ctx1), g6)))) = Some (Inr ((s, ctx'), g'))"
    by simp
  then obtain doc1 ctx1 g5 where body: "body = Some (Inr ((doc1, ctx1), g5))"
    by (cases body) (auto split: sum.splits)
  with eq have tail: "(case rng_random g5 of (u, g6) \<Rightarrow>
                if u < 0.5 then
                  (case gen_comment g6 of (c, g7) \<Rightarrow> Some (Inr ((doc1 @ c, ctx1), g7)))
                else Some (Inr ((doc1, ctx1), g6)))
              = (Some (Inr ((s, ctx'), g')) :: (pystr \<times> Context) run)"
    by simp
  from body gen_ws_text [OF doc] have "list_all document_char doc1"
    unfolding body_def
    by (auto split: if_splits option.splits sum.splits prod.splits
        dest: gen_keyval_text gen_table_text gen_ws_text)
  with tail show ?thesis
    by (auto split: if_splits prod.splits dest: gen_comment_text)
qed

lemma gen_toml_loop_text:
  "gen_toml_loop debug fuel is ctx doc g = Some (Inr ((doc', ctx'), g')) \<Longrightarrow>
   list_all (list_all document_char) doc \<Longrightarrow> list_all (list_all document_char) doc'"
proof (induction "is" arbitrary: ctx doc g)
  case Nil
  then show ?case by simp
next
  case (Cons i "is")
  obtain doc1 g2 where 1:
    "(if i > 0 then (case gen_newline g of (eol, g1) \<Rightarrow> (doc @ [eol], g1)) else (doc, g))
       = (doc1, g2)"
    by (cases "if i > 0 then (case gen_newline g of (eol, g1) \<Rightarrow> (doc @ [eol], g1)) else (doc, g)")
  from Cons.prems(1) 1 obtain expr ctx1 g3 where
    e: "gen_expression debug fuel ctx g2 = Some (Inr ((expr, ctx1), g3))"
    and rest: "gen_toml_loop debug fuel is ctx1 (doc1 @ [expr]) g3 = Some (Inr ((doc', ctx'), g'))"
    by (auto split: option.splits sum.splits)
  from 1 Cons.prems(2) have "list_all (list_all document_char) doc1"
    by (auto split: if_splits prod.splits dest: gen_newline_text)
  with gen_expression_text [OF e] have "list_all (list_all document_char) (doc1 @ [expr])"
    by simp
  from Cons.IH [OF rest this] show ?case .
qed

text \<open>
  Claim C3, as amended. Every code point of a document that \<open>gen_toml\<close> returns is the
  tab, the line feed, the carriage return, or a Unicode scalar value from U+0020 on,
  for each state of the random source.
\<close>

theorem gen_toml_charset:
  assumes "gen_toml debug fuel g = Some (Inr ((doc, model), out))"
  shows "list_all document_char doc"
proof -
  obtain n g1 where n: "randint 1 MAX_EXPRESSIONS g = (n, g1)"
    by (cases "randint 1 MAX_EXPRESSIONS g")
  from assms n obtain pieces ctx g2 where
    loop: "gen_toml_loop debug fuel [0..<nat n] Context_init [] g1 = Some (Inr ((pieces, ctx), g2))"
    and doc: "doc = concat pieces"
    by (auto simp: gen_toml_def split: option.splits sum.splits)
  from gen_toml_loop_text [OF loop] show ?thesis by (simp add: doc text_concat)
qed

text \<open>
  Claim C3 as stated fails: the set it names holds neither line end. Two expressions
  that are both empty are separated by a newline, and the document is a single U+000A.
\<close>

theorem gen_toml_newline:
  "gen_toml False 0 [1, 0, 7 * 2 ^ 50, 7 * 2 ^ 50, 0, 0, 7 * 2 ^ 50, 7 * 2 ^ 50]
     = Some (Inr (([0x0A], []), []))
   \<and> \<not> list_all scalar_no_control [0x0A]"
  by (simp add: gen_toml_def MAX_EXPRESSIONS_def randint_def randbelow_def upt_conv_Cons
      gen_expression_def rng_random_def gen_newline_def choice_def Context_init_def
      get_data_def scalar_no_control_def)

text \<open>A run on the random source that delivers 0 at every draw: one expression.\<close>

lemma gen_key_at_zero: "gen_key (Suc 0) [] [] [] [] [] = Some (([0x22, 0x22], [[]]), [])"
  by (simp add: gen_key_def gen_dotted_key_def MAX_DOTTED_LEN_def randint_def randbelow_def
      gen_simple_key_def rng_random_def)

lemma gen_val_at_zero:
  "gen_val (Suc 0) [] = Some (Inr (([0x22, 0x22, 0x22, 0x22, 0x22, 0x22], VStr []), []))"
  by (simp add: choice_def randbelow_def gen_string_def gen_ml_basic_string_def randint_def)

lemma gen_comment_at_zero: "gen_comment [] = ([0x23], [])"
  by (simp add: gen_comment_def rand_exp_def uniform_def rng_random_def)

lemma gen_keyval_at_zero:
  "gen_keyval False (Suc 0) Context_init []
     = Some (Inr (([0x22, 0x22, 0x3D, 0x22, 0x22, 0x22, 0x22, 0x22, 0x22],
                   \<lparr>data = [([], Value (VStr []))], active = [], printed = []\<rparr>), []))"
  by (simp add: gen_keyval_def Context_init_def active_table_def get_active_item_keys_def
      get_active_item_prefixes_def get_active_subtable_keys_def gen_key_at_zero gen_val_at_zero
      assign_def debug_print_def assign_last_def lit_def del: gen_val.simps)

theorem gen_toml_charset_witness:
  "gen_toml False 1 []
     = Some (Inr (([0x22, 0x22, 0x3D, 0x22, 0x22, 0x22, 0x22, 0x22, 0x22, 0x23],
                   [([], VStr [])]), []))
   \<and> list_all document_char [0x22, 0x22, 0x3D, 0x22, 0x22, 0x22, 0x22, 0x22, 0x22, 0x23]"
  using gen_toml_charset [of False 1 "[]"
      "[0x22, 0x22, 0x3D, 0x22, 0x22, 0x22, 0x22, 0x22, 0x22, 0x23]" "[([], VStr [])]" "[]"]
  by (simp add: gen_toml_def MAX_EXPRESSIONS_def randint_def randbelow_def
      gen_expression_def rng_random_def gen_keyval_at_zero gen_comment_at_zero get_data_def)

section \<open>Verification: no assertion of the tree of tables fails\<close>

subsection \<open>Tables as association lists\<close>

lemma list_all_update:
  "list_all P tbl \<Longrightarrow> P (p, c) \<Longrightarrow> list_all P (AList.update p c tbl)"
  by (induction tbl) auto

lemma list_all_map_of: "list_all P tbl \<Longrightarrow> map_of tbl p = Some c \<Longrightarrow> P (p, c)"
  by (auto simp: list_all_iff dest: map_of_SomeD)

lemma dotted_table_iff: "dotted_table tbl \<longleftrightarrow> list_all (\<lambda>e. dotted_child (snd e)) tbl"
  by (induction tbl) auto

lemma wf_table_iff:
  "wf_table tbl \<longleftrightarrow> distinct (map fst tbl) \<and> list_all (\<lambda>e. wf_child (snd e)) tbl"
  by (induction tbl) force+

lemma wf_table_update: "wf_table tbl \<Longrightarrow> wf_child c \<Longrightarrow> wf_table (AList.update p c tbl)"
  by (simp add: wf_table_iff distinct_update list_all_update)

lemma wf_table_map_of: "wf_table tbl \<Longrightarrow> map_of tbl p = Some c \<Longrightarrow> wf_child c"
  by (auto simp: wf_table_iff dest: list_all_map_of)

lemma dotted_table_update:
  "dotted_table tbl \<Longrightarrow> dotted_child c \<Longrightarrow> dotted_table (AList.update p c tbl)"
  by (simp add: dotted_table_iff list_all_update)

lemma dotted_table_map_of: "dotted_table tbl \<Longrightarrow> map_of tbl p = Some c \<Longrightarrow> dotted_child c"
  by (auto simp: dotted_table_iff dest: list_all_map_of)


subsection \<open>What the queries list\<close>

lemma item_keys_rec_entry:
  "(p, c) \<in> set tbl \<Longrightarrow> set (item_keys_child c (path @ [p])) \<subseteq> set (item_keys_rec tbl path)"
  by (induction tbl) auto

lemma item_prefixes_rec_entry:
  "(p, c) \<in> set tbl \<Longrightarrow>
   set (item_prefixes_child c (path @ [p])) \<subseteq> set (item_prefixes_rec tbl path)"
  by (induction tbl) auto

lemma table_keys_rec_entry:
  "(p, c) \<in> set tbl \<Longrightarrow>
   set (table_keys_child df ar c (path @ [p])) \<subseteq> set (table_keys_rec df ar tbl path)"
  by (induction tbl) auto

lemma subtable_keys_loop_entry:
  "(p, c) \<in> set tbl \<Longrightarrow> header_child c \<Longrightarrow> [p] \<in> set (subtable_keys_loop tbl)"
  by (induction tbl) (auto split: child.splits)

subsection \<open>One step of \<open>_make_subtable\<close>\<close>

lemma make_subtable_new:
  "map_of tbl p = None \<Longrightarrow>
   make_subtable tbl (p # ks) dotted f =
     (case make_subtable [] ks dotted f of
        Inl e \<Rightarrow> Inl e
      | Inr elems' \<Rightarrow>
          Inr (AList.update p (Table dotted dotted elems')
                 (AList.update p (Table dotted dotted []) tbl)))"
  by (simp add: update_conv')

lemma make_subtable_table:
  "map_of tbl p = Some (Table d dt elems) \<Longrightarrow>
   make_subtable tbl (p # ks) dotted f =
     (case make_subtable elems ks dotted f of
        Inl e \<Rightarrow> Inl e
      | Inr elems' \<Rightarrow> Inr (AList.update p (Table d dt elems') tbl))"
  by simp

lemma make_subtable_array:
  "map_of tbl p = Some (TableArray init lst) \<Longrightarrow>
   make_subtable tbl (p # ks) dotted f =
     (case make_subtable lst ks dotted f of
        Inl e \<Rightarrow> Inl e
      | Inr lst' \<Rightarrow> Inr (AList.update p (TableArray init lst') tbl))"
  by simp

subsection \<open>Assignments\<close>

text \<open>
  The walk of \<open>assign\<close> inside a dotted table that stands at \<open>path\<close> in the active table,
  for a key whose place is free according to the queries.
\<close>

lemma assign_dotted:
  assumes "key \<noteq> []" "dotted_table t" "wf_table t"
    and "path @ key \<notin> set (item_keys_rec t path)"
    and "path @ key \<notin> set (item_prefixes_rec t path)"
    and "\<forall>i. 1 \<le> i \<and> i < length key \<longrightarrow> path @ take i key \<notin> set (item_keys_rec t path)"
  shows "\<exists>t'. make_subtable t (butlast key) True (assign_last (last key) v) = Inr t'
           \<and> dotted_table t' \<and> wf_table t'"
  using assms
proof (induction key arbitrary: t path rule: list_nonempty_induct)
  case (single p)
  have "map_of t p = None"
  proof (rule ccontr)
    assume "map_of t p \<noteq> None"
    then obtain c where c: "map_of t p = Some c" by auto
    then have mem: "(p, c) \<in> set t" by (rule map_of_SomeD)
    from dotted_table_map_of [OF single.prems(1) c] have "dotted_child c" .
    then show False
      using item_keys_rec_entry [OF mem, of path] item_prefixes_rec_entry [OF mem, of path]
        single.prems(3,4)
      by (cases c) auto
  qed
  then show ?case
    using single.prems(1,2)
    by (simp add: assign_last_def dotted_table_update wf_table_update)
next
  case (cons p ps)
  have bl: "butlast (p # ps) = p # butlast ps" "last (p # ps) = last ps"
    using cons.hyps by simp_all
  let ?f = "assign_last (last ps) v"
  show ?case
  proof (cases "map_of t p")
    case None
    have "\<exists>t'. make_subtable [] (butlast ps) True ?f = Inr t' \<and> dotted_table t' \<and> wf_table t'"
      by (rule cons.IH [of "[]" "path @ [p]"]) simp_all
    then obtain e' where e': "make_subtable [] (butlast ps) True ?f = Inr e'"
      "dotted_table e'" "wf_table e'" by blast
    define t' where
      "t' = AList.update p (Table True True e') (AList.update p (Table True True []) t)"
    have "make_subtable t (butlast (p # ps)) True (assign_last (last (p # ps)) v) = Inr t'"
      unfolding bl make_subtable_new [OF None] e'(1) t'_def by simp
    moreover have "dotted_table t'" "wf_table t'"
      using cons.prems(1,2) e'(2,3)
      by (simp_all add: t'_def dotted_table_update wf_table_update)
    ultimately show ?thesis by blast
  next
    case (Some c)
    then have mem: "(p, c) \<in> set t" by (rule map_of_SomeD)
    from dotted_table_map_of [OF cons.prems(1) Some] have dc: "dotted_child c" .
    have "path @ take 1 (p # ps) \<notin> set (item_keys_rec t path)"
      using cons.prems(5) cons.hyps by (cases ps) auto
    then have nv: "path @ [p] \<notin> set (item_keys_rec t path)" by simp
    from dc nv item_keys_rec_entry [OF mem, of path]
    obtain elems where c: "c = Table True True elems" and de: "dotted_table elems"
      by (cases c) auto
    from wf_table_map_of [OF cons.prems(2) Some] have we: "wf_table elems" by (simp add: c)
    have sub1: "set (item_keys_rec elems (path @ [p])) \<subseteq> set (item_keys_rec t path)"
      using item_keys_rec_entry [OF mem, of path] by (simp add: c)
    have sub2: "set (item_prefixes_rec elems (path @ [p])) \<subseteq> set (item_prefixes_rec t path)"
      using item_prefixes_rec_entry [OF mem, of path] by (auto simp: c)
    have pre: "\<forall>i. 1 \<le> i \<and> i < length ps \<longrightarrow>
        (path @ [p]) @ take i ps \<notin> set (item_keys_rec elems (path @ [p]))"
    proof (intro allI impI)
      fix i assume "1 \<le> i \<and> i < length ps"
      then have "path @ take (Suc i) (p # ps) \<notin> set (item_keys_rec t path)"
        using cons.prems(5) by (intro cons.prems(5) [rule_format]) simp
      with sub1 show "(path @ [p]) @ take i ps \<notin> set (item_keys_rec elems (path @ [p]))"
        by auto
    qed
    have "\<exists>t'. make_subtable elems (butlast ps) True ?f = Inr t' \<and> dotted_table t' \<and> wf_table t'"
      using cons.prems(3,4) sub1 sub2
      by (intro cons.IH [OF de we _ _ pre]) auto
    then obtain e' where e': "make_subtable elems (butlast ps) True ?f = Inr e'"
      "dotted_table e'" "wf_table e'" by blast
    define t' where "t' = AList.update p (Table True True e') t"
    have "make_subtable t (butlast (p # ps)) True (assign_last (last (p # ps)) v) = Inr t'"
      unfolding bl make_subtable_table [OF Some [unfolded c]] e'(1) t'_def by simp
    moreover have "dotted_table t'" "wf_table t'"
      using cons.prems(1,2) e'(2,3)
      by (simp_all add: t'_def dotted_table_update wf_table_update)
    ultimately show ?thesis by blast
  qed
qed

text \<open>The walk of \<open>assign\<close> from the active table.\<close>

lemma active_ok_update:
  "active_ok tbl \<Longrightarrow> header_child c \<or> dotted_child c \<Longrightarrow> active_ok (AList.update p c tbl)"
  by (simp add: active_ok_def list_all_update)

lemma assign_active:
  assumes "key \<noteq> []" "active_ok t" "wf_table t"
    and "key \<notin> set (item_keys_rec t [])"
    and "key \<notin> set (item_prefixes_rec t [])"
    and "key \<notin> set (subtable_keys_loop t)"
    and "\<forall>i. 1 \<le> i \<and> i < length key \<longrightarrow>
           take i key \<notin> set (item_keys_rec t []) \<and> take i key \<notin> set (subtable_keys_loop t)"
  shows "\<exists>t'. make_subtable t (butlast key) True (assign_last (last key) v) = Inr t'
           \<and> active_ok t' \<and> wf_table t'"
proof -
  from assms(1) obtain p ps where key: "key = p # ps" by (cases key) auto
  text \<open>What the first segment names is not a child made by a header, and not a value.\<close>
  have first: "\<exists>elems. c = Table True True elems \<and> dotted_table elems \<and> wf_table elems
        \<and> set (item_keys_rec elems [p]) \<subseteq> set (item_keys_rec t [])
        \<and> set (item_prefixes_rec elems [p]) \<subseteq> set (item_prefixes_rec t [])
        \<and> [p] \<in> set (item_prefixes_rec t [])"
    if c: "map_of t p = Some c" for c
  proof -
    from c have mem: "(p, c) \<in> set t" by (rule map_of_SomeD)
    have one: "[p] \<notin> set (item_keys_rec t []) \<and> [p] \<notin> set (subtable_keys_loop t)"
    proof (cases ps)
      case Nil
      with assms(4,6) key show ?thesis by simp
    next
      case (Cons q qs)
      with assms(7) [rule_format, of 1] key show ?thesis by simp
    qed
    with subtable_keys_loop_entry [OF mem] have "\<not> header_child c" by auto
    moreover from list_all_map_of [OF assms(2) [unfolded active_ok_def] c]
    have "header_child c \<or> dotted_child c" by simp
    ultimately have dc: "dotted_child c" by simp
    with one item_keys_rec_entry [OF mem, of "[]"]
    obtain elems where e: "c = Table True True elems" "dotted_table elems"
      by (cases c) auto
    moreover from wf_table_map_of [OF assms(3) c] e have "wf_table elems" by simp
    moreover have "set (item_keys_rec elems [p]) \<subseteq> set (item_keys_rec t [])"
      using item_keys_rec_entry [OF mem, of "[]"] by (simp add: e)
    moreover have "set (item_prefixes_rec elems [p]) \<subseteq> set (item_prefixes_rec t [])"
      "[p] \<in> set (item_prefixes_rec t [])"
      using item_prefixes_rec_entry [OF mem, of "[]"] by (auto simp: e)
    ultimately show ?thesis by blast
  qed
  show ?thesis
  proof (cases ps)
    case Nil
    have "map_of t p = None"
    proof (rule ccontr)
      assume "map_of t p \<noteq> None"
      then obtain c where "map_of t p = Some c" by auto
      from first [OF this] assms(5) key Nil show False by auto
    qed
    then show ?thesis
      using assms(2,3) key Nil
      by (simp add: assign_last_def active_ok_update wf_table_update)
  next
    case (Cons q qs)
    then have ne: "ps \<noteq> []" by simp
    have bl: "butlast key = p # butlast ps" "last key = last ps"
      using ne key by simp_all
    let ?f = "assign_last (last ps) v"
    show ?thesis
    proof (cases "map_of t p")
      case None
      have "\<exists>t'. make_subtable [] (butlast ps) True ?f = Inr t' \<and> dotted_table t' \<and> wf_table t'"
        by (rule assign_dotted [OF ne, of "[]" "[p]"]) simp_all
      then obtain e' where e': "make_subtable [] (butlast ps) True ?f = Inr e'"
        "dotted_table e'" "wf_table e'" by blast
      define t' where
        "t' = AList.update p (Table True True e') (AList.update p (Table True True []) t)"
      have "make_subtable t (butlast key) True (assign_last (last key) v) = Inr t'"
        unfolding bl make_subtable_new [OF None] e'(1) t'_def by simp
      moreover have "active_ok t'" "wf_table t'"
        using assms(2,3) e'(2,3)
        by (simp_all add: t'_def active_ok_update wf_table_update)
      ultimately show ?thesis by blast
    next
      case (Some c)
      from first [OF Some] obtain elems where c: "c = Table True True elems"
        and de: "dotted_table elems" and we: "wf_table elems"
        and sub1: "set (item_keys_rec elems [p]) \<subseteq> set (item_keys_rec t [])"
        and sub2: "set (item_prefixes_rec elems [p]) \<subseteq> set (item_prefixes_rec t [])"
        by blast
      have pre: "\<forall>i. 1 \<le> i \<and> i < length ps \<longrightarrow> [p] @ take i ps \<notin> set (item_keys_rec elems [p])"
      proof (intro allI impI)
        fix i assume "1 \<le> i \<and> i < length ps"
        then have "take (Suc i) key \<notin> set (item_keys_rec t [])"
          using assms(7) [rule_format, of "Suc i"] key by simp
        with sub1 key show "[p] @ take i ps \<notin> set (item_keys_rec elems [p])" by auto
      qed
      have "\<exists>t'. make_subtable elems (butlast ps) True ?f = Inr t' \<and> dotted_table t' \<and> wf_table t'"
        using assms(4,5) sub1 sub2 key
        by (intro assign_dotted [OF ne de we _ _ pre]) auto
      then obtain e' where e': "make_subtable elems (butlast ps) True ?f = Inr e'"
        "dotted_table e'" "wf_table e'" by blast
      define t' where "t' = AList.update p (Table True True e') t"
      have "make_subtable t (butlast key) True (assign_last (last key) v) = Inr t'"
        unfolding bl make_subtable_table [OF Some [unfolded c]] e'(1) t'_def by simp
      moreover have "active_ok t'" "wf_table t'"
        using assms(2,3) e'(2,3)
        by (simp_all add: t'_def active_ok_update wf_table_update)
      ultimately show ?thesis by blast
    qed
  qed
qed

subsection \<open>The active table\<close>

lemma active_path_flag: "ps \<noteq> [] \<Longrightarrow> active_path d ps tbl = active_path d' ps tbl"
  by (cases ps) auto

lemma active_path_table:
  "wf_table tbl \<Longrightarrow> active_path d path tbl \<Longrightarrow>
   \<exists>t. subtable_at path tbl = Some t \<and> active_ok t \<and> wf_table t"
proof (induction path arbitrary: tbl d)
  case Nil
  then show ?case by simp
next
  case (Cons p ps)
  show ?case
  proof (cases "map_of tbl p")
    case None
    with Cons.prems(2) show ?thesis by simp
  next
    case (Some c)
    from wf_table_map_of [OF Cons.prems(1) Some] have wc: "wf_child c" .
    show ?thesis
    proof (cases c)
      case (Value v)
      with Cons.prems(2) Some show ?thesis by simp
    next
      case (Table d' dt elems)
      with Cons.prems(2) Some wc Cons.IH [of elems d'] show ?thesis by simp
    next
      case (TableArray init lst)
      with Cons.prems(2) Some wc Cons.IH [of lst True] show ?thesis by simp
    qed
  qed
qed

text \<open>
  A change of the active table that keeps its invariant keeps the invariant of the whole
  tree, and the children of the root are of the same kinds as before.
\<close>

lemma update_at_invariant:
  assumes "wf_table tbl" "active_path d path tbl" "subtable_at path tbl = Some t"
    and "f t = Inr t'" "active_ok t'" "wf_table t'"
  shows "\<exists>tbl'. update_at path f tbl = Inr tbl' \<and> wf_table tbl' \<and> active_path d path tbl'
           \<and> (path \<noteq> [] \<longrightarrow> list_all (\<lambda>e. header_child (snd e)) tbl
                 \<longrightarrow> list_all (\<lambda>e. header_child (snd e)) tbl')"
  using assms(1,2,3)
proof (induction path arbitrary: tbl d)
  case Nil
  with assms(4,5,6) show ?case by simp
next
  case (Cons p ps)
  show ?case
  proof (cases "map_of tbl p")
    case None
    with Cons.prems(2) show ?thesis by simp
  next
    case (Some c)
    from wf_table_map_of [OF Cons.prems(1) Some] have wc: "wf_child c" .
    show ?thesis
    proof (cases c)
      case (Value v)
      with Cons.prems(2) Some show ?thesis by simp
    next
      case (Table d' dt elems)
      from Cons.prems Some Table wc
      have "\<exists>e'. update_at ps f elems = Inr e' \<and> wf_table e' \<and> active_path d' ps e'
           \<and> (ps \<noteq> [] \<longrightarrow> list_all (\<lambda>e. header_child (snd e)) elems
                 \<longrightarrow> list_all (\<lambda>e. header_child (snd e)) e')"
        by (intro Cons.IH) simp_all
      then obtain e' where e': "update_at ps f elems = Inr e'" "wf_table e'"
        "active_path d' ps e'"
        "ps \<noteq> [] \<longrightarrow> list_all (\<lambda>e. header_child (snd e)) elems
                 \<longrightarrow> list_all (\<lambda>e. header_child (snd e)) e'"
        by blast
      define tbl' where "tbl' = AList.update p (Table d' dt e') tbl"
      have run: "update_at (p # ps) f tbl = Inr tbl'"
        using Some Table e'(1) by (simp add: tbl'_def)
      have defined: "d'" if "ps = []"
        using that Cons.prems(2) Some Table by simp
      have "wf_child (Table d' dt e')"
        using wc e'(2,4) defined unfolding Table by (cases "ps = []") auto
      then have "wf_table tbl'"
        unfolding tbl'_def using Cons.prems(1) by (intro wf_table_update)
      moreover have "active_path d (p # ps) tbl'"
        using e'(3) by (simp add: tbl'_def update_conv')
      moreover have "list_all (\<lambda>e. header_child (snd e)) tbl'"
        if "list_all (\<lambda>e. header_child (snd e)) tbl"
        unfolding tbl'_def using that list_all_map_of [OF that Some]
        by (intro list_all_update) (simp_all add: Table)
      ultimately show ?thesis using run by blast
    next
      case (TableArray init lst)
      from Cons.prems Some TableArray wc
      have "\<exists>e'. update_at ps f lst = Inr e' \<and> wf_table e' \<and> active_path True ps e'
           \<and> (ps \<noteq> [] \<longrightarrow> list_all (\<lambda>e. header_child (snd e)) lst
                 \<longrightarrow> list_all (\<lambda>e. header_child (snd e)) e')"
        by (intro Cons.IH) simp_all
      then obtain e' where e': "update_at ps f lst = Inr e'" "wf_table e'"
        "active_path True ps e'"
        by blast
      define tbl' where "tbl' = AList.update p (TableArray init e') tbl"
      have run: "update_at (p # ps) f tbl = Inr tbl'"
        using Some TableArray e'(1) by (simp add: tbl'_def)
      have "wf_table tbl'"
        unfolding tbl'_def using Cons.prems(1) e'(2) by (intro wf_table_update) simp_all
      moreover have "active_path d (p # ps) tbl'"
        using e'(3) by (simp add: tbl'_def update_conv')
      moreover have "list_all (\<lambda>e. header_child (snd e)) tbl'"
        if "list_all (\<lambda>e. header_child (snd e)) tbl"
        unfolding tbl'_def using that by (intro list_all_update) simp_all
      ultimately show ?thesis using run by blast
    qed
  qed
qed

text \<open>
  \<open>assign\<close> on a context with the invariant, for a key whose place in the active table
  is free according to the three queries: no assertion fails, and the invariant holds
  again.
\<close>

lemma assign_invariant:
  assumes "context_ok ctx" "active_table ctx = Some t" "key \<noteq> []"
    and "key \<notin> set (get_active_item_keys t)"
    and "key \<notin> set (get_active_item_prefixes t)"
    and "key \<notin> set (get_active_subtable_keys t)"
    and "\<forall>i \<in> {1..<length key}.
           take i key \<notin> set (get_active_item_keys t)
           \<and> take i key \<notin> set (get_active_subtable_keys t)"
  shows "\<exists>ctx'. assign debug key v ctx = Inr ctx' \<and> context_ok ctx'"
proof -
  from assms(1) have wf: "wf_table (data ctx)" and ap: "active_path True (active ctx) (data ctx)"
    by (simp_all add: context_ok_def)
  from active_path_table [OF wf ap] assms(2) have t: "active_ok t" "wf_table t"
    by (auto simp: active_table_def)
  let ?f = "\<lambda>tbl. make_subtable tbl (butlast key) True (assign_last (last key) v)"
  have "\<exists>t'. ?f t = Inr t' \<and> active_ok t' \<and> wf_table t'"
    using assms(4,5,6,7)
    by (intro assign_active [OF assms(3) t])
       (auto simp: get_active_item_keys_def get_active_item_prefixes_def
         get_active_subtable_keys_def)
  then obtain t' where t': "?f t = Inr t'" "active_ok t'" "wf_table t'" by blast
  from update_at_invariant [OF wf ap assms(2) [unfolded active_table_def], of ?f, OF t']
  obtain tbl' where "update_at (active ctx) ?f (data ctx) = Inr tbl'" "wf_table tbl'"
    "active_path True (active ctx) tbl'" by blast
  then show ?thesis
    using assms(3) by (simp add: assign_def Let_def debug_print_def context_ok_def)
qed

subsection \<open>Headers\<close>

lemma walk_ok_Cons:
  "ps \<noteq> [] \<Longrightarrow> walk_ok P (p # ps) tbl =
     (case map_of tbl p of
        None \<Rightarrow> P None
      | Some (Table d dt elems) \<Rightarrow> walk_ok P ps elems
      | Some (TableArray init lst) \<Rightarrow> walk_ok P ps lst
      | Some (Value v) \<Rightarrow> False)"
  by (cases ps) auto

lemma walk_ok_empty: "key \<noteq> [] \<Longrightarrow> walk_ok P key [] = P None"
  by (induction P key "[] :: table" rule: walk_ok.induct) auto

lemma walk_ok_mono: "walk_ok P key tbl \<Longrightarrow> (\<And>c. P c \<Longrightarrow> Q c) \<Longrightarrow> walk_ok Q key tbl"
  by (induction P key tbl rule: walk_ok.induct) (auto split: option.splits child.splits)

text \<open>
  The walk of a header whose last step \<open>f\<close> succeeds on what \<open>P\<close> admits: no assertion
  fails, the invariant of the tree holds again, the key leads to a table with the
  invariant of the active table, and the children of the root are of the kinds they
  were, or made by the header.
\<close>

lemma header_walk:
  assumes last_step: "\<And>p t. wf_table t \<Longrightarrow> P (map_of t p) \<Longrightarrow>
      \<exists>t'. f p t = Inr t' \<and> wf_table t' \<and> active_path True [p] t'
         \<and> (list_all (\<lambda>e. header_child (snd e)) t \<longrightarrow> list_all (\<lambda>e. header_child (snd e)) t')"
  shows "key \<noteq> [] \<Longrightarrow> wf_table tbl \<Longrightarrow> walk_ok P key tbl \<Longrightarrow>
    \<exists>tbl'. make_subtable tbl (butlast key) False (f (last key)) = Inr tbl'
       \<and> wf_table tbl' \<and> active_path True key tbl'
       \<and> (list_all (\<lambda>e. header_child (snd e)) tbl
            \<longrightarrow> list_all (\<lambda>e. header_child (snd e)) tbl')"
proof (induction key arbitrary: tbl rule: list_nonempty_induct)
  case (single p)
  with last_step [of tbl p] show ?case by simp
next
  case (cons p ps)
  have bl: "butlast (p # ps) = p # butlast ps" "last (p # ps) = last ps"
    using cons.hyps by simp_all
  let ?f = "f (last ps)"
  let ?H = "list_all (\<lambda>e. header_child (snd e))"
  note walk = cons.prems(2) [unfolded walk_ok_Cons [OF cons.hyps]]
  show ?case
  proof (cases "map_of tbl p")
    case None
    with walk have "walk_ok P ps []" by (simp add: walk_ok_empty cons.hyps)
    then have "\<exists>e'. make_subtable [] (butlast ps) False ?f = Inr e' \<and> wf_table e'
        \<and> active_path True ps e' \<and> (?H ([] :: table) \<longrightarrow> ?H e')"
      by (intro cons.IH) simp_all
    then obtain e' where e': "make_subtable [] (butlast ps) False ?f = Inr e'" "wf_table e'"
      "active_path True ps e'" "?H e'" by auto
    define tbl' where
      "tbl' = AList.update p (Table False False e') (AList.update p (Table False False []) tbl)"
    have "make_subtable tbl (butlast (p # ps)) False (f (last (p # ps))) = Inr tbl'"
      unfolding bl make_subtable_new [OF None] e'(1) tbl'_def by simp
    moreover have "wf_table tbl'"
      unfolding tbl'_def using cons.prems(1) e'(2,4) by (intro wf_table_update) simp_all
    moreover have "active_path True (p # ps) tbl'"
      using e'(3) active_path_flag [OF cons.hyps, of False e' True]
      by (simp add: tbl'_def update_conv')
    moreover have "?H tbl'" if "?H tbl"
      unfolding tbl'_def using that by (intro list_all_update) simp_all
    ultimately show ?thesis by blast
  next
    case (Some c)
    from wf_table_map_of [OF cons.prems(1) Some] have wc: "wf_child c" .
    show ?thesis
    proof (cases c)
      case (Value v)
      with walk Some show ?thesis by simp
    next
      case (Table d dt elems)
      with walk Some wc
      have "\<exists>e'. make_subtable elems (butlast ps) False ?f = Inr e' \<and> wf_table e'
        \<and> active_path True ps e' \<and> (?H elems \<longrightarrow> ?H e')"
        by (intro cons.IH) simp_all
      then obtain e' where e': "make_subtable elems (butlast ps) False ?f = Inr e'"
        "wf_table e'" "active_path True ps e'" "?H elems \<longrightarrow> ?H e'" by auto
      define tbl' where "tbl' = AList.update p (Table d dt e') tbl"
      have "make_subtable tbl (butlast (p # ps)) False (f (last (p # ps))) = Inr tbl'"
        unfolding bl make_subtable_table [OF Some [unfolded Table]] e'(1) tbl'_def by simp
      moreover have "wf_child (Table d dt e')"
        using wc e'(2,4) unfolding Table by auto
      then have "wf_table tbl'"
        unfolding tbl'_def using cons.prems(1) by (intro wf_table_update)
      moreover have "active_path True (p # ps) tbl'"
        using e'(3) active_path_flag [OF cons.hyps, of d e' True]
        by (simp add: tbl'_def update_conv')
      moreover have "?H tbl'" if "?H tbl"
        unfolding tbl'_def using that list_all_map_of [OF that Some]
        by (intro list_all_update) (simp_all add: Table)
      ultimately show ?thesis by blast
    next
      case (TableArray init lst)
      with walk Some wc
      have "\<exists>e'. make_subtable lst (butlast ps) False ?f = Inr e' \<and> wf_table e'
        \<and> active_path True ps e' \<and> (?H lst \<longrightarrow> ?H e')"
        by (intro cons.IH) simp_all
      then obtain e' where e': "make_subtable lst (butlast ps) False ?f = Inr e'"
        "wf_table e'" "active_path True ps e'" by auto
      define tbl' where "tbl' = AList.update p (TableArray init e') tbl"
      have "make_subtable tbl (butlast (p # ps)) False (f (last (p # ps))) = Inr tbl'"
        unfolding bl make_subtable_array [OF Some [unfolded TableArray]] e'(1) tbl'_def by simp
      moreover have "wf_table tbl'"
        unfolding tbl'_def using cons.prems(1) e'(2) by (intro wf_table_update) simp_all
      moreover have "active_path True (p # ps) tbl'"
        using e'(3) by (simp add: tbl'_def update_conv')
      moreover have "?H tbl'" if "?H tbl"
        unfolding tbl'_def using that by (intro list_all_update) simp_all
      ultimately show ?thesis by blast
    qed
  qed
qed

lemma open_table_last_step:
  assumes "wf_table t" "table_target (map_of t p)"
  shows "\<exists>t'. open_table_last p t = Inr t' \<and> wf_table t' \<and> active_path True [p] t'
         \<and> (list_all (\<lambda>e. header_child (snd e)) t \<longrightarrow> list_all (\<lambda>e. header_child (snd e)) t')"
proof (cases "map_of t p")
  case None
  define t' where
    "t' = AList.update p (Table True False []) (AList.update p (Table False False []) t)"
  have "open_table_last p t = Inr t'"
    using None by (simp add: open_table_last_def update_conv' t'_def)
  moreover have "wf_table t'"
    unfolding t'_def using assms(1) by (intro wf_table_update) simp_all
  moreover have "active_path True [p] t'"
    by (simp add: t'_def update_conv' active_ok_def)
  moreover have "list_all (\<lambda>e. header_child (snd e)) t'"
    if "list_all (\<lambda>e. header_child (snd e)) t"
    unfolding t'_def using that by (intro list_all_update) simp_all
  ultimately show ?thesis by blast
next
  case (Some c)
  with assms(2) obtain dt elems where c: "c = Table False dt elems"
    by (cases c) (auto simp: table_target_def)
  from wf_table_map_of [OF assms(1) Some]
  have dt: "\<not> dt" and hc: "list_all (\<lambda>e. header_child (snd e)) elems" and we: "wf_table elems"
    by (simp_all add: c)
  define t' where "t' = AList.update p (Table True False elems) t"
  have "open_table_last p t = Inr t'"
    using Some dt by (simp add: open_table_last_def c t'_def)
  moreover have "wf_table t'"
    unfolding t'_def using assms(1) we by (intro wf_table_update) simp_all
  moreover have "active_ok elems"
    using hc by (auto simp: active_ok_def list_all_iff)
  then have "active_path True [p] t'"
    by (simp add: t'_def update_conv')
  moreover have "list_all (\<lambda>e. header_child (snd e)) t'"
    if "list_all (\<lambda>e. header_child (snd e)) t"
    unfolding t'_def using that by (intro list_all_update) simp_all
  ultimately show ?thesis by blast
qed

lemma open_table_array_last_step:
  assumes "wf_table t" "array_target (map_of t p)"
  shows "\<exists>t'. open_table_array_last p t = Inr t' \<and> wf_table t' \<and> active_path True [p] t'
         \<and> (list_all (\<lambda>e. header_child (snd e)) t \<longrightarrow> list_all (\<lambda>e. header_child (snd e)) t')"
proof -
  from assms(2) obtain init where
    run: "open_table_array_last p t = Inr (AList.update p (TableArray init []) t)"
    by (auto simp: open_table_array_last_def array_target_def split: option.splits child.splits)
  define t' where "t' = AList.update p (TableArray init []) t"
  have "wf_table t'"
    unfolding t'_def using assms(1) by (intro wf_table_update) simp_all
  moreover have "active_path True [p] t'"
    by (simp add: t'_def update_conv' active_ok_def)
  moreover have "list_all (\<lambda>e. header_child (snd e)) t'"
    if "list_all (\<lambda>e. header_child (snd e)) t"
    unfolding t'_def using that by (intro list_all_update) simp_all
  ultimately show ?thesis using run unfolding t'_def by blast
qed

lemma walk_ok_nonempty: "walk_ok P key tbl \<Longrightarrow> key \<noteq> []"
  by auto

lemma open_table_invariant:
  assumes "context_ok ctx" "walk_ok table_target key (data ctx)"
  shows "\<exists>ctx'. open_table debug key ctx = Inr ctx' \<and> context_ok ctx'"
proof -
  from assms(1) have wf: "wf_table (data ctx)" by (simp add: context_ok_def)
  from assms(2) have ne: "key \<noteq> []" by auto
  from header_walk [of table_target open_table_last, OF open_table_last_step ne wf assms(2)]
  obtain tbl' where
    "make_subtable (data ctx) (butlast key) False (open_table_last (last key)) = Inr tbl'"
    "wf_table tbl'" "active_path True key tbl'" by blast
  then show ?thesis
    using ne by (simp add: open_table_def Let_def debug_print_def context_ok_def)
qed

lemma open_table_array_invariant:
  assumes "context_ok ctx" "walk_ok array_target key (data ctx)"
  shows "\<exists>ctx'. open_table_array debug key ctx = Inr ctx' \<and> context_ok ctx'"
proof -
  from assms(1) have wf: "wf_table (data ctx)" by (simp add: context_ok_def)
  from assms(2) have ne: "key \<noteq> []" by auto
  from header_walk [of array_target open_table_array_last,
      OF open_table_array_last_step ne wf assms(2)]
  obtain tbl' where
    "make_subtable (data ctx) (butlast key) False (open_table_array_last (last key)) = Inr tbl'"
    "wf_table tbl'" "active_path True key tbl'" by blast
  then show ?thesis
    using ne by (simp add: open_table_array_def Let_def debug_print_def context_ok_def)
qed

subsection \<open>The queries and the walks\<close>

text \<open>A walk that fails has met a value on its way, or ends at a child it must not meet.\<close>

lemma walk_fails:
  "key \<noteq> [] \<Longrightarrow> P None \<Longrightarrow> \<not> walk_ok P key tbl \<Longrightarrow>
   (\<exists>i v. 1 \<le> i \<and> i < length key \<and> node_at (take i key) tbl = Some (Value v))
   \<or> (\<exists>c. node_at key tbl = Some c \<and> \<not> P (Some c))"
proof (induction key arbitrary: tbl rule: list_nonempty_induct)
  case (single p)
  then show ?case by (cases "map_of tbl p") auto
next
  case (cons p ps)
  note fails = cons.prems(2) [unfolded walk_ok_Cons [OF cons.hyps]]
  have deeper: ?case
    if sub: "\<not> walk_ok P ps sub" and nodes: "\<And>qs. qs \<noteq> [] \<Longrightarrow> node_at (p # qs) tbl = node_at qs sub"
    for sub
  proof -
    from cons.IH [OF cons.prems(1) sub]
    consider i v where "1 \<le> i" "i < length ps" "node_at (take i ps) sub = Some (Value v)"
      | c where "node_at ps sub = Some c" "\<not> P (Some c)"
      by blast
    then show ?thesis
    proof cases
      case 1
      then have "take i ps \<noteq> []" using cons.hyps by (cases ps) auto
      from nodes [OF this] 1 have "node_at (take (Suc i) (p # ps)) tbl = Some (Value v)"
        by simp
      moreover have "1 \<le> Suc i" "Suc i < length (p # ps)" using 1 by simp_all
      ultimately show ?thesis by blast
    next
      case 2
      with nodes [OF cons.hyps] show ?thesis by auto
    qed
  qed
  show ?case
  proof (cases "map_of tbl p")
    case None
    with fails cons.prems(1) show ?thesis by simp
  next
    case (Some c)
    show ?thesis
    proof (cases c)
      case (Value v)
      with Some have "node_at (take 1 (p # ps)) tbl = Some (Value v)" by simp
      moreover have "1 < length (p # ps)" using cons.hyps by (cases ps) auto
      ultimately show ?thesis by blast
    next
      case (Table d dt elems)
      with fails Some show ?thesis
        by (intro deeper [of elems]) (simp_all add: node_at_Cons)
    next
      case (TableArray init lst)
      with fails Some show ?thesis
        by (intro deeper [of lst]) (simp_all add: node_at_Cons)
    qed
  qed
qed

text \<open>What a key names is listed by the query for its kind.\<close>

lemma node_at_descend:
  assumes "ps \<noteq> []" "node_at (p # ps) tbl = Some c"
  shows "\<exists>c0 sub. (p, c0) \<in> set tbl \<and> node_at ps sub = Some c
           \<and> ((\<exists>d dt. c0 = Table d dt sub) \<or> (\<exists>init. c0 = TableArray init sub))"
proof -
  from assms obtain c0 where c0: "map_of tbl p = Some c0"
    by (auto simp: node_at_Cons split: option.splits)
  then have "(p, c0) \<in> set tbl" by (rule map_of_SomeD)
  with assms c0 show ?thesis
    by (cases c0) (auto simp: node_at_Cons)
qed

lemma node_at_value_listed:
  "node_at key tbl = Some (Value v) \<Longrightarrow> path @ key \<in> set (item_keys_rec tbl path)"
proof (induction key arbitrary: tbl path)
  case Nil
  then show ?case by simp
next
  case (Cons p ps)
  show ?case
  proof (cases "ps = []")
    case True
    with Cons.prems have "(p, Value v) \<in> set tbl" by (auto dest: map_of_SomeD)
    from item_keys_rec_entry [OF this, of path] True show ?thesis by simp
  next
    case False
    from node_at_descend [OF False Cons.prems] obtain c0 sub where
      mem: "(p, c0) \<in> set tbl" and node: "node_at ps sub = Some (Value v)"
      and c0: "(\<exists>d dt. c0 = Table d dt sub) \<or> (\<exists>init. c0 = TableArray init sub)"
      by blast
    from Cons.IH [OF node, of "path @ [p]"] c0
    have "path @ p # ps \<in> set (item_keys_child c0 (path @ [p]))" by auto
    with item_keys_rec_entry [OF mem, of path] show ?thesis by auto
  qed
qed

lemma node_at_table_listed:
  "node_at key tbl = Some c \<Longrightarrow> listed_table df ar (Some c) \<Longrightarrow>
   path @ key \<in> set (table_keys_rec df ar tbl path)"
proof (induction key arbitrary: tbl path)
  case Nil
  then show ?case by simp
next
  case (Cons p ps)
  show ?case
  proof (cases "ps = []")
    case True
    with Cons.prems have mem: "(p, c) \<in> set tbl" by (auto dest: map_of_SomeD)
    from Cons.prems(2) have "path @ [p] \<in> set (table_keys_child df ar c (path @ [p]))"
      by (cases c) (auto simp: listed_table_def)
    with table_keys_rec_entry [OF mem, of df ar path] True show ?thesis by auto
  next
    case False
    from node_at_descend [OF False Cons.prems(1)] obtain c0 sub where
      mem: "(p, c0) \<in> set tbl" and node: "node_at ps sub = Some c"
      and c0: "(\<exists>d dt. c0 = Table d dt sub) \<or> (\<exists>init. c0 = TableArray init sub)"
      by blast
    from Cons.IH [OF node Cons.prems(2), of "path @ [p]"] c0
    have "path @ p # ps \<in> set (table_keys_child df ar c0 (path @ [p]))" by auto
    with table_keys_rec_entry [OF mem, of df ar path] show ?thesis by auto
  qed
qed

text \<open>
  A key that \<open>get_table_keys\<close> lists names a table or a table array of the kind asked
  for, in a tree no dictionary of which holds a key twice.
\<close>

lemma walk_ok_head: "walk_ok P key tbl \<Longrightarrow> \<not> P None \<Longrightarrow> hd key \<in> fst ` set tbl"
proof (cases key)
  case Nil
  assume "walk_ok P key tbl"
  with Nil show ?thesis by simp
next
  case (Cons p ps)
  assume w: "walk_ok P key tbl" and n: "\<not> P None"
  have "map_of tbl p \<noteq> None"
  proof
    assume "map_of tbl p = None"
    with w n show False unfolding Cons by (cases ps) auto
  qed
  then show ?thesis
    unfolding Cons by (auto simp: map_of_eq_None_iff)
qed

lemma walk_ok_other: "hd key \<noteq> p \<Longrightarrow> walk_ok P key ((p, c) # rest) = walk_ok P key rest"
  by (cases "(P, key, rest)" rule: walk_ok.cases) auto

lemma table_keys_listed:
  "wf_table tbl \<Longrightarrow> k \<in> set (table_keys_rec df ar tbl path) \<Longrightarrow>
     \<exists>key. k = path @ key \<and> walk_ok (listed_table df ar) key tbl"
  "wf_child c \<Longrightarrow> k \<in> set (table_keys_child df ar c path) \<Longrightarrow>
     (k = path \<and> listed_table df ar (Some c))
     \<or> (\<exists>key sub. k = path @ key \<and> walk_ok (listed_table df ar) key sub
           \<and> ((\<exists>d dt. c = Table d dt sub) \<or> (\<exists>init. c = TableArray init sub)))"
proof (induction df ar tbl path and df ar c path arbitrary: k and k
    rule: table_keys_rec_table_keys_child.induct)
  case (1 df ar path)
  then show ?case by simp
next
  case (2 df ar p v rest path)
  let ?P = "listed_table df ar"
  from "2.prems"(1) have wv: "wf_child v" and wr: "wf_table rest" and fresh: "p \<notin> fst ` set rest"
    by simp_all
  from "2.prems"(2) consider
    (child) "k \<in> set (table_keys_child df ar v (path @ [p]))"
    | (rest) "k \<in> set (table_keys_rec df ar rest path)"
    by auto
  then show ?case
  proof cases
    case child
    from "2.IH"(1) [OF wv child] consider
      (here) "k = path @ [p]" "?P (Some v)"
      | (below) key sub where "k = (path @ [p]) @ key" "walk_ok ?P key sub"
          "(\<exists>d dt. v = Table d dt sub) \<or> (\<exists>init. v = TableArray init sub)"
      by blast
    then show ?thesis
    proof cases
      case here
      then have "k = path @ [p] \<and> walk_ok ?P [p] ((p, v) # rest)" by simp
      then show ?thesis by blast
    next
      case below
      from below(2) have "key \<noteq> []" by auto
      with below(2,3) have "walk_ok ?P (p # key) ((p, v) # rest)"
        by (auto simp: walk_ok_Cons)
      with below(1) show ?thesis by (intro exI [of _ "p # key"]) simp
    qed
  next
    case rest
    from "2.IH"(2) [OF wr rest] obtain key where
      key: "k = path @ key" "walk_ok ?P key rest" by blast
    have "\<not> ?P None" by (simp add: listed_table_def)
    from walk_ok_head [OF key(2) this] fresh have "hd key \<noteq> p" by auto
    with key show ?thesis by (auto simp: walk_ok_other)
  qed
next
  case (3 df ar d dt elems path)
  from "3.prems"(2) consider "k = path" "listed_table df ar (Some (Table d dt elems))"
    | "k \<in> set (table_keys_rec df ar elems path)"
    by (auto simp: listed_table_def split: if_splits)
  then show ?case
  proof cases
    case 1
    then show ?thesis by simp
  next
    case 2
    from "3.prems"(1) have "wf_table elems" by simp
    from "3.IH" [OF this 2] show ?thesis by auto
  qed
next
  case (4 df ar init lst path)
  from "4.prems"(2) consider "k = path" "listed_table df ar (Some (TableArray init lst))"
    | "k \<in> set (table_keys_rec df ar lst path)"
    by (auto simp: listed_table_def split: if_splits)
  then show ?case
  proof cases
    case 1
    then show ?thesis by simp
  next
    case 2
    from "4.prems"(1) have "wf_table lst" by simp
    from "4.IH" [OF this 2] show ?thesis by auto
  qed
next
  case (5 df ar v path)
  then show ?case by simp
qed

subsection \<open>The keys the generator draws for headers\<close>

lemma gen_key_new_or_reused:
  assumes "gen_key fuel exclude_prefix exclude_key reuse_prefix reuse_key g
             = Some ((key_str, key), g')"
  shows "key \<in> set reuse_key
     \<or> (key \<noteq> [] \<and> key \<notin> set exclude_key
          \<and> (\<forall>i \<in> {1..<length key}. take i key \<notin> set exclude_prefix))"
proof (cases "key \<in> set reuse_key")
  case True
  then show ?thesis by simp
next
  case False
  with gen_key_result [OF assms] obtain prefix new where
    new: "key = prefix @ new" "1 \<le> length new" "key \<notin> set exclude_key"
      "\<forall>i \<in> {1..<length key}. take i key \<notin> set exclude_prefix"
    by blast
  from new(1,2) have "key \<noteq> []" by auto
  with new(3,4) show ?thesis by blast
qed

lemma table_key_walks:
  assumes ok: "context_ok ctx"
    and key: "gen_key fuel (get_item_keys ctx)
        (get_item_keys ctx @ get_table_keys ctx (Some True) (Some False)
           @ get_table_keys ctx None (Some True))
        (get_table_keys ctx (Some False) (Some False) @ get_table_keys ctx (Some True) (Some False))
        (get_table_keys ctx (Some False) (Some False)) g = Some ((key_str, key), g')"
  shows "walk_ok table_target key (data ctx)"
proof -
  from ok have wf: "wf_table (data ctx)" by (simp add: context_ok_def)
  from gen_key_new_or_reused [OF key] consider
    (reuse) "key \<in> set (get_table_keys ctx (Some False) (Some False))"
    | (new) "key \<noteq> []"
        "key \<notin> set (get_item_keys ctx)"
        "key \<notin> set (get_table_keys ctx (Some True) (Some False))"
        "key \<notin> set (get_table_keys ctx None (Some True))"
        "\<forall>i \<in> {1..<length key}. take i key \<notin> set (get_item_keys ctx)"
    by auto
  then show ?thesis
  proof cases
    case reuse
    then have "key \<in> set (table_keys_rec (Some False) (Some False) (data ctx) [])"
      by (simp add: get_table_keys_def)
    from table_keys_listed(1) [OF wf this]
    have "walk_ok (listed_table (Some False) (Some False)) key (data ctx)" by simp
    then show ?thesis
      by (rule walk_ok_mono)
         (auto simp: listed_table_def table_target_def split: option.splits child.splits)
  next
    case new
    show ?thesis
    proof (rule ccontr)
      assume "\<not> walk_ok table_target key (data ctx)"
      from walk_fails [OF new(1) _ this] consider
        i v where "1 \<le> i" "i < length key" "node_at (take i key) (data ctx) = Some (Value v)"
        | c where "node_at key (data ctx) = Some c" "\<not> table_target (Some c)"
        by (auto simp: table_target_def)
      then show False
      proof cases
        case 1
        from node_at_value_listed [OF 1(3), of "[]"] new(5) 1(1,2) show False
          by (auto simp: get_item_keys_def)
      next
        case 2
        show False
        proof (cases c)
          case (Value v)
          with node_at_value_listed [of key "data ctx" v "[]"] 2(1) new(2) show False
            by (simp add: get_item_keys_def)
        next
          case (Table d dt elems)
          with 2(2) have "listed_table (Some True) (Some False) (Some c)"
            by (simp add: table_target_def listed_table_def)
          from node_at_table_listed [OF 2(1) this, of "[]"] new(3) show False
            by (simp add: get_table_keys_def)
        next
          case (TableArray init lst)
          then have "listed_table None (Some True) (Some c)"
            by (simp add: listed_table_def)
          from node_at_table_listed [OF 2(1) this, of "[]"] new(4) show False
            by (simp add: get_table_keys_def)
        qed
      qed
    qed
  qed
qed

lemma array_key_walks:
  assumes ok: "context_ok ctx"
    and key: "gen_key fuel (get_item_keys ctx)
        (get_item_keys ctx @ get_table_keys ctx None (Some False))
        (get_table_keys ctx None (Some False) @ get_table_keys ctx None (Some True))
        (get_table_keys ctx None (Some True)) g = Some ((key_str, key), g')"
  shows "walk_ok array_target key (data ctx)"
proof -
  from ok have wf: "wf_table (data ctx)" by (simp add: context_ok_def)
  from gen_key_new_or_reused [OF key] consider
    (reuse) "key \<in> set (get_table_keys ctx None (Some True))"
    | (new) "key \<noteq> []"
        "key \<notin> set (get_item_keys ctx)"
        "key \<notin> set (get_table_keys ctx None (Some False))"
        "\<forall>i \<in> {1..<length key}. take i key \<notin> set (get_item_keys ctx)"
    by auto
  then show ?thesis
  proof cases
    case reuse
    then have "key \<in> set (table_keys_rec None (Some True) (data ctx) [])"
      by (simp add: get_table_keys_def)
    from table_keys_listed(1) [OF wf this]
    have "walk_ok (listed_table None (Some True)) key (data ctx)" by simp
    then show ?thesis
      by (rule walk_ok_mono)
         (auto simp: listed_table_def array_target_def split: option.splits child.splits)
  next
    case new
    show ?thesis
    proof (rule ccontr)
      assume "\<not> walk_ok array_target key (data ctx)"
      from walk_fails [OF new(1) _ this] consider
        i v where "1 \<le> i" "i < length key" "node_at (take i key) (data ctx) = Some (Value v)"
        | c where "node_at key (data ctx) = Some c" "\<not> array_target (Some c)"
        by (auto simp: array_target_def)
      then show False
      proof cases
        case 1
        from node_at_value_listed [OF 1(3), of "[]"] new(4) 1(1,2) show False
          by (auto simp: get_item_keys_def)
      next
        case 2
        show False
        proof (cases c)
          case (Value v)
          with node_at_value_listed [of key "data ctx" v "[]"] 2(1) new(2) show False
            by (simp add: get_item_keys_def)
        next
          case (Table d dt elems)
          then have "listed_table None (Some False) (Some c)"
            by (simp add: listed_table_def)
          from node_at_table_listed [OF 2(1) this, of "[]"] new(3) show False
            by (simp add: get_table_keys_def)
        next
          case (TableArray init lst)
          with 2(2) show False by (simp add: array_target_def)
        qed
      qed
    qed
  qed
qed

subsection \<open>Inline tables\<close>

lemma inline_entry_ok_item: "path \<in> set K \<Longrightarrow> inline_entry_ok K P path x"
  by (cases x) auto

lemma inline_entry_ok_cases:
  "inline_entry_ok K P path x \<Longrightarrow> path \<notin> set K \<Longrightarrow>
   \<exists>d. x = VDict d \<and> path \<in> set P \<and> inline_table_ok K P path d"
  by (cases x) auto

lemma inline_table_ok_iff:
  "inline_table_ok K P path tbl
     \<longleftrightarrow> list_all (\<lambda>e. inline_entry_ok K P (path @ [fst e]) (snd e)) tbl"
  by (induction tbl) auto

lemma inline_table_ok_update:
  "inline_table_ok K P path tbl \<Longrightarrow> inline_entry_ok K P (path @ [p]) x \<Longrightarrow>
   inline_table_ok K P path (AList.update p x tbl)"
  by (simp add: inline_table_ok_iff list_all_update)

lemma inline_table_ok_map_of:
  "inline_table_ok K P path tbl \<Longrightarrow> map_of tbl p = Some x \<Longrightarrow>
   inline_entry_ok K P (path @ [p]) x"
  by (auto simp: inline_table_ok_iff dest: list_all_map_of)

lemma inline_ok_mono:
  "inline_entry_ok K P path x \<Longrightarrow> set K \<subseteq> set K' \<Longrightarrow> set P \<subseteq> set P' \<Longrightarrow>
     inline_entry_ok K' P' path x"
  "inline_table_ok K P path tbl \<Longrightarrow> set K \<subseteq> set K' \<Longrightarrow> set P \<subseteq> set P' \<Longrightarrow>
     inline_table_ok K' P' path tbl"
  by (induction K P path x and K P path tbl rule: inline_entry_ok_inline_table_ok.induct) auto

text \<open>
  The walk of \<open>_gen_inline_table\<close> along a key no proper prefix of which is the key of
  an item: every child on the way is a dictionary.
\<close>

lemma inline_walk_ok:
  assumes "key \<noteq> []" "inline_table_ok K P path tbl"
    and "\<forall>i. 1 \<le> i \<and> i < length key \<longrightarrow> path @ take i key \<notin> set K"
    and "set K \<subseteq> set K'" "set P \<subseteq> set P'" "path @ key \<in> set K'"
    and "\<forall>i. 1 \<le> i \<and> i < length key \<longrightarrow> path @ take i key \<in> set P'"
  shows "\<exists>tbl'. inline_walk tbl (butlast key) (\<lambda>s. Inr (AList.update (last key) v s)) = Inr tbl'
           \<and> inline_table_ok K' P' path tbl'"
  using assms(1,2,3,6,7)
proof (induction key arbitrary: tbl path rule: list_nonempty_induct)
  case (single p)
  from inline_ok_mono(2) [OF single.prems(1) assms(4,5)] single.prems(3)
  show ?case by (simp add: inline_table_ok_update inline_entry_ok_item)
next
  case (cons p ps)
  have bl: "butlast (p # ps) = p # butlast ps" "last (p # ps) = last ps"
    using cons.hyps by simp_all
  let ?f = "\<lambda>s. Inr (AList.update (last ps) v s) :: error + (pystr \<times> toml_value) list"
  have one: "1 < length (p # ps)" using cons.hyps by (cases ps) auto
  from cons.prems(2) [rule_format, of 1] one have notK: "path @ [p] \<notin> set K" by simp
  from cons.prems(4) [rule_format, of 1] one have inP: "path @ [p] \<in> set P'" by simp
  have ok': "inline_table_ok K' P' path tbl"
    by (rule inline_ok_mono(2) [OF cons.prems(1) assms(4,5)])
  have pre2: "\<forall>i. 1 \<le> i \<and> i < length ps \<longrightarrow> (path @ [p]) @ take i ps \<notin> set K"
    using cons.prems(2) [rule_format, of "Suc i" for i] by auto
  have pre4: "\<forall>i. 1 \<le> i \<and> i < length ps \<longrightarrow> (path @ [p]) @ take i ps \<in> set P'"
    using cons.prems(4) [rule_format, of "Suc i" for i] by auto
  have pre3: "(path @ [p]) @ ps \<in> set K'" using cons.prems(3) by simp
  show ?case
  proof (cases "map_of tbl p")
    case None
    have "\<exists>d'. inline_walk [] (butlast ps) ?f = Inr d' \<and> inline_table_ok K' P' (path @ [p]) d'"
      by (rule cons.IH [OF _ pre2 pre3 pre4]) simp
    then obtain d' where d': "inline_walk [] (butlast ps) ?f = Inr d'"
      "inline_table_ok K' P' (path @ [p]) d'" by blast
    define tbl' where "tbl' = AList.update p (VDict d') (AList.update p (VDict []) tbl)"
    have "inline_walk tbl (butlast (p # ps)) (\<lambda>s. Inr (AList.update (last (p # ps)) v s))
        = Inr tbl'"
      unfolding bl using None d'(1) by (simp add: update_conv' tbl'_def)
    moreover have "inline_table_ok K' P' path tbl'"
      unfolding tbl'_def using ok' inP d'(2)
      by (intro inline_table_ok_update) (simp_all add: inline_entry_ok_item)
    ultimately show ?thesis by blast
  next
    case (Some x)
    from inline_entry_ok_cases [OF inline_table_ok_map_of [OF cons.prems(1) Some] notK]
    obtain d where x: "x = VDict d" and d: "inline_table_ok K P (path @ [p]) d" by blast
    have "\<exists>d'. inline_walk d (butlast ps) ?f = Inr d' \<and> inline_table_ok K' P' (path @ [p]) d'"
      by (rule cons.IH [OF d pre2 pre3 pre4])
    then obtain d' where d': "inline_walk d (butlast ps) ?f = Inr d'"
      "inline_table_ok K' P' (path @ [p]) d'" by blast
    define tbl' where "tbl' = AList.update p (VDict d') tbl"
    have "inline_walk tbl (butlast (p # ps)) (\<lambda>s. Inr (AList.update (last (p # ps)) v s))
        = Inr tbl'"
      unfolding bl using Some x d'(1) by (simp add: tbl'_def)
    moreover have "inline_table_ok K' P' path tbl'"
      unfolding tbl'_def using ok' inP d'(2)
      by (intro inline_table_ok_update) simp_all
    ultimately show ?thesis by blast
  qed
qed

lemma set_add_item_prefixes:
  "set (add_item_prefixes key is ip) = set ip \<union> (\<lambda>i. take i key) ` set is"
  by (induction "is" arbitrary: ip) auto

lemma inline_insert_ok:
  assumes "inline_table_ok ik ip [] tbl" "key \<noteq> []"
    and "\<forall>i \<in> {1..<length key}. take i key \<notin> set ik"
  shows "\<exists>tbl'. inline_insert key v tbl = Inr tbl'
     \<and> inline_table_ok (ik @ [key]) (add_item_prefixes key [1..<length key] ip) [] tbl'"
proof -
  have "\<exists>tbl'. inline_walk tbl (butlast key) (\<lambda>s. Inr (AList.update (last key) v s)) = Inr tbl'
     \<and> inline_table_ok (ik @ [key]) (add_item_prefixes key [1..<length key] ip) [] tbl'"
    using assms(3)
    by (intro inline_walk_ok [OF assms(2,1)]) (auto simp: set_add_item_prefixes)
  with assms(2) show ?thesis by (simp add: inline_insert_def)
qed

subsection \<open>Values\<close>

lemma gen_array_loop_no_error:
  assumes gv: "\<And>g e. gv g \<noteq> Some (Inl e)"
  shows "gen_array_loop gv is parts val g \<noteq> Some (Inl e)"
proof (induction "is" arbitrary: parts val g)
  case Nil
  then show ?case by simp
next
  case (Cons i "is")
  show ?case
    using gv Cons.IH
    by (auto split: prod.splits option.splits sum.splits if_splits)
qed

lemma gen_array_no_error:
  assumes gv: "\<And>g e. gv g \<noteq> Some (Inl e)"
  shows "gen_array gv g \<noteq> Some (Inl e)"
  using gen_array_loop_no_error [of gv, OF gv]
  by (auto simp: gen_array_def split: prod.splits option.splits sum.splits if_splits)

lemma gen_inline_table_loop_no_error:
  assumes gv: "\<And>g e. gv g \<noteq> Some (Inl e)"
  shows "inline_table_ok ik ip [] tbl \<Longrightarrow>
    gen_inline_table_loop fuel gv is parts tbl ik ip g \<noteq> Some (Inl e)"
proof (induction "is" arbitrary: parts tbl ik ip g)
  case Nil
  then show ?case by simp
next
  case (Cons i "is")
  show ?case
  proof (cases "gen_key fuel ik (ik @ ip) ip [] g")
    case None
    then show ?thesis by simp
  next
    case (Some r)
    then obtain key_str key g1 where
      k: "gen_key fuel ik (ik @ ip) ip [] g = Some ((key_str, key), g1)"
      by (cases r) auto
    from gen_key_new_or_reused [OF k]
    have key: "key \<noteq> []" "\<forall>i \<in> {1..<length key}. take i key \<notin> set ik" by auto
    show ?thesis
    proof (cases "gv g1")
      case None
      with k show ?thesis by simp
    next
      case (Some rv)
      with gv [of g1] obtain val_str v g2 where v: "gv g1 = Some (Inr ((val_str, v), g2))"
        by (cases rv) auto
      obtain parts1 g4 where 1:
        "(if i > 0 then (case gen_ws g2 of (w, g3) \<Rightarrow> (parts @ [w, lit '',''], g3))
          else (parts, g2)) = (parts1, g4)"
        by (cases "if i > 0 then (case gen_ws g2 of (w, g3) \<Rightarrow> (parts @ [w, lit '',''], g3))
          else (parts, g2)")
      obtain w1 g5 where w1: "gen_ws g4 = (w1, g5)" by (cases "gen_ws g4")
      obtain w2 g6 where w2: "gen_ws g5 = (w2, g6)" by (cases "gen_ws g5")
      obtain w3 g7 where w3: "gen_ws g6 = (w3, g7)" by (cases "gen_ws g6")
      from inline_insert_ok [OF Cons.prems key, of v] obtain tbl' where
        ins: "inline_insert key v tbl = Inr tbl'"
        and ok: "inline_table_ok (ik @ [key]) (add_item_prefixes key [1..<length key] ip) [] tbl'"
        by blast
      have "gen_inline_table_loop fuel gv (i # is) parts tbl ik ip g =
          gen_inline_table_loop fuel gv is
            (parts1 @ [w1, key_str, w2, lit ''='', w3, val_str]) tbl' (ik @ [key])
            (add_item_prefixes key [1..<length key] ip) g7"
        using k v 1 w1 w2 w3 ins by simp
      with Cons.IH [OF ok] show ?thesis by simp
    qed
  qed
qed

lemma gen_inline_table_no_error:
  assumes gv: "\<And>g e. gv g \<noteq> Some (Inl e)"
  shows "gen_inline_table fuel gv g \<noteq> Some (Inl e)"
  using gen_inline_table_loop_no_error [of gv "[]" "[]" "[]", OF gv]
  by (auto simp: gen_inline_table_def split: prod.splits option.splits sum.splits)

lemma gen_val_no_error: "gen_val fuel g \<noteq> Some (Inl e)"
proof (induction fuel arbitrary: g e)
  case 0
  then show ?case by simp
next
  case (Suc fuel)
  obtain func g1 where f:
    "choice [GenString, GenBoolean, GenInteger, GenFloat, GenArray, GenInlineTable, GenDateTime] g
       = (func, g1)"
    by (cases "choice [GenString, GenBoolean, GenInteger, GenFloat, GenArray, GenInlineTable,
                  GenDateTime] g")
  show ?case
  proof (cases func)
    case GenArray
    with f gen_array_no_error [of "gen_val fuel", OF Suc.IH] show ?thesis by simp
  next
    case GenInlineTable
    with f gen_inline_table_no_error [of "gen_val fuel", OF Suc.IH] show ?thesis by simp
  qed (use f in \<open>auto split: option.splits prod.splits\<close>)
qed

subsection \<open>Expressions and the document\<close>

lemma context_ok_init: "context_ok Context_init"
  by (simp add: context_ok_def Context_init_def active_ok_def)

lemma gen_keyval_invariant:
  assumes "context_ok ctx" "gen_keyval debug fuel ctx g = Some r"
  shows "\<exists>s ctx' g'. r = Inr ((s, ctx'), g') \<and> context_ok ctx'"
proof -
  from assms(1) have wf: "wf_table (data ctx)" and ap: "active_path True (active ctx) (data ctx)"
    by (simp_all add: context_ok_def)
  from active_path_table [OF wf ap] obtain t where t: "active_table ctx = Some t"
    by (auto simp: active_table_def)
  define ik where "ik = get_active_item_keys t"
  define ip where "ip = get_active_item_prefixes t"
  define tk where "tk = get_active_subtable_keys t"
  from assms(2) t obtain key_str key g1 where
    k: "gen_key fuel (ik @ tk) (ik @ ip @ tk) ip [] g = Some ((key_str, key), g1)"
    by (auto simp: gen_keyval_def Let_def ik_def ip_def tk_def split: option.splits)
  from assms(2) t k gen_val_no_error [of fuel g1] obtain val_str v g2 where
    v: "gen_val fuel g1 = Some (Inr ((val_str, v), g2))"
    by (auto simp: gen_keyval_def Let_def ik_def ip_def tk_def split: option.splits sum.splits)
  obtain ws1 g3 where ws1: "gen_ws g2 = (ws1, g3)" by (cases "gen_ws g2")
  obtain ws2 g4 where ws2: "gen_ws g3 = (ws2, g4)" by (cases "gen_ws g3")
  from gen_key_new_or_reused [OF k]
  have key: "key \<noteq> []" "key \<notin> set ik" "key \<notin> set ip" "key \<notin> set tk"
    "\<forall>i \<in> {1..<length key}. take i key \<notin> set ik \<and> take i key \<notin> set tk"
    by auto
  from assign_invariant [OF assms(1) t key [unfolded ik_def ip_def tk_def], of debug v]
  obtain ctx' where a: "assign debug key v ctx = Inr ctx'" and ok: "context_ok ctx'"
    by blast
  from assms(2) t k v ws1 ws2 a
  have "r = Inr ((key_str @ ws1 @ lit ''='' @ ws2 @ val_str, ctx'), g4)"
    by (auto simp: gen_keyval_def Let_def ik_def ip_def tk_def)
  with ok show ?thesis by blast
qed

lemma gen_table_invariant:
  assumes "context_ok ctx" "gen_table debug fuel ctx g = Some r"
  shows "\<exists>s ctx' g'. r = Inr ((s, ctx'), g') \<and> context_ok ctx'"
proof -
  obtain b g0 where b: "randint 0 1 g = (b, g0)" by (cases "randint 0 1 g")
  show ?thesis
  proof (cases "b > 0")
    case True
    with assms(2) b obtain key_str key g1 where
      k: "gen_key fuel (get_item_keys ctx)
            (get_item_keys ctx @ get_table_keys ctx None (Some False))
            (get_table_keys ctx None (Some False) @ get_table_keys ctx None (Some True))
            (get_table_keys ctx None (Some True)) g0 = Some ((key_str, key), g1)"
      by (auto simp: gen_table_def Let_def split: option.splits)
    from open_table_array_invariant [OF assms(1) array_key_walks [OF assms(1) k], of debug]
    obtain ctx' where a: "open_table_array debug key ctx = Inr ctx'" and ok: "context_ok ctx'"
      by blast
    obtain w1 h2 where w1: "gen_ws g1 = (w1, h2)" by (cases "gen_ws g1")
    obtain w2 h3 where w2: "gen_ws h2 = (w2, h3)" by (cases "gen_ws h2")
    from assms(2) b True k a w1 w2
    have "r = Inr ((lit ''[['' @ w1 @ key_str @ w2 @ lit '']]'', ctx'), h3)"
      by (auto simp: gen_table_def Let_def)
    with ok show ?thesis by blast
  next
    case False
    with assms(2) b obtain key_str key g1 where
      k: "gen_key fuel (get_item_keys ctx)
            (get_item_keys ctx @ get_table_keys ctx (Some True) (Some False)
               @ get_table_keys ctx None (Some True))
            (get_table_keys ctx (Some False) (Some False)
               @ get_table_keys ctx (Some True) (Some False))
            (get_table_keys ctx (Some False) (Some False)) g0 = Some ((key_str, key), g1)"
      by (auto simp: gen_table_def Let_def split: option.splits)
    from open_table_invariant [OF assms(1) table_key_walks [OF assms(1) k], of debug]
    obtain ctx' where a: "open_table debug key ctx = Inr ctx'" and ok: "context_ok ctx'"
      by blast
    obtain w1 h2 where w1: "gen_ws g1 = (w1, h2)" by (cases "gen_ws g1")
    obtain w2 h3 where w2: "gen_ws h2 = (w2, h3)" by (cases "gen_ws h2")
    from assms(2) b False k a w1 w2
    have "r = Inr ((lit ''['' @ w1 @ key_str @ w2 @ lit '']'', ctx'), h3)"
      by (auto simp: gen_table_def Let_def)
    with ok show ?thesis by blast
  qed
qed

lemma gen_expression_invariant:
  assumes "context_ok ctx" "gen_expression debug fuel ctx g = Some r"
  shows "\<exists>s ctx' g'. r = Inr ((s, ctx'), g') \<and> context_ok ctx'"
proof -
  obtain doc g1 where doc: "gen_ws g = (doc, g1)" by (cases "gen_ws g")
  obtain u g2 where u: "rng_random g1 = (u, g2)" by (cases "rng_random g1")
  define body :: "(pystr \<times> Context) run" where "body =
    (if u < 0.7 then
       (case gen_keyval debug fuel ctx g2 of
          None \<Rightarrow> None
        | Some (Inl e) \<Rightarrow> Some (Inl e)
        | Some (Inr ((s, ctx'), g3)) \<Rightarrow>
            (case gen_ws g3 of (w, g4) \<Rightarrow> Some (Inr ((doc @ s @ w, ctx'), g4))))
     else if u < 0.7 + 0.1 then
       (case gen_table debug fuel ctx g2 of
          None \<Rightarrow> None
        | Some (Inl e) \<Rightarrow> Some (Inl e)
        | Some (Inr ((s, ctx'), g3)) \<Rightarrow>
            (case gen_ws g3 of (w, g4) \<Rightarrow> Some (Inr ((doc @ s @ w, ctx'), g4))))
     else Some (Inr ((doc, ctx), g2)))"
  have eq: "gen_expression debug fuel ctx g =
      (case body of
         None \<Rightarrow> None
       | Some (Inl e) \<Rightarrow> Some (Inl e)
       | Some (Inr ((doc1, ctx1), g5)) \<Rightarrow>
           (case rng_random g5 of (u, g6) \<Rightarrow>
              if u < 0.5 then
                (case gen_comment g6 of (c, g7) \<Rightarrow> Some (Inr ((doc1 @ c, ctx1), g7)))
              else Some (Inr ((doc1, ctx1), g6))))"
    by (simp add: gen_expression_def doc u body_def)
  have body_ok: "\<exists>s ctx' g'. rb = Inr ((s, ctx'), g') \<and> context_ok ctx'" if "body = Some rb" for rb
  proof -
    consider (keyval) "u < 0.7" | (table) "\<not> u < 0.7" "u < 0.7 + 0.1"
      | (none) "\<not> u < 0.7" "\<not> u < 0.7 + 0.1"
      by blast
    then show ?thesis
    proof cases
      case keyval
      with that obtain rk where rk: "gen_keyval debug fuel ctx g2 = Some rk"
        by (auto simp: body_def split: option.splits)
      from gen_keyval_invariant [OF assms(1) rk] that keyval rk show ?thesis
        by (auto simp: body_def split: prod.splits)
    next
      case table
      with that obtain rk where rk: "gen_table debug fuel ctx g2 = Some rk"
        by (auto simp: body_def split: option.splits)
      from gen_table_invariant [OF assms(1) rk] that table rk show ?thesis
        by (auto simp: body_def split: prod.splits)
    next
      case none
      with that assms(1) show ?thesis by (auto simp: body_def)
    qed
  qed
  from assms(2) eq obtain rb where rb: "body = Some rb" by (cases body) auto
  from body_ok [OF rb] obtain s1 ctx1 g5 where
    rb': "rb = Inr ((s1, ctx1), g5)" and ok: "context_ok ctx1" by blast
  from assms(2) eq rb rb' ok show ?thesis
    by (auto split: prod.splits if_splits)
qed

lemma gen_toml_loop_invariant:
  "context_ok ctx \<Longrightarrow> gen_toml_loop debug fuel is ctx doc g = Some r \<Longrightarrow>
   \<exists>doc' ctx' g'. r = Inr ((doc', ctx'), g') \<and> context_ok ctx'"
proof (induction "is" arbitrary: ctx doc g)
  case Nil
  then show ?case by auto
next
  case (Cons i "is")
  obtain doc1 g2 where 1:
    "(if i > 0 then (case gen_newline g of (eol, g1) \<Rightarrow> (doc @ [eol], g1)) else (doc, g))
       = (doc1, g2)"
    by (cases "if i > 0 then (case gen_newline g of (eol, g1) \<Rightarrow> (doc @ [eol], g1)) else (doc, g)")
  from Cons.prems(2) 1 obtain re where re: "gen_expression debug fuel ctx g2 = Some re"
    by (auto split: option.splits)
  from gen_expression_invariant [OF Cons.prems(1) re] obtain expr ctx1 g3 where
    e: "re = Inr ((expr, ctx1), g3)" and ok: "context_ok ctx1" by blast
  from Cons.prems(2) 1 re e
  have "gen_toml_loop debug fuel is ctx1 (doc1 @ [expr]) g3 = Some r" by simp
  from Cons.IH [OF ok this] show ?case .
qed

text \<open>
  Claim C4. A run of \<open>gen_toml\<close> raises nothing, for each state of the random source,
  each amount of fuel and either setting of \<open>_DEBUG\<close>. Every assertion of the tree of
  tables is a branch of the model with the value \<open>Inl AssertionError\<close> (in
  \<open>make_subtable\<close>, \<open>open_table_last\<close>, \<open>open_table_array_last\<close> and \<open>assign_last\<close>), and
  every caller up to \<open>gen_toml\<close> hands an \<open>Inl\<close> on: a run reaches none of them. The
  reason is the one the claim gives. The keys that \<open>_gen_keyval\<close> and \<open>_gen_table\<close>
  draw avoid what the queries list, and on a tree with the invariant \<open>context_ok\<close> that
  is the precondition of \<open>assign\<close>, \<open>open_table\<close> and \<open>open_table_array\<close>, each of which
  gives the invariant back. The index and type errors of the same code are not raised
  either.
\<close>

theorem gen_toml_no_assertion: "gen_toml debug fuel g \<noteq> Some (Inl e)"
proof
  assume a: "gen_toml debug fuel g = Some (Inl e)"
  obtain n g1 where n: "randint 1 MAX_EXPRESSIONS g = (n, g1)"
    by (cases "randint 1 MAX_EXPRESSIONS g")
  from a n obtain r where
    r: "gen_toml_loop debug fuel [0..<nat n] Context_init [] g1 = Some r"
    by (auto simp: gen_toml_def split: option.splits)
  from gen_toml_loop_invariant [OF context_ok_init r] a n r show False
    by (auto simp: gen_toml_def)
qed

subsection \<open>A run with a header and a dotted key\<close>

lemma rand_exp_5_at_zero: "rand_exp 5 (Suc 0) 100 (0 # g) = (Suc 0, g)"
  by (simp add: rand_exp_def uniform_def rng_random_def)

lemma gen_simple_key_letter:
  "c < 26 \<Longrightarrow>
   gen_simple_key (4503599627370496 # 0 # 4503599627370496 # c # g) = (([0x61 + c], [0x61 + c]), g)"
  by (simp add: gen_simple_key_def rng_random_def gen_unquoted_key_def rand_exp_5_at_zero
      choice_def randbelow_def nth_append)

lemma gen_simple_key_empty: "gen_simple_key (0 # 0 # g) = (([0x22, 0x22], []), g)"
  by (simp add: gen_simple_key_def rng_random_def gen_basic_string_def)

lemma gen_val_empty_string:
  "gen_val (Suc 0) (0 # 0 # 0 # 0 # g)
     = Some (Inr (([0x22, 0x22, 0x22, 0x22, 0x22, 0x22], VStr []), g))"
  by (simp add: choice_def randbelow_def gen_string_def gen_ml_basic_string_def randint_def)

lemma gen_val_true:
  "gen_val (Suc 0) (Suc 0 # 0 # g) = Some (Inr ((lit ''true'', VBool True), g))"
  by (simp add: choice_def randbelow_def gen_boolean_def)

lemma gen_dotted_key_loop_2:
  "gen_dotted_key_loop 2 key_str key g = gen_dotted_key_loop (Suc (Suc 0)) key_str key g"
  by (simp add: numeral_2_eq_2)

text \<open>The three expressions of the run: \<open>"" = """"""\<close>, \<open>[a]\<close> and \<open>b.c = true\<close>.\<close>

lemma gen_expression_run_1:
  "gen_expression debug (Suc 0) \<lparr>data = [], active = [], printed = []\<rparr>
     (0 # 0 # 0 # 0 # 0 # 0 # 0 # 0 # 0 # 0 # 0 # 0 # 4503599627370496 # g)
   = Some (Inr (([0x22, 0x22, 0x3D, 0x22, 0x22, 0x22, 0x22, 0x22, 0x22],
                 \<lparr>data = [([], Value (VStr []))], active = [],
                  printed = (if debug then [PrintAssign [[]] (VStr [])] else [])\<rparr>), g))"
  by (simp add: gen_expression_def rng_random_def gen_keyval_def
      active_table_def get_active_item_keys_def get_active_item_prefixes_def
      get_active_subtable_keys_def gen_key_def gen_dotted_key_def MAX_DOTTED_LEN_def
      randint_def randbelow_def gen_simple_key_empty gen_val_empty_string
      assign_def debug_print_def assign_last_def lit_def del: gen_val.simps)

lemma gen_expression_run_2:
  "gen_expression debug (Suc 0)
     \<lparr>data = [([], Value (VStr []))], active = [], printed = pr\<rparr>
     (0 # 6755399441055744 # 0 # 0 # 4503599627370496 # 0 # 4503599627370496 # 0 # 0 # 0 # 0
        # 4503599627370496 # g)
   = Some (Inr ((lit ''[a]'',
                 \<lparr>data = [([], Value (VStr [])), ([0x61], Table True False [])],
                  active = [[0x61]],
                  printed = (if debug then pr @ [PrintOpenTable [[0x61]]] else pr)\<rparr>), g))"
  by (simp add: gen_expression_def rng_random_def gen_table_def get_item_keys_def
      get_table_keys_def gen_key_def gen_dotted_key_def MAX_DOTTED_LEN_def
      randint_def randbelow_def gen_simple_key_letter
      open_table_def debug_print_def open_table_last_def lit_def)

lemma gen_expression_run_3:
  "gen_expression debug (Suc 0)
     \<lparr>data = [([], Value (VStr [])), ([0x61], Table True False [])],
      active = [[0x61]], printed = pr\<rparr>
     (0 # 0 # Suc 0 # 4503599627370496 # 0 # 4503599627370496 # Suc 0 # 0 # 0
        # 4503599627370496 # 0 # 4503599627370496 # 2 # Suc 0 # 0 # 0 # 0 # 0
        # 4503599627370496 # g)
   = Some (Inr ((lit ''b.c=true'',
                 \<lparr>data = [([], Value (VStr [])),
                          ([0x61], Table True False
                             [([0x62], Table True True [([0x63], Value (VBool True))])])],
                  active = [[0x61]],
                  printed = (if debug then pr @ [PrintAssign [[0x62], [0x63]] (VBool True)]
                             else pr)\<rparr>), g))"
  by (simp add: gen_expression_def rng_random_def gen_keyval_def
      active_table_def get_active_item_keys_def get_active_item_prefixes_def
      get_active_subtable_keys_def gen_key_def gen_dotted_key_def MAX_DOTTED_LEN_def
      randint_def randbelow_def gen_simple_key_letter gen_val_true gen_dot_sep_def
      gen_dotted_key_loop_2
      assign_def debug_print_def assign_last_def lit_def del: gen_val.simps)

lemma gen_toml_run:
  "gen_toml debug 1
     [2,
      0, 0, 0, 0, 0, 0, 0, 0, 0, 0, 0, 0, 4503599627370496,
      0, 0, 6755399441055744, 0, 0, 4503599627370496, 0, 4503599627370496, 0, 0, 0, 0,
      4503599627370496,
      0, 0, 0, 1, 4503599627370496, 0, 4503599627370496, 1, 0, 0, 4503599627370496, 0,
      4503599627370496, 2, 1, 0, 0, 0, 0, 4503599627370496]
   = Some (Inr (([0x22, 0x22, 0x3D, 0x22, 0x22, 0x22, 0x22, 0x22, 0x22, 0x0A] @ lit ''[a]''
                   @ [0x0A] @ lit ''b.c=true'',
                 [([], VStr []), ([0x61], VDict [([0x62], VDict [([0x63], VBool True)])])]),
                if debug
                then [PrintAssign [[]] (VStr []), PrintOpenTable [[0x61]],
                      PrintAssign [[0x62], [0x63]] (VBool True)]
                else []))"
  using gen_expression_run_1 [of debug] gen_expression_run_2 [of debug]
    gen_expression_run_3 [of debug]
  by (simp add: gen_toml_def MAX_EXPRESSIONS_def randint_def randbelow_def upt_conv_Cons
      gen_newline_def choice_def get_data_def lit_def Context_init_def)

theorem gen_toml_no_assertion_witness:
  "gen_toml False 1
     [2,
      0, 0, 0, 0, 0, 0, 0, 0, 0, 0, 0, 0, 4503599627370496,
      0, 0, 6755399441055744, 0, 0, 4503599627370496, 0, 4503599627370496, 0, 0, 0, 0,
      4503599627370496,
      0, 0, 0, 1, 4503599627370496, 0, 4503599627370496, 1, 0, 0, 4503599627370496, 0,
      4503599627370496, 2, 1, 0, 0, 0, 0, 4503599627370496]
     \<noteq> Some (Inl AssertionError)
   \<and> gen_toml False 1
     [2,
      0, 0, 0, 0, 0, 0, 0, 0, 0, 0, 0, 0, 4503599627370496,
      0, 0, 6755399441055744, 0, 0, 4503599627370496, 0, 4503599627370496, 0, 0, 0, 0,
      4503599627370496,
      0, 0, 0, 1, 4503599627370496, 0, 4503599627370496, 1, 0, 0, 4503599627370496, 0,
      4503599627370496, 2, 1, 0, 0, 0, 0, 4503599627370496]
     = Some (Inr (([0x22, 0x22, 0x3D, 0x22, 0x22, 0x22, 0x22, 0x22, 0x22, 0x0A] @ lit ''[a]''
                   @ [0x0A] @ lit ''b.c=true'',
                 [([], VStr []), ([0x61], VDict [([0x62], VDict [([0x63], VBool True)])])]),
                []))"
  using gen_toml_no_assertion [of False 1
      "[2,
      0, 0, 0, 0, 0, 0, 0, 0, 0, 0, 0, 0, 4503599627370496,
      0, 0, 6755399441055744, 0, 0, 4503599627370496, 0, 4503599627370496, 0, 0, 0, 0,
      4503599627370496,
      0, 0, 0, 1, 4503599627370496, 0, 4503599627370496, 1, 0, 0, 4503599627370496, 0,
      4503599627370496, 2, 1, 0, 0, 0, 0, 4503599627370496]" AssertionError]
    gen_toml_run [of False]
  by simp

section \<open>Verification: the output is a function of the random source\<close>

subsection \<open>More fuel does not change what a run returns\<close>

lemma gen_ml_basic_char_fuel:
  "gen_ml_basic_char fuel aw g = Some r \<Longrightarrow> fuel \<le> fuel' \<Longrightarrow>
   gen_ml_basic_char fuel' aw g = Some r"
proof (induction fuel arbitrary: fuel' g)
  case 0
  then show ?case by simp
next
  case (Suc fuel)
  from Suc.prems(2) obtain k where k: "fuel' = Suc k" "fuel \<le> k" by (cases fuel') auto
  from Suc.prems(1) Suc.IH [OF _ k(2)] show ?case
    unfolding k(1) by (auto split: prod.splits if_splits)
qed

lemma gen_ml_basic_loop_fuel:
  "gen_ml_basic_loop fuel k doc val aq aw g = Some r \<Longrightarrow> fuel \<le> fuel' \<Longrightarrow>
   gen_ml_basic_loop fuel' k doc val aq aw g = Some r"
proof (induction k arbitrary: doc val aq aw g)
  case 0
  then show ?case by simp
next
  case (Suc k)
  obtain u g1 where u: "rng_random g = (u, g1)" by (cases "rng_random g")
  obtain u' g2 where u': "rng_random g1 = (u', g2)" by (cases "rng_random g1")
  obtain nl g3 where nl: "gen_newline g2 = (nl, g3)" by (cases "gen_newline g2")
  obtain ps g4 where ps: "gen_ml_escaped_newline g2 = (ps, g4)"
    by (cases "gen_ml_escaped_newline g2")
  show ?case
  proof (cases "gen_ml_basic_char fuel aw g2")
    case None
    with Suc.prems(1) Suc.IH [OF _ Suc.prems(2)] u u' nl ps show ?thesis
      by (auto split: if_splits)
  next
    case (Some c)
    from gen_ml_basic_char_fuel [OF Some Suc.prems(2)] Some
      Suc.prems(1) Suc.IH [OF _ Suc.prems(2)] u u' nl ps
    show ?thesis by (auto split: if_splits prod.splits)
  qed
qed

lemma gen_ml_basic_string_fuel:
  assumes "gen_ml_basic_string fuel g = Some r" "fuel \<le> fuel'"
  shows "gen_ml_basic_string fuel' g = Some r"
proof -
  obtain n g1 where n: "rand_exp 25 0 200 g = (n, g1)" by (cases "rand_exp 25 0 200 g")
  obtain b g2 where b: "randint 0 1 g1 = (b, g2)" by (cases "randint 0 1 g1")
  obtain ps g4 where ps:
    "(if b > 0 then (case gen_newline g2 of (nl, g3) \<Rightarrow> ([nl], g3)) else ([], g2)) = (ps, g4)"
    by (cases "if b > 0 then (case gen_newline g2 of (nl, g3) \<Rightarrow> ([nl], g3)) else ([], g2)")
  from assms(1) n b ps obtain rl where
    rl: "gen_ml_basic_loop fuel n ps [] True True g4 = Some rl"
    by (auto simp: gen_ml_basic_string_def split: option.splits)
  from gen_ml_basic_loop_fuel [OF rl assms(2)] rl assms(1) n b ps show ?thesis
    by (simp add: gen_ml_basic_string_def)
qed

lemma gen_string_fuel:
  "gen_string fuel g = Some r \<Longrightarrow> fuel \<le> fuel' \<Longrightarrow> gen_string fuel' g = Some r"
  by (auto simp: gen_string_def split: prod.splits string_form.splits
      dest: gen_ml_basic_string_fuel)

lemma gen_key_search_fuel:
  "gen_key_search fuel ep ek prefix g = Some r \<Longrightarrow> fuel \<le> fuel' \<Longrightarrow>
   gen_key_search fuel' ep ek prefix g = Some r"
proof (induction fuel arbitrary: fuel' g)
  case 0
  then show ?case by simp
next
  case (Suc fuel)
  from Suc.prems(2) obtain k where k: "fuel' = Suc k" "fuel \<le> k" by (cases fuel') auto
  from Suc.prems(1) Suc.IH [OF _ k(2)] show ?case
    unfolding k(1) by (auto split: prod.splits if_splits)
qed

lemma gen_key_fuel:
  "gen_key fuel ep ek rp rk g = Some r \<Longrightarrow> fuel \<le> fuel' \<Longrightarrow>
   gen_key fuel' ep ek rp rk g = Some r"
  by (auto simp: gen_key_def Let_def split: prod.splits if_splits dest: gen_key_search_fuel)

lemma gen_array_loop_fuel:
  assumes gv: "\<And>g r. gv g = Some r \<Longrightarrow> gv' g = Some r"
  shows "gen_array_loop gv is parts val g = Some r \<Longrightarrow>
    gen_array_loop gv' is parts val g = Some r"
proof (induction "is" arbitrary: parts val g)
  case Nil
  then show ?case by simp
next
  case (Cons i "is")
  obtain parts1 g2 where 1:
    "(if i > 0 then (case gen_ws_comment_newline g of (w, g1) \<Rightarrow> (parts @ [w, lit '',''], g1))
      else (parts, g)) = (parts1, g2)"
    by (cases "if i > 0 then (case gen_ws_comment_newline g of (w, g1) \<Rightarrow> (parts @ [w, lit '',''], g1))
      else (parts, g)")
  obtain w2 g3 where 2: "gen_ws_comment_newline g2 = (w2, g3)"
    by (cases "gen_ws_comment_newline g2")
  from Cons.prems 1 2 obtain rv where rv: "gv g3 = Some rv"
    by (auto split: option.splits)
  from gv [OF rv] rv Cons.prems Cons.IH 1 2 show ?case
    by (auto split: sum.splits)
qed

lemma gen_array_fuel:
  assumes gv: "\<And>g r. gv g = Some r \<Longrightarrow> gv' g = Some r"
    and run: "gen_array gv g = Some r"
  shows "gen_array gv' g = Some r"
proof -
  obtain n g1 where n: "rand_exp 2 0 10 g = (n, g1)" by (cases "rand_exp 2 0 10 g")
  from run n obtain rl where rl: "gen_array_loop gv [0..<n] [] [] g1 = Some rl"
    by (auto simp: gen_array_def split: option.splits)
  from gen_array_loop_fuel [of gv gv', OF gv rl] rl run n show ?thesis
    by (simp add: gen_array_def)
qed

lemma gen_inline_table_loop_fuel:
  assumes gv: "\<And>g r. gv g = Some r \<Longrightarrow> gv' g = Some r" and le: "fuel \<le> fuel'"
  shows "gen_inline_table_loop fuel gv is parts tbl ik ip g = Some r \<Longrightarrow>
    gen_inline_table_loop fuel' gv' is parts tbl ik ip g = Some r"
proof (induction "is" arbitrary: parts tbl ik ip g)
  case Nil
  then show ?case by simp
next
  case (Cons i "is")
  from Cons.prems obtain rk where rk: "gen_key fuel ik (ik @ ip) ip [] g = Some rk"
    by (auto split: option.splits)
  obtain key_str key g1 where rk': "rk = ((key_str, key), g1)" by (cases rk) auto
  from Cons.prems rk rk' obtain rv where rv: "gv g1 = Some rv"
    by (auto split: option.splits)
  from gen_key_fuel [OF rk le] gv [OF rv] rk rk' rv Cons.prems Cons.IH show ?case
    by (auto split: sum.splits prod.splits)
qed

lemma gen_inline_table_fuel:
  assumes gv: "\<And>g r. gv g = Some r \<Longrightarrow> gv' g = Some r" and le: "fuel \<le> fuel'"
    and run: "gen_inline_table fuel gv g = Some r"
  shows "gen_inline_table fuel' gv' g = Some r"
proof -
  obtain n g1 where n: "rand_exp 2 0 10 g = (n, g1)" by (cases "rand_exp 2 0 10 g")
  from run n obtain rl where
    rl: "gen_inline_table_loop fuel gv [0..<n] [] [] [] [] g1 = Some rl"
    by (auto simp: gen_inline_table_def split: option.splits)
  from gen_inline_table_loop_fuel [of gv gv', OF gv le rl] rl run n show ?thesis
    by (simp add: gen_inline_table_def)
qed

lemma gen_val_fuel: "gen_val fuel g = Some r \<Longrightarrow> fuel \<le> fuel' \<Longrightarrow> gen_val fuel' g = Some r"
proof (induction fuel arbitrary: fuel' g r)
  case 0
  then show ?case by simp
next
  case (Suc fuel)
  from Suc.prems(2) obtain k where k: "fuel' = Suc k" "fuel \<le> k" by (cases fuel') auto
  have sub: "gen_val fuel g = Some r \<Longrightarrow> gen_val k g = Some r" for g r
    by (rule Suc.IH [OF _ k(2)])
  obtain func g1 where f:
    "choice [GenString, GenBoolean, GenInteger, GenFloat, GenArray, GenInlineTable, GenDateTime] g
       = (func, g1)"
    by (cases "choice [GenString, GenBoolean, GenInteger, GenFloat, GenArray, GenInlineTable,
                  GenDateTime] g")
  show ?case
  proof (cases func)
    case GenString
    with Suc.prems(1) f obtain rs where rs: "gen_string fuel g1 = Some rs"
      by (auto split: option.splits)
    from gen_string_fuel [OF rs k(2)] rs Suc.prems(1) f GenString show ?thesis
      unfolding k(1) by simp
  next
    case GenArray
    with Suc.prems(1) f have "gen_array (gen_val fuel) g1 = Some r" by simp
    from gen_array_fuel [of "gen_val fuel" "gen_val k", OF sub this] f GenArray show ?thesis
      unfolding k(1) by simp
  next
    case GenInlineTable
    with Suc.prems(1) f have "gen_inline_table fuel (gen_val fuel) g1 = Some r" by simp
    from gen_inline_table_fuel [of "gen_val fuel" "gen_val k", OF sub k(2) this] f GenInlineTable
    show ?thesis unfolding k(1) by simp
  qed (use Suc.prems(1) f in \<open>auto simp: k(1)\<close>)
qed

lemma gen_keyval_fuel:
  assumes "gen_keyval debug fuel ctx g = Some r" "fuel \<le> fuel'"
  shows "gen_keyval debug fuel' ctx g = Some r"
proof (cases "active_table ctx")
  case None
  with assms show ?thesis by (simp add: gen_keyval_def)
next
  case (Some t)
  define ik where "ik = get_active_item_keys t"
  define ip where "ip = get_active_item_prefixes t"
  define tk where "tk = get_active_subtable_keys t"
  from assms(1) Some obtain rk where
    rk: "gen_key fuel (ik @ tk) (ik @ ip @ tk) ip [] g = Some rk"
    by (auto simp: gen_keyval_def Let_def ik_def ip_def tk_def split: option.splits)
  obtain key_str key g1 where rk': "rk = ((key_str, key), g1)" by (cases rk) auto
  from assms(1) Some rk rk' obtain rv where rv: "gen_val fuel g1 = Some rv"
    by (auto simp: gen_keyval_def Let_def ik_def ip_def tk_def split: option.splits)
  from gen_key_fuel [OF rk assms(2)] gen_val_fuel [OF rv assms(2)] assms(1) Some rk rk' rv
  show ?thesis
    by (simp add: gen_keyval_def Let_def ik_def ip_def tk_def del: gen_val.simps)
qed

lemma gen_table_fuel:
  assumes "gen_table debug fuel ctx g = Some r" "fuel \<le> fuel'"
  shows "gen_table debug fuel' ctx g = Some r"
proof -
  obtain b g0 where b: "randint 0 1 g = (b, g0)" by (cases "randint 0 1 g")
  show ?thesis
  proof (cases "b > 0")
    case True
    with assms(1) b obtain rk where
      rk: "gen_key fuel (get_item_keys ctx)
            (get_item_keys ctx @ get_table_keys ctx None (Some False))
            (get_table_keys ctx None (Some False) @ get_table_keys ctx None (Some True))
            (get_table_keys ctx None (Some True)) g0 = Some rk"
      by (auto simp: gen_table_def Let_def split: option.splits)
    from gen_key_fuel [OF rk assms(2)] rk assms(1) b True show ?thesis
      by (simp add: gen_table_def Let_def)
  next
    case False
    with assms(1) b obtain rk where
      rk: "gen_key fuel (get_item_keys ctx)
            (get_item_keys ctx @ get_table_keys ctx (Some True) (Some False)
               @ get_table_keys ctx None (Some True))
            (get_table_keys ctx (Some False) (Some False)
               @ get_table_keys ctx (Some True) (Some False))
            (get_table_keys ctx (Some False) (Some False)) g0 = Some rk"
      by (auto simp: gen_table_def Let_def split: option.splits)
    from gen_key_fuel [OF rk assms(2)] rk assms(1) b False show ?thesis
      by (simp add: gen_table_def Let_def)
  qed
qed

lemma gen_expression_fuel:
  assumes "gen_expression debug fuel ctx g = Some r" "fuel \<le> fuel'"
  shows "gen_expression debug fuel' ctx g = Some r"
proof -
  obtain doc g1 where doc: "gen_ws g = (doc, g1)" by (cases "gen_ws g")
  obtain u g2 where u: "rng_random g1 = (u, g2)" by (cases "rng_random g1")
  consider (keyval) "u < 0.7" | (table) "\<not> u < 0.7" "u < 0.7 + 0.1"
    | (none) "\<not> u < 0.7" "\<not> u < 0.7 + 0.1"
    by blast
  then show ?thesis
  proof cases
    case keyval
    with assms(1) doc u obtain rk where rk: "gen_keyval debug fuel ctx g2 = Some rk"
      by (auto simp: gen_expression_def split: option.splits)
    from gen_keyval_fuel [OF rk assms(2)] rk assms(1) doc u keyval show ?thesis
      by (simp add: gen_expression_def)
  next
    case table
    with assms(1) doc u obtain rk where rk: "gen_table debug fuel ctx g2 = Some rk"
      by (auto simp: gen_expression_def split: option.splits)
    from gen_table_fuel [OF rk assms(2)] rk assms(1) doc u table show ?thesis
      by (simp add: gen_expression_def)
  next
    case none
    with assms(1) doc u show ?thesis by (simp add: gen_expression_def)
  qed
qed

lemma gen_toml_loop_fuel:
  "gen_toml_loop debug fuel is ctx doc g = Some r \<Longrightarrow> fuel \<le> fuel' \<Longrightarrow>
   gen_toml_loop debug fuel' is ctx doc g = Some r"
proof (induction "is" arbitrary: ctx doc g)
  case Nil
  then show ?case by simp
next
  case (Cons i "is")
  obtain doc1 g2 where 1:
    "(if i > 0 then (case gen_newline g of (eol, g1) \<Rightarrow> (doc @ [eol], g1)) else (doc, g))
       = (doc1, g2)"
    by (cases "if i > 0 then (case gen_newline g of (eol, g1) \<Rightarrow> (doc @ [eol], g1)) else (doc, g)")
  from Cons.prems(1) 1 obtain re where re: "gen_expression debug fuel ctx g2 = Some re"
    by (auto split: option.splits)
  from gen_expression_fuel [OF re Cons.prems(2)] re Cons.prems(1) 1
    Cons.IH [OF _ Cons.prems(2)]
  show ?case by (auto split: sum.splits)
qed

lemma gen_toml_fuel:
  assumes "gen_toml debug fuel g = Some r" "fuel \<le> fuel'"
  shows "gen_toml debug fuel' g = Some r"
proof -
  obtain n g1 where n: "randint 1 MAX_EXPRESSIONS g = (n, g1)"
    by (cases "randint 1 MAX_EXPRESSIONS g")
  from assms(1) n obtain rl where
    rl: "gen_toml_loop debug fuel [0..<nat n] Context_init [] g1 = Some rl"
    by (auto simp: gen_toml_def split: option.splits)
  from gen_toml_loop_fuel [OF rl assms(2)] rl assms(1) n show ?thesis
    by (simp add: gen_toml_def)
qed

subsection \<open>The flag \<open>_DEBUG\<close> does not change what a run returns\<close>

lemma forget_printed_simps [simp]:
  "data (forget_printed ctx) = data ctx"
  "active (forget_printed ctx) = active ctx"
  "printed (forget_printed ctx) = []"
  "forget_printed (ctx\<lparr>data := d\<rparr>) = (forget_printed ctx)\<lparr>data := d\<rparr>"
  "forget_printed (ctx\<lparr>active := k\<rparr>) = (forget_printed ctx)\<lparr>active := k\<rparr>"
  "forget_printed (ctx\<lparr>printed := pr\<rparr>) = forget_printed ctx"
  "forget_printed (forget_printed ctx) = forget_printed ctx"
  by (simp_all add: forget_printed_def)

lemma forget_printed_queries [simp]:
  "active_table (forget_printed ctx) = active_table ctx"
  "get_item_keys (forget_printed ctx) = get_item_keys ctx"
  "get_table_keys (forget_printed ctx) df ar = get_table_keys ctx df ar"
  "get_data (forget_printed ctx) = get_data ctx"
  by (simp_all add: active_table_def get_item_keys_def get_table_keys_def get_data_def)

lemma debug_print_forget [simp]:
  "forget_printed (debug_print debug line ctx) = forget_printed ctx"
  by (simp add: debug_print_def)

lemma assign_forget:
  "assign False key v (forget_printed ctx) = map_sum id forget_printed (assign debug key v ctx)"
  by (simp add: assign_def Let_def debug_print_def split: sum.splits)

lemma open_table_forget:
  "open_table False key (forget_printed ctx) = map_sum id forget_printed (open_table debug key ctx)"
  by (simp add: open_table_def Let_def debug_print_def split: sum.splits)

lemma open_table_array_forget:
  "open_table_array False key (forget_printed ctx)
     = map_sum id forget_printed (open_table_array debug key ctx)"
  by (simp add: open_table_array_def Let_def debug_print_def split: sum.splits)

lemma gen_keyval_forget:
  "gen_keyval False fuel (forget_printed ctx) g = forget_run (gen_keyval debug fuel ctx g)"
  by (simp add: gen_keyval_def Let_def forget_run_def assign_forget [of _ _ ctx debug]
      split: option.splits sum.splits prod.splits del: gen_val.simps)

lemma gen_table_forget:
  "gen_table False fuel (forget_printed ctx) g = forget_run (gen_table debug fuel ctx g)"
  by (simp add: gen_table_def Let_def forget_run_def open_table_forget [of _ ctx debug]
      open_table_array_forget [of _ ctx debug]
      split: option.splits sum.splits prod.splits)

lemma gen_expression_forget:
  "gen_expression False fuel (forget_printed ctx) g
     = forget_run (gen_expression debug fuel ctx g)"
proof -
  obtain doc g1 where doc: "gen_ws g = (doc, g1)" by (cases "gen_ws g")
  obtain u g2 where u: "rng_random g1 = (u, g2)" by (cases "rng_random g1")
  consider (keyval) "u < 0.7" | (table) "\<not> u < 0.7" "u < 0.7 + 0.1"
    | (none) "\<not> u < 0.7" "\<not> u < 0.7 + 0.1"
    by blast
  then show ?thesis
  proof cases
    case keyval
    show ?thesis
      using doc u keyval gen_keyval_forget [of fuel ctx g2 debug]
      by (cases "gen_keyval debug fuel ctx g2")
         (auto simp: gen_expression_def forget_run_def split: sum.splits prod.splits)
  next
    case table
    show ?thesis
      using doc u table gen_table_forget [of fuel ctx g2 debug]
      by (cases "gen_table debug fuel ctx g2")
         (auto simp: gen_expression_def forget_run_def split: sum.splits prod.splits)
  next
    case none
    with doc u show ?thesis
      by (auto simp: gen_expression_def forget_run_def split: prod.splits)
  qed
qed

lemma gen_toml_loop_forget:
  "gen_toml_loop False fuel is (forget_printed ctx) doc g
     = forget_run (gen_toml_loop debug fuel is ctx doc g)"
proof (induction "is" arbitrary: ctx doc g)
  case Nil
  then show ?case by (simp add: forget_run_def)
next
  case (Cons i "is")
  obtain doc1 g2 where 1:
    "(if i > 0 then (case gen_newline g of (eol, g1) \<Rightarrow> (doc @ [eol], g1)) else (doc, g))
       = (doc1, g2)"
    by (cases "if i > 0 then (case gen_newline g of (eol, g1) \<Rightarrow> (doc @ [eol], g1)) else (doc, g)")
  show ?case
  proof (cases "gen_expression debug fuel ctx g2")
    case None
    with 1 gen_expression_forget [of fuel ctx g2 debug] show ?thesis
      by (simp add: forget_run_def)
  next
    case (Some re)
    show ?thesis
    proof (cases re)
      case (Inl e)
      with Some 1 gen_expression_forget [of fuel ctx g2 debug] show ?thesis
        by (simp add: forget_run_def)
    next
      case (Inr x)
      then obtain expr ctx1 g3 where x: "re = Inr ((expr, ctx1), g3)" by (cases x) auto
      with Some 1 gen_expression_forget [of fuel ctx g2 debug]
        Cons.IH [of ctx1 "doc1 @ [expr]" g3]
      show ?thesis by (simp add: forget_run_def)
    qed
  qed
qed

lemma gen_toml_forget:
  "gen_toml False fuel g =
     (case gen_toml debug fuel g of
        None \<Rightarrow> None
      | Some (Inl e) \<Rightarrow> Some (Inl e)
      | Some (Inr (out, pr)) \<Rightarrow> Some (Inr (out, [])))"
proof -
  obtain n g1 where n: "randint 1 MAX_EXPRESSIONS g = (n, g1)"
    by (cases "randint 1 MAX_EXPRESSIONS g")
  have init: "forget_printed Context_init = Context_init"
    by (simp add: forget_printed_def Context_init_def)
  from gen_toml_loop_forget [of fuel "[0..<nat n]" Context_init "[]" g1 debug] n show ?thesis
    by (auto simp: gen_toml_def init forget_run_def split: option.splits sum.splits prod.splits)
qed

text \<open>
  Claim C6. Two runs on the same state of the random source that both return give the
  same document and the same model, whatever the other two inputs of a run are: the
  fuel (the model's bound on the loops that nothing else bounds) and the module flag
  \<open>_DEBUG\<close>, the only state outside the generator that the code reads. The flag only
  changes what is printed.
\<close>

theorem gen_toml_deterministic:
  assumes "gen_toml debug1 fuel1 g = Some (Inr ((doc1, model1), out1))"
    and "gen_toml debug2 fuel2 g = Some (Inr ((doc2, model2), out2))"
  shows "doc1 = doc2 \<and> model1 = model2"
proof -
  let ?f = "max fuel1 fuel2"
  from gen_toml_fuel [OF assms(1), of ?f]
  have 1: "gen_toml debug1 ?f g = Some (Inr ((doc1, model1), out1))" by simp
  from gen_toml_fuel [OF assms(2), of ?f]
  have 2: "gen_toml debug2 ?f g = Some (Inr ((doc2, model2), out2))" by simp
  from gen_toml_forget [of ?f g debug1] 1
  have "gen_toml False ?f g = Some (Inr ((doc1, model1), []))" by simp
  moreover from gen_toml_forget [of ?f g debug2] 2
  have "gen_toml False ?f g = Some (Inr ((doc2, model2), []))" by simp
  ultimately show ?thesis by simp
qed

lemma gen_toml_run_more_fuel:
  "gen_toml True 2
     [2,
      0, 0, 0, 0, 0, 0, 0, 0, 0, 0, 0, 0, 4503599627370496,
      0, 0, 6755399441055744, 0, 0, 4503599627370496, 0, 4503599627370496, 0, 0, 0, 0,
      4503599627370496,
      0, 0, 0, 1, 4503599627370496, 0, 4503599627370496, 1, 0, 0, 4503599627370496, 0,
      4503599627370496, 2, 1, 0, 0, 0, 0, 4503599627370496]
   = Some (Inr (([0x22, 0x22, 0x3D, 0x22, 0x22, 0x22, 0x22, 0x22, 0x22, 0x0A] @ lit ''[a]''
                   @ [0x0A] @ lit ''b.c=true'',
                 [([], VStr []), ([0x61], VDict [([0x62], VDict [([0x63], VBool True)])])]),
                [PrintAssign [[]] (VStr []), PrintOpenTable [[0x61]],
                 PrintAssign [[0x62], [0x63]] (VBool True)]))"
  using gen_toml_fuel [OF gen_toml_run [of True], of 2] by simp

theorem gen_toml_deterministic_witness:
  "gen_toml False 1
     [2,
      0, 0, 0, 0, 0, 0, 0, 0, 0, 0, 0, 0, 4503599627370496,
      0, 0, 6755399441055744, 0, 0, 4503599627370496, 0, 4503599627370496, 0, 0, 0, 0,
      4503599627370496,
      0, 0, 0, 1, 4503599627370496, 0, 4503599627370496, 1, 0, 0, 4503599627370496, 0,
      4503599627370496, 2, 1, 0, 0, 0, 0, 4503599627370496]
   = Some (Inr (([0x22, 0x22, 0x3D, 0x22, 0x22, 0x22, 0x22, 0x22, 0x22, 0x0A] @ lit ''[a]''
                   @ [0x0A] @ lit ''b.c=true'',
                 [([], VStr []), ([0x61], VDict [([0x62], VDict [([0x63], VBool True)])])]),
                []))
   \<and> gen_toml True 2
     [2,
      0, 0, 0, 0, 0, 0, 0, 0, 0, 0, 0, 0, 4503599627370496,
      0, 0, 6755399441055744, 0, 0, 4503599627370496, 0, 4503599627370496, 0, 0, 0, 0,
      4503599627370496,
      0, 0, 0, 1, 4503599627370496, 0, 4503599627370496, 1, 0, 0, 4503599627370496, 0,
      4503599627370496, 2, 1, 0, 0, 0, 0, 4503599627370496]
   = Some (Inr (([0x22, 0x22, 0x3D, 0x22, 0x22, 0x22, 0x22, 0x22, 0x22, 0x0A] @ lit ''[a]''
                   @ [0x0A] @ lit ''b.c=true'',
                 [([], VStr []), ([0x61], VDict [([0x62], VDict [([0x63], VBool True)])])]),
                [PrintAssign [[]] (VStr []), PrintOpenTable [[0x61]],
                 PrintAssign [[0x62], [0x63]] (VBool True)]))"
  using gen_toml_deterministic [OF gen_toml_run [of False] gen_toml_run_more_fuel]
    gen_toml_run [of False] gen_toml_run_more_fuel
  by simp

end
